(* ===== verification/Prelude.thy ===== *)
theory Prelude
  imports Main "HOL-Library.Word" "HOL-Library.Multiset" "HOL-Library.Code_Target_Numeral"
begin

text \<open>
  Shared vocabulary of the development: the machine types of the C sources
  (bytes, 16/32/64-bit unsigned integers, \<open>size_t\<close> as a natural number whose
  wrap-around is written out), big-endian loads and stores, and the generic
  lemmas on lists and words that the components use.  The collections
  \<open>size_t_simps\<close>, \<open>byte_simps\<close> and \<open>reader_simps\<close> gather the
  facts that carry the component proofs.
\<close>

unbundle bit_operations_syntax

section \<open>Machine types\<close>

type_synonym byte = "8 word"
type_synonym uint16 = "16 word"
type_synonym uint32 = "32 word"
type_synonym uint64 = "64 word"

named_theorems size_t_simps \<open>arithmetic of size_t with its wrap-around\<close>
named_theorems byte_simps \<open>bytes of machine words\<close>
named_theorems reader_simps \<open>unfolding of the byte-string readers\<close>

abbreviation (input) SIZE_MAX :: nat where
  "SIZE_MAX \<equiv> 18446744073709551615"

abbreviation (input) INT_MAX :: nat where
  "INT_MAX \<equiv> 2147483647"

text \<open>\<open>size_t\<close> addition and multiplication wrap modulo \<open>2 ^ 64\<close>.\<close>

definition size_add :: "nat \<Rightarrow> nat \<Rightarrow> nat" where
  "size_add a b = (a + b) mod 18446744073709551616"

definition size_mul :: "nat \<Rightarrow> nat \<Rightarrow> nat" where
  "size_mul a b = (a * b) mod 18446744073709551616"

lemma size_add_nowrap [size_t_simps]: "a + b \<le> SIZE_MAX \<Longrightarrow> size_add a b = a + b"
  by (simp add: size_add_def)

lemma size_mul_nowrap [size_t_simps]: "a * b \<le> SIZE_MAX \<Longrightarrow> size_mul a b = a * b"
  by (simp add: size_mul_def)

lemma size_add_bound: "size_add a b \<le> SIZE_MAX"
  by (simp add: size_add_def)

text \<open>The C idiom \<open>a + b < a\<close> detects the wrap of an unsigned addition.\<close>

lemma size_add_overflow_iff:
  assumes "a \<le> SIZE_MAX" and "b \<le> SIZE_MAX"
  shows "size_add a b < a \<longleftrightarrow> SIZE_MAX < a + b"
  using assms by (auto simp: size_add_def mod_if)

lemma size_add_no_overflow:
  assumes "a \<le> SIZE_MAX" and "b \<le> SIZE_MAX" and "\<not> size_add a b < a"
  shows "size_add a b = a + b"
  using assms by (simp add: size_add_overflow_iff size_add_nowrap)

section \<open>Big-endian words\<close>

text \<open>The value of a byte string read as a big-endian number.\<close>

definition be_nat :: "byte list \<Rightarrow> nat" where
  "be_nat = foldl (\<lambda>n b. 256 * n + unat b) 0"

text \<open>The \<open>k\<close> low-order bytes of a number, most significant first.\<close>

fun nat_be :: "nat \<Rightarrow> nat \<Rightarrow> byte list" where
  "nat_be 0 n = []"
| "nat_be (Suc k) n = nat_be k (n div 256) @ [of_nat (n mod 256)]"

lemma be_nat_Nil [simp]: "be_nat [] = 0"
  by (simp add: be_nat_def)

lemma be_nat_snoc [simp]: "be_nat (bs @ [b]) = 256 * be_nat bs + unat b"
  by (simp add: be_nat_def)

lemma be_nat_append: "be_nat (xs @ ys) = be_nat xs * 256 ^ length ys + be_nat ys"
proof (induction ys rule: rev_induct)
  case (snoc y ys)
  have "be_nat (xs @ ys @ [y]) = 256 * be_nat (xs @ ys) + unat y"
    by (metis append_assoc be_nat_snoc)
  then show ?case using snoc by simp
qed simp

lemma be_nat_single [simp]: "be_nat [b] = unat b"
  using be_nat_snoc [of "[]" b] by simp

lemma be_nat_Cons: "be_nat (b # bs) = unat b * 256 ^ length bs + be_nat bs"
  using be_nat_append [of "[b]" bs] by simp

lemma unat_byte_less [simp]: "unat (b :: byte) < 256"
  using unsigned_less [of b, where 'a = nat] by simp

lemma unat_byte_le [simp]: "unat (b :: byte) \<le> 255"
  using unat_byte_less [of b] by linarith

lemma be_nat_less: "be_nat bs < 256 ^ length bs"
proof (induction bs rule: rev_induct)
  case (snoc b bs)
  from snoc have "Suc (be_nat bs) \<le> 256 ^ length bs" by simp
  then have "256 * Suc (be_nat bs) \<le> 256 * 256 ^ length bs" by (rule mult_le_mono2)
  then show ?case using unat_byte_less [of b] by (simp del: unat_byte_less)
qed simp

lemma length_nat_be [simp]: "length (nat_be k n) = k"
  by (induction k arbitrary: n) simp_all

lemma unat_of_nat_byte [simp]: "unat (of_nat n :: byte) = n mod 256"
  by (simp add: unat_of_nat)

lemma be_nat_nat_be [byte_simps]: "be_nat (nat_be k n) = n mod 256 ^ k"
proof (induction k arbitrary: n)
  case (Suc k)
  have "256 * (n div 256 mod 256 ^ k) + n mod 256 = n mod (256 * 256 ^ k)"
    by (simp add: mod_mult2_eq)
  then show ?case using Suc by simp
qed simp

lemma nat_be_be_nat [byte_simps]: "nat_be (length bs) (be_nat bs) = bs"
proof (induction bs rule: rev_induct)
  case (snoc b bs)
  have "(256 * be_nat bs + unat b) div 256 = be_nat bs"
    by (simp add: div_add1_eq)
  moreover have "(of_nat ((256 * be_nat bs + unat b) mod 256) :: byte) = b"
    by simp
  ultimately show ?case using snoc by simp
qed simp

lemma be_nat_inject: "length xs = length ys \<Longrightarrow> be_nat xs = be_nat ys \<Longrightarrow> xs = ys"
  by (metis nat_be_be_nat)


section \<open>Words, bit by bit and arithmetically\<close>

text \<open>A statement about all bytes is a finite conjunction that evaluation decides.\<close>

lemma all_bytes: "(\<forall>b::byte. P b) \<longleftrightarrow> list_all (\<lambda>n. P (of_nat n)) [0..<256]"
proof -
  have "P b" if "\<forall>n<256. P (of_nat n)" for b
  proof -
    have "P (of_nat (unat b))" using that unat_byte_less by blast
    then show ?thesis by simp
  qed
  then show ?thesis by (auto simp: list_all_iff)
qed

lemma unat_2p_mod: "unat (2 ^ n :: 'a::len word) = 2 ^ n mod 2 ^ LENGTH('a)"
  by (metis of_nat_numeral of_nat_power unat_of_nat)

lemma unat_push_bit: "unat (push_bit n a) = (unat a * 2 ^ n) mod 2 ^ LENGTH('a)"
  for a :: "'a::len word"
  by (simp add: push_bit_eq_mult unat_word_ariths mod_mult_right_eq unat_2p_mod)

lemma or_eq_plus: "push_bit n a OR b = push_bit n a + b" if "unat b < 2 ^ n"
  for a b :: "'a::len word"
proof -
  have "\<not> bit b k" if "n \<le> k" for k
  proof -
    have "(2::nat) ^ n \<le> 2 ^ k" using that by simp
    with \<open>unat b < 2 ^ n\<close> have "unat b < 2 ^ k" by linarith
    then have "\<not> bit (unat b) k" by (simp add: bit_iff_odd)
    then show ?thesis by (simp add: bit_unsigned_iff)
  qed
  then have "push_bit n a AND b = 0"
    by (intro bit_eqI) (simp add: bit_and_iff bit_push_bit_iff)
  then show ?thesis by (simp add: disjunctive_add_eq_or)
qed

lemma unat_shift_or [byte_simps]:
  fixes a b :: "'a::len word"
  assumes "unat b < 2 ^ n" and "unat a * 2 ^ n + unat b < 2 ^ LENGTH('a)"
  shows "unat (push_bit n a OR b) = unat a * 2 ^ n + unat b"
  using assms by (simp add: or_eq_plus unat_word_ariths unat_push_bit)

lemma unat_and_mask: "unat (a AND mask n) = unat a mod 2 ^ n" for a :: "'a::len word"
  by (metis take_bit_eq_mask take_bit_eq_mod unsigned_take_bit_eq)

lemma unat_drop_bit: "unat (drop_bit n a) = unat a div 2 ^ n" for a :: "'a::len word"
  by (metis unat_drop_bit_eq drop_bit_eq_div)

lemma byte_and_7f [byte_simps]: "unat ((b::byte) AND 0x7f) = unat b mod 128"
  using unat_and_mask [of b 7] by (simp add: mask_eq_exp_minus_1)

lemma byte_and_80 [byte_simps]: "(b::byte) AND 0x80 = 0 \<longleftrightarrow> unat b < 128"
proof -
  have "list_all (\<lambda>n. ((of_nat n :: byte) AND 0x80 = 0) = (unat (of_nat n :: byte) < 128)) [0..<256]"
    by code_simp
  then show ?thesis
    using all_bytes [of "\<lambda>b. (b AND 0x80 = 0) = (unat b < 128)"] by blast
qed

lemma unat_ucast_up: "LENGTH('a) \<le> LENGTH('b) \<Longrightarrow> unat (ucast a :: 'b::len word) = unat a"
  for a :: "'a::len word"
  by (simp add: unsigned_ucast_eq take_bit_nat_eq_self order.strict_trans2 [OF unsigned_less])

lemma unat_ucast_down: "unat (ucast a :: 'b::len word) = unat a mod 2 ^ LENGTH('b)"
  for a :: "'a::len word"
  by (simp add: unsigned_ucast_eq take_bit_eq_mod)

lemma byte_eqI: "unat a = unat b \<Longrightarrow> a = b" for a b :: "'a::len word"
  by (simp add: word_unat_eq_iff)

section \<open>Lists\<close>

lemma take_append_exact [simp]: "take (length xs) (xs @ ys) = xs"
  by simp

lemma list_split_at: "n \<le> length xs \<Longrightarrow> \<exists>ys zs. xs = ys @ zs \<and> length ys = n"
  by (metis append_take_drop_id length_take min.absorb2)

end
