(* ===== verification/Mem.thy ===== *)
theory Mem
  imports Prelude
begin

text \<open>
  The allocation and C-string helpers of \<open>crypto/mem.c\<close>.  The C library's
  \<open>malloc\<close> is a parameter: it maps a request size to a fresh block of
  unspecified content, or to \<open>None\<close> when it fails.  A block is the list of its
  bytes and a null pointer is \<open>None\<close>.  Functions that walk a NUL-terminated
  string return \<open>None\<close> when they would read past the end of the object.
\<close>

section \<open>Allocation\<close>

type_synonym block = "byte list"
type_synonym malloc = "nat \<Rightarrow> block option"

text \<open>What the code relies on of \<open>malloc\<close>: a block it returns has the requested size.\<close>

definition malloc_ok :: "malloc \<Rightarrow> bool" where
  "malloc_ok m \<longleftrightarrow> (\<forall>n b. m n = Some b \<longrightarrow> length b = n)"

abbreviation (input) OPENSSL_MALLOC_PREFIX :: nat where
  "OPENSSL_MALLOC_PREFIX \<equiv> 8"

definition OPENSSL_malloc :: "malloc \<Rightarrow> nat \<Rightarrow> block option" where
  "OPENSSL_malloc m sz =
     (if size_add sz OPENSSL_MALLOC_PREFIX < sz then None
      else case m (size_add sz OPENSSL_MALLOC_PREFIX) of
        None \<Rightarrow> None
      | Some ptr \<Rightarrow> Some (drop OPENSSL_MALLOC_PREFIX ptr))"

definition OPENSSL_zalloc :: "malloc \<Rightarrow> nat \<Rightarrow> block option" where
  "OPENSSL_zalloc m sz =
     (case OPENSSL_malloc m sz of
        None \<Rightarrow> None
      | Some ret \<Rightarrow> Some (replicate sz 0))"

definition OPENSSL_calloc :: "malloc \<Rightarrow> nat \<Rightarrow> nat \<Rightarrow> block option" where
  "OPENSSL_calloc m num sz =
     (if sz \<noteq> 0 \<and> num > SIZE_MAX div sz then None
      else OPENSSL_zalloc m (size_mul num sz))"

definition OPENSSL_realloc :: "malloc \<Rightarrow> block option \<Rightarrow> nat \<Rightarrow> block option" where
  "OPENSSL_realloc m orig_ptr new_size =
     (case orig_ptr of
        None \<Rightarrow> OPENSSL_malloc m new_size
      | Some old \<Rightarrow>
          (case OPENSSL_malloc m new_size of
             None \<Rightarrow> None
           | Some ret \<Rightarrow>
               let to_copy = (if length old < new_size then length old else new_size)
               in Some (take to_copy old @ drop to_copy ret)))"

definition OPENSSL_memdup :: "malloc \<Rightarrow> block \<Rightarrow> block option" where
  "OPENSSL_memdup m data =
     (if length data = 0 then None
      else case OPENSSL_malloc m (length data) of
        None \<Rightarrow> None
      | Some ret \<Rightarrow> Some data)"

lemma OPENSSL_malloc_length:
  assumes "malloc_ok m" and "OPENSSL_malloc m n = Some b" and "n \<le> SIZE_MAX"
  shows "length b = n"
proof -
  have "\<not> size_add n 8 < n" using assms(2) by (auto simp: OPENSSL_malloc_def)
  then have eq: "size_add n 8 = n + 8" using assms(3) by (intro size_add_no_overflow) auto
  obtain p where "m (n + 8) = Some p" "b = drop 8 p"
    using assms(2) eq by (auto simp: OPENSSL_malloc_def split: if_splits option.splits)
  moreover have "length p = n + 8" using assms(1) \<open>m (n + 8) = Some p\<close> by (simp add: malloc_ok_def)
  ultimately show ?thesis by simp
qed

lemma OPENSSL_realloc_Some:
  assumes "malloc_ok m" and "OPENSSL_realloc m p n = Some b" and "n \<le> SIZE_MAX"
  shows "length b = n"
    and "\<And>old. p = Some old \<Longrightarrow> length old \<le> n \<Longrightarrow> take (length old) b = old"
  using assms OPENSSL_malloc_length [OF assms(1) _ assms(3)]
  by (auto simp: OPENSSL_realloc_def Let_def split: option.splits if_splits)

lemma OPENSSL_zalloc_zero: "OPENSSL_zalloc m n = Some b \<Longrightarrow> b = replicate n 0"
  by (auto simp: OPENSSL_zalloc_def split: option.splits)

lemma OPENSSL_memdup_eq: "OPENSSL_memdup m d = Some b \<Longrightarrow> b = d \<and> d \<noteq> []"
  by (auto simp: OPENSSL_memdup_def split: option.splits if_splits)

text \<open>Storing bytes into a buffer.\<close>

definition poke :: "block \<Rightarrow> nat \<Rightarrow> byte list \<Rightarrow> block" where
  "poke buf off data = take off buf @ data @ drop (off + length data) buf"

lemma length_poke [simp]: "off + length data \<le> length buf \<Longrightarrow> length (poke buf off data) = length buf"
  by (simp add: poke_def)

lemma take_poke: "off \<le> length buf \<Longrightarrow> off + length data = n \<Longrightarrow> take n (poke buf off data) = take off buf @ data"
  by (simp add: poke_def)

section \<open>Comparison and hashing\<close>

fun CRYPTO_memcmp_loop :: "byte \<Rightarrow> byte list \<Rightarrow> byte list \<Rightarrow> byte" where
  "CRYPTO_memcmp_loop x (a # as) (b # bs) = CRYPTO_memcmp_loop (x OR (a XOR b)) as bs"
| "CRYPTO_memcmp_loop x _ _ = x"

text \<open>Both arguments have \<open>len\<close> readable bytes; the loop stops after \<open>len\<close> of them.\<close>

definition CRYPTO_memcmp :: "byte list \<Rightarrow> byte list \<Rightarrow> nat \<Rightarrow> byte" where
  "CRYPTO_memcmp a b len = CRYPTO_memcmp_loop 0 (take len a) (take len b)"

definition OPENSSL_hash32 :: "byte list \<Rightarrow> uint32" where
  "OPENSSL_hash32 ptr = foldl (\<lambda>h c. (h XOR ucast c) * 16777619) 2166136261 ptr"

lemma CRYPTO_memcmp_loop_eq:
  "length as = length bs \<Longrightarrow> CRYPTO_memcmp_loop x as bs = 0 \<longleftrightarrow> x = 0 \<and> as = bs"
proof (induction x as bs rule: CRYPTO_memcmp_loop.induct)
  case (1 x a as b bs)
  have "x OR (a XOR b) = 0 \<longleftrightarrow> x = 0 \<and> a = b"
    by (metis or_eq_0_iff xor_self_eq bit.xor_left_self xor.comm_neutral)
  with 1 show ?case by auto
qed auto

end
