(* ===== verification/Reader.thy ===== *)
theory Reader
  imports Prelude
begin

text \<open>
  The interfaces of byte-string readers.  A reader takes the bytes that are left
  and returns a value, or \<open>None\<close> for the C return value 0, together with the
  bytes that are left afterwards.  The locale \<open>reader\<close> states what every reader
  of the library promises its clients, and \<open>codec\<close> what a reader and a matching
  writer promise together; the lemmas that parsers of sequences rest on are proved
  once, inside them.
\<close>

type_synonym cbs = "byte list"
type_synonym 'a parser = "cbs \<Rightarrow> 'a option \<times> cbs"

text \<open>Reading a whole byte string as a sequence of values.\<close>

inductive reads :: "'a parser \<Rightarrow> cbs \<Rightarrow> 'a list \<Rightarrow> bool" for get :: "'a parser" where
  reads_Nil: "reads get [] []"
| reads_Cons: "get s = (Some v, s') \<Longrightarrow> s \<noteq> [] \<Longrightarrow> reads get s' vs \<Longrightarrow> reads get s (v # vs)"

inductive_cases reads_NilE: "reads get [] vs"
inductive_cases reads_ConsE: "reads get s (v # vs)"
inductive_simps reads_Nil_iff: "reads get [] vs"
inductive_simps reads_empty_iff: "reads get s []"

text \<open>The same as a function; a reader that does not advance is given up on.\<close>

function read_all :: "'a parser \<Rightarrow> cbs \<Rightarrow> 'a list option" where
  "read_all get s =
     (if s = [] then Some []
      else case get s of
        (None, _) \<Rightarrow> None
      | (Some v, s') \<Rightarrow> if length s' < length s then map_option ((#) v) (read_all get s') else None)"
  by pat_completeness auto
termination
  by (relation "measure (\<lambda>(get, s). length s)") auto

declare read_all.simps [simp del]

lemma read_all_Nil [simp]: "read_all get [] = Some []"
  by (simp add: read_all.simps)

lemma read_all_Some:
  "get s = (Some v, s') \<Longrightarrow> length s' < length s \<Longrightarrow> read_all get s = map_option ((#) v) (read_all get s')"
  by (subst read_all.simps) auto

lemma read_all_None: "get s = (None, s') \<Longrightarrow> s \<noteq> [] \<Longrightarrow> read_all get s = None"
  by (subst read_all.simps) auto

lemma read_all_iff:
  assumes "\<And>s v s'. get s = (Some v, s') \<Longrightarrow> length s' < length s"
  shows "read_all get s = Some vs \<longleftrightarrow> reads get s vs"
proof
  show "reads get s vs \<Longrightarrow> read_all get s = Some vs"
    by (induction rule: reads.induct) (auto simp: read_all_Some assms)
  show "read_all get s = Some vs \<Longrightarrow> reads get s vs"
  proof (induction s arbitrary: vs rule: measure_induct_rule [of length])
    case (less s)
    show ?case
    proof (cases "s = []")
      case True
      then show ?thesis using less.prems by (simp add: reads_Nil)
    next
      case False
      obtain r s' where g: "get s = (r, s')" by fastforce
      then obtain v where v: "r = Some v" using less.prems False read_all_None [of get s] by (cases r) auto
      then obtain ws where "read_all get s' = Some ws" "vs = v # ws"
        using g less.prems read_all_Some [of get s v s'] assms by auto
      with less.IH [of s'] g v False assms show ?thesis by (auto intro: reads_Cons)
    qed
  qed
qed

locale reader =
  fixes get :: "'a parser"
  assumes get_suffix: "get s = (r, s') \<Longrightarrow> \<exists>p. s = p @ s'"
    and get_progress: "get s = (Some v, s') \<Longrightarrow> length s' < length s"
    and get_stable: "get s = (Some v, s') \<Longrightarrow> get (s @ t) = (Some v, s' @ t)"
begin

lemma get_empty: "fst (get []) = None"
proof (cases "get []")
  case (Pair r s')
  then show ?thesis using get_progress [of "[]"] by (cases r) fastforce+
qed

text \<open>What is read off the front does not depend on what follows it.\<close>

lemma get_consumed:
  assumes "get s = (Some v, s')"
  shows "\<exists>p. p \<noteq> [] \<and> s = p @ s' \<and> length s' < length s"
  using get_suffix [OF assms] get_progress [OF assms] by auto

text \<open>No complete encoding is a proper prefix of another one.\<close>

lemma prefix_free:
  assumes "get p = (Some v, [])" and "get (p @ t) = (Some w, [])"
  shows "t = [] \<and> v = w"
  using get_stable [OF assms(1), of t] assms(2) by simp

lemma reads_unique: "reads get s vs \<Longrightarrow> reads get s ws \<Longrightarrow> vs = ws"
proof (induction arbitrary: ws rule: reads.induct)
  case (reads_Cons s v s' vs)
  from reads_Cons.prems reads_Cons.hyps(2)
  obtain w t us where ws: "ws = w # us" "get s = (Some w, t)" "reads get t us"
    by (cases rule: reads.cases) blast+
  with reads_Cons.hyps(1) have "w = v" and "t = s'" by simp_all
  with ws reads_Cons.IH show ?case by simp
qed (blast elim: reads_NilE)

lemma reads_append:
  "reads get s vs \<Longrightarrow> reads get t ws \<Longrightarrow> reads get (s @ t) (vs @ ws)"
proof (induction rule: reads.induct)
  case (reads_Cons s v s' vs)
  then show ?case using get_stable [OF reads_Cons.hyps(1), of t] by (auto intro: reads.reads_Cons)
qed simp

lemma reads_length: "reads get s vs \<Longrightarrow> length vs \<le> length s"
  by (induction rule: reads.induct) (auto dest: get_progress)

end

locale codec =
  fixes get :: "'a parser" and put :: "'a \<Rightarrow> cbs" and valid :: "'a \<Rightarrow> bool"
  assumes get_put: "valid v \<Longrightarrow> get (put v @ t) = (Some v, t)"
    and put_get: "get s = (Some v, s') \<Longrightarrow> valid v \<and> s = put v @ s'"
    and put_nonempty: "valid v \<Longrightarrow> put v \<noteq> []"
    and get_fail_suffix: "get s = (None, s') \<Longrightarrow> \<exists>p. s = p @ s'"
begin

lemma put_inject: "valid v \<Longrightarrow> valid w \<Longrightarrow> put v = put w \<Longrightarrow> v = w"
  by (metis get_put option.inject prod.inject)

lemma get_iff: "get s = (Some v, s') \<longleftrightarrow> valid v \<and> s = put v @ s'"
  using get_put put_get by blast

lemma put_prefix_free: "valid v \<Longrightarrow> valid w \<Longrightarrow> put v @ s = put w @ t \<Longrightarrow> v = w \<and> s = t"
  by (metis get_put option.inject prod.inject)

lemma reads_concat: "list_all valid vs \<Longrightarrow> reads get (concat (map put vs)) vs"
proof (induction vs)
  case (Cons v vs)
  from Cons.prems have "valid v" and "reads get (concat (map put vs)) vs"
    using Cons.IH by simp_all
  then show ?case
    using reads.reads_Cons [of get "put v @ concat (map put vs)" v] get_put [of v] put_nonempty [of v]
    by simp
qed (simp add: reads.reads_Nil)

lemma reads_imp_concat: "reads get s vs \<Longrightarrow> list_all valid vs \<and> s = concat (map put vs)"
  by (induction rule: reads.induct) (auto dest: put_get)

lemma reads_iff: "reads get s vs \<longleftrightarrow> list_all valid vs \<and> s = concat (map put vs)"
  using reads_concat reads_imp_concat by blast

end

text \<open>A codec's reader keeps the reader's contract.\<close>

sublocale codec \<subseteq> reader get
proof
  fix s r s' assume "get s = (r, s')"
  then show "\<exists>p. s = p @ s'"
    by (cases r) (auto dest: put_get get_fail_suffix)
next
  fix s v s' assume "get s = (Some v, s')"
  then show "length s' < length s" using put_get put_nonempty by fastforce
next
  fix s v s' t assume "get s = (Some v, s')"
  then show "get (s @ t) = (Some v, s' @ t)" using put_get get_put by fastforce
qed

end
