(* ===== verification/Cbs.thy ===== *)
theory Cbs
  imports Reader Mem
begin

text \<open>
  The byte-string reader of \<open>crypto/bytestring/cbs.c\<close>: bounded reads of
  fixed-width integers, of length-prefixed strings and of decimal numbers.  A
  \<open>CBS\<close>, a pointer with a length, is the list of the bytes it spans; a function
  that advances it returns what is left, also when it fails half-way.  Output
  parameters are returned on success only.
\<close>

section \<open>Raw reads\<close>

definition cbs_get :: "cbs \<Rightarrow> nat \<Rightarrow> byte list option \<times> cbs" where
  "cbs_get c n = (if length c < n then (None, c) else (Some (take n c), drop n c))"

definition CBS_skip :: "cbs \<Rightarrow> nat \<Rightarrow> bool \<times> cbs" where
  "CBS_skip c len = (case cbs_get c len of (None, c') \<Rightarrow> (False, c') | (Some _, c') \<Rightarrow> (True, c'))"

text \<open>The result, the new \<open>*out_ptr\<close> and the new \<open>*out_len\<close>.\<close>

definition CBS_stow :: "malloc \<Rightarrow> cbs \<Rightarrow> bool \<times> block option \<times> nat" where
  "CBS_stow m c =
     (if length c = 0 then (True, None, 0)
      else case OPENSSL_memdup m c of
        None \<Rightarrow> (False, None, 0)
      | Some p \<Rightarrow> (True, Some p, length c))"

fun OPENSSL_memchr :: "byte list \<Rightarrow> byte \<Rightarrow> nat option" where
  "OPENSSL_memchr [] c = None"
| "OPENSSL_memchr (b # bs) c =
     (if b = c then Some 0 else map_option Suc (OPENSSL_memchr bs c))"

definition CBS_contains_zero_byte :: "cbs \<Rightarrow> bool" where
  "CBS_contains_zero_byte c \<longleftrightarrow> OPENSSL_memchr c 0 \<noteq> None"

definition CBS_mem_equal :: "cbs \<Rightarrow> byte list \<Rightarrow> bool" where
  "CBS_mem_equal c data =
     (if length data \<noteq> length c then False else CRYPTO_memcmp c data (length data) = 0)"

section \<open>Fixed-width integers\<close>

fun cbs_get_u_loop :: "uint64 \<Rightarrow> byte list \<Rightarrow> uint64" where
  "cbs_get_u_loop result [] = result"
| "cbs_get_u_loop result (b # bs) = cbs_get_u_loop (push_bit 8 result OR ucast b) bs"

definition cbs_get_u :: "nat \<Rightarrow> cbs \<Rightarrow> uint64 option \<times> cbs" where
  "cbs_get_u len c =
     (case cbs_get c len of
        (None, c') \<Rightarrow> (None, c')
      | (Some data, c') \<Rightarrow> (Some (cbs_get_u_loop 0 data), c'))"

definition CBS_get_u8 :: "cbs \<Rightarrow> byte option \<times> cbs" where
  "CBS_get_u8 c =
     (case cbs_get c 1 of (None, c') \<Rightarrow> (None, c') | (Some v, c') \<Rightarrow> (Some (hd v), c'))"

definition CBS_get_u16 :: "cbs \<Rightarrow> uint16 option \<times> cbs" where
  "CBS_get_u16 c =
     (case cbs_get_u 2 c of (None, c') \<Rightarrow> (None, c') | (Some v, c') \<Rightarrow> (Some (ucast v), c'))"

definition CRYPTO_bswap2 :: "uint16 \<Rightarrow> uint16" where
  "CRYPTO_bswap2 x = drop_bit 8 x OR push_bit 8 x"

definition CRYPTO_bswap4 :: "uint32 \<Rightarrow> uint32" where
  "CRYPTO_bswap4 x =
     (let x = drop_bit 16 x OR push_bit 16 x
      in drop_bit 8 (x AND 0xff00ff00) OR push_bit 8 (x AND 0x00ff00ff))"

definition CRYPTO_bswap8 :: "uint64 \<Rightarrow> uint64" where
  "CRYPTO_bswap8 x =
     ucast (CRYPTO_bswap4 (ucast (drop_bit 32 x))) OR push_bit 32 (ucast (CRYPTO_bswap4 (ucast x)))"

definition CBS_get_u16le :: "cbs \<Rightarrow> uint16 option \<times> cbs" where
  "CBS_get_u16le c =
     (case CBS_get_u16 c of
        (None, c') \<Rightarrow> (None, c')
      | (Some v, c') \<Rightarrow> (Some (CRYPTO_bswap2 v), c'))"

definition CBS_get_u24 :: "cbs \<Rightarrow> uint32 option \<times> cbs" where
  "CBS_get_u24 c =
     (case cbs_get_u 3 c of (None, c') \<Rightarrow> (None, c') | (Some v, c') \<Rightarrow> (Some (ucast v), c'))"

definition CBS_get_u32 :: "cbs \<Rightarrow> uint32 option \<times> cbs" where
  "CBS_get_u32 c =
     (case cbs_get_u 4 c of (None, c') \<Rightarrow> (None, c') | (Some v, c') \<Rightarrow> (Some (ucast v), c'))"

definition CBS_get_u32le :: "cbs \<Rightarrow> uint32 option \<times> cbs" where
  "CBS_get_u32le c =
     (case CBS_get_u32 c of
        (None, c') \<Rightarrow> (None, c')
      | (Some v, c') \<Rightarrow> (Some (CRYPTO_bswap4 v), c'))"

definition CBS_get_u64 :: "cbs \<Rightarrow> uint64 option \<times> cbs" where
  "CBS_get_u64 c = cbs_get_u 8 c"

definition CBS_get_u64le :: "cbs \<Rightarrow> uint64 option \<times> cbs" where
  "CBS_get_u64le c =
     (case cbs_get_u 8 c of
        (None, c') \<Rightarrow> (None, c')
      | (Some v, c') \<Rightarrow> (Some (CRYPTO_bswap8 v), c'))"

definition CBS_get_last_u8 :: "cbs \<Rightarrow> byte option \<times> cbs" where
  "CBS_get_last_u8 c = (if length c = 0 then (None, c) else (Some (c ! (length c - 1)), butlast c))"

section \<open>Byte strings\<close>

definition CBS_get_bytes :: "cbs \<Rightarrow> nat \<Rightarrow> cbs option \<times> cbs" where
  "CBS_get_bytes c len = (case cbs_get c len of (None, c') \<Rightarrow> (None, c') | (Some v, c') \<Rightarrow> (Some v, c'))"

text \<open>The bytes of the destination buffer after the copy.\<close>

definition CBS_copy_bytes :: "cbs \<Rightarrow> block \<Rightarrow> nat \<Rightarrow> block option \<times> cbs" where
  "CBS_copy_bytes c out len =
     (case cbs_get c len of (None, c') \<Rightarrow> (None, c') | (Some v, c') \<Rightarrow> (Some (v @ drop len out), c'))"

definition cbs_get_length_prefixed :: "nat \<Rightarrow> cbs \<Rightarrow> cbs option \<times> cbs" where
  "cbs_get_length_prefixed len_len c =
     (case cbs_get_u len_len c of
        (None, c') \<Rightarrow> (None, c')
      | (Some len, c') \<Rightarrow> CBS_get_bytes c' (unat len))"

definition CBS_get_u8_length_prefixed :: "cbs \<Rightarrow> cbs option \<times> cbs" where
  "CBS_get_u8_length_prefixed c = cbs_get_length_prefixed 1 c"

definition CBS_get_u16_length_prefixed :: "cbs \<Rightarrow> cbs option \<times> cbs" where
  "CBS_get_u16_length_prefixed c = cbs_get_length_prefixed 2 c"

definition CBS_get_u24_length_prefixed :: "cbs \<Rightarrow> cbs option \<times> cbs" where
  "CBS_get_u24_length_prefixed c = cbs_get_length_prefixed 3 c"

definition CBS_get_until_first :: "cbs \<Rightarrow> byte \<Rightarrow> cbs option \<times> cbs" where
  "CBS_get_until_first c b =
     (case OPENSSL_memchr c b of None \<Rightarrow> (None, c) | Some split \<Rightarrow> CBS_get_bytes c split)"

section \<open>Decimal numbers\<close>

definition OPENSSL_isdigit :: "byte \<Rightarrow> bool" where
  "OPENSSL_isdigit c \<longleftrightarrow> c \<ge> 0x30 \<and> c \<le> 0x39"

abbreviation (input) UINT64_MAX :: uint64 where
  "UINT64_MAX \<equiv> 0xffffffffffffffff"

fun CBS_get_u64_decimal_loop :: "uint64 \<Rightarrow> bool \<Rightarrow> cbs \<Rightarrow> uint64 option \<times> cbs" where
  "CBS_get_u64_decimal_loop v seen_digit [] = (if seen_digit then Some v else None, [])"
| "CBS_get_u64_decimal_loop v seen_digit (c # cs) =
     (if \<not> OPENSSL_isdigit c then (if seen_digit then Some v else None, c # cs)
      else if v = 0 \<and> seen_digit \<or> v > UINT64_MAX div 10
              \<or> v * 10 > UINT64_MAX - ucast (c - 0x30)
      then (None, cs)
      else CBS_get_u64_decimal_loop (v * 10 + ucast (c - 0x30)) True cs)"

definition CBS_get_u64_decimal :: "cbs \<Rightarrow> uint64 option \<times> cbs" where
  "CBS_get_u64_decimal c = CBS_get_u64_decimal_loop 0 False c"


section \<open>Behaviour of the raw reads\<close>

lemma cbs_get_append [simp]: "length p = n \<Longrightarrow> cbs_get (p @ t) n = (Some p, t)"
  by (simp add: cbs_get_def)

lemma cbs_get_Some_iff:
  "cbs_get c n = (Some p, c') \<longleftrightarrow> c = p @ c' \<and> length p = n"
  by (auto simp: cbs_get_def)

lemma cbs_get_None_iff: "cbs_get c n = (None, c') \<longleftrightarrow> length c < n \<and> c' = c"
  by (auto simp: cbs_get_def)

lemma CBS_get_u8_simps [simp, reader_simps]:
  "CBS_get_u8 [] = (None, [])"
  "CBS_get_u8 (b # bs) = (Some b, bs)"
  by (simp_all add: CBS_get_u8_def cbs_get_def)

lemma CBS_get_bytes_eq [reader_simps]:
  "CBS_get_bytes c n = (if length c < n then (None, c) else (Some (take n c), drop n c))"
  by (simp add: CBS_get_bytes_def cbs_get_def)

lemma CBS_skip_eq [reader_simps]:
  "CBS_skip c n = (if length c < n then (False, c) else (True, drop n c))"
  by (simp add: CBS_skip_def cbs_get_def)

lemma CBS_get_last_u8_snoc [simp]: "CBS_get_last_u8 (c @ [b]) = (Some b, c)"
  by (simp add: CBS_get_last_u8_def)

lemma OPENSSL_memchr_Some:
  "OPENSSL_memchr s c = Some n \<longleftrightarrow> n < length s \<and> s ! n = c \<and> c \<notin> set (take n s)"
proof (induction s arbitrary: n)
  case (Cons b s)
  then show ?case by (cases n) auto
qed simp

lemma OPENSSL_memchr_None: "OPENSSL_memchr s c = None \<longleftrightarrow> c \<notin> set s"
  by (induction s) auto

section \<open>Fixed-width integers as codecs\<close>

lemma unat_cbs_get_u_loop:
  "unat r * 256 ^ length bs + be_nat bs < 18446744073709551616 \<Longrightarrow>
   unat (cbs_get_u_loop r bs) = unat r * 256 ^ length bs + be_nat bs"
proof (induction bs arbitrary: r)
  case (Cons b bs)
  let ?r = "push_bit 8 r OR ucast b"
  have "unat r * 256 + unat b \<le> (unat r * 256 + unat b) * 256 ^ length bs"
    by simp
  also have "\<dots> < 18446744073709551616"
    using Cons.prems by (simp add: be_nat_Cons algebra_simps)
  finally have "unat ?r = unat r * 256 + unat b"
    using unat_shift_or [of "ucast b" 8 r] by (simp add: unat_ucast_up)
  with Cons show ?case by (simp add: be_nat_Cons algebra_simps)
qed simp

lemma be_nat_le8: "length bs \<le> 8 \<Longrightarrow> be_nat bs < 18446744073709551616"
proof -
  assume "length bs \<le> 8"
  then have "(256::nat) ^ length bs \<le> 256 ^ 8" by (intro power_increasing) auto
  with be_nat_less [of bs] show ?thesis by simp
qed

lemma unat_cbs_get_u:
  "length bs \<le> 8 \<Longrightarrow> unat (cbs_get_u_loop 0 bs) = be_nat bs"
  using unat_cbs_get_u_loop [of 0 bs] be_nat_le8 by simp

lemma cbs_get_u_eq [reader_simps]:
  "cbs_get_u n c =
     (if length c < n then (None, c) else (Some (cbs_get_u_loop 0 (take n c)), drop n c))"
  by (simp add: cbs_get_u_def cbs_get_def)

lemma cbs_get_u_Some_iff:
  assumes "n \<le> 8"
  shows "cbs_get_u n c = (Some v, c') \<longleftrightarrow> unat v < 256 ^ n \<and> c = nat_be n (unat v) @ c'"
proof
  assume "cbs_get_u n c = (Some v, c')"
  then have l: "n \<le> length c" and v: "v = cbs_get_u_loop 0 (take n c)" and c': "c' = drop n c"
    by (auto simp: cbs_get_u_eq split: if_splits)
  have u: "unat v = be_nat (take n c)" using v l assms by (simp add: unat_cbs_get_u)
  then have "unat v < 256 ^ n" using be_nat_less [of "take n c"] l by simp
  moreover have "nat_be n (unat v) = take n c"
    using u l nat_be_be_nat [of "take n c"] by simp
  ultimately show "unat v < 256 ^ n \<and> c = nat_be n (unat v) @ c'" by (simp add: c')
next
  assume r: "unat v < 256 ^ n \<and> c = nat_be n (unat v) @ c'"
  have "cbs_get_u_loop 0 (nat_be n (unat v)) = v"
    using r assms by (intro byte_eqI) (simp add: unat_cbs_get_u be_nat_nat_be)
  then show "cbs_get_u n c = (Some v, c')" using r by (simp add: cbs_get_u_eq)
qed

lemma cbs_get_u_fail: "cbs_get_u n c = (None, c') \<Longrightarrow> c' = c \<and> length c < n"
  by (auto simp: cbs_get_u_eq split: if_splits)

interpretation u8: codec CBS_get_u8 "\<lambda>b. [b]" "\<lambda>_. True"
proof
  fix s s' assume "CBS_get_u8 s = (None, s')"
  then show "\<exists>p. s = p @ s'" by (cases s) auto
next
  fix s v s' assume "CBS_get_u8 s = (Some v, s')"
  then show "True \<and> s = [v] @ s'" by (cases s) auto
qed auto

text \<open>A truncated big-endian read is a codec for the values of its width.\<close>

lemma be_codec:
  assumes get: "\<And>c. get c = (case cbs_get_u n c of
                      (None, c') \<Rightarrow> (None, c') | (Some v, c') \<Rightarrow> (Some (ucast v :: 'a::len word), c'))"
    and n: "0 < n" "n \<le> 8" and len: "8 * n \<le> LENGTH('a)" "LENGTH('a) \<le> 64"
  shows "codec get (\<lambda>v. nat_be n (unat v)) (\<lambda>v. unat v < 256 ^ n)"
proof
  have p: "(256::nat) ^ n = 2 ^ (8 * n)" by (simp add: power_mult)
  have dn: "unat (ucast v :: 'a word) = unat v" if "unat v < 256 ^ n" for v :: uint64
  proof -
    have "(2::nat) ^ (8 * n) \<le> 2 ^ LENGTH('a)" using len by (intro power_increasing) auto
    with that p have "unat v < 2 ^ LENGTH('a)" by linarith
    then show ?thesis by (simp add: unat_ucast_down)
  qed
  {
    fix v :: "'a word" and t assume v: "unat v < 256 ^ n"
    have up: "unat (ucast v :: uint64) = unat v" using len by (simp add: unat_ucast_up)
    then have "cbs_get_u n (nat_be n (unat v) @ t) = (Some (ucast v), t)"
      using v n by (simp add: cbs_get_u_Some_iff)
    moreover have "(ucast (ucast v :: uint64) :: 'a word) = v"
      using up by (intro byte_eqI) (simp add: unat_ucast_down)
    ultimately show "get (nat_be n (unat v) @ t) = (Some v, t)" by (simp add: get)
  next
    fix s v s' assume "get s = (Some v, s')"
    then obtain w where w: "cbs_get_u n s = (Some w, s')" "v = ucast w"
      by (auto simp: get split: prod.splits option.splits)
    then show "unat v < 256 ^ n \<and> s = nat_be n (unat v) @ s'"
      using n dn by (auto simp: cbs_get_u_Some_iff)
  next
    fix v :: "'a word" show "nat_be n (unat v) \<noteq> []"
      using n length_nat_be [of n "unat v"] by (metis list.size(3) less_numeral_extra(3))
  next
    fix s s' assume "get s = (None, s')"
    then show "\<exists>p. s = p @ s'"
      by (auto simp: get dest: cbs_get_u_fail split: prod.splits option.splits)
  }
qed

interpretation u16: codec CBS_get_u16 "\<lambda>v. nat_be 2 (unat v)" "\<lambda>v. unat v < 256 ^ 2"
  by (rule be_codec) (simp_all add: CBS_get_u16_def)

interpretation u24: codec CBS_get_u24 "\<lambda>v. nat_be 3 (unat v)" "\<lambda>v. unat v < 256 ^ 3"
  by (rule be_codec) (simp_all add: CBS_get_u24_def)

interpretation u32: codec CBS_get_u32 "\<lambda>v. nat_be 4 (unat v)" "\<lambda>v. unat v < 256 ^ 4"
  by (rule be_codec) (simp_all add: CBS_get_u32_def)

interpretation u64: codec CBS_get_u64 "\<lambda>v. nat_be 8 (unat v)" "\<lambda>v. unat v < 256 ^ 8"
  by (rule be_codec) (auto simp: CBS_get_u64_def split: prod.splits option.splits)

text \<open>Length-prefixed strings.\<close>

lemma length_prefixed_codec:
  assumes "0 < n" "n \<le> 3"
  shows "codec (cbs_get_length_prefixed n) (\<lambda>s. nat_be n (length s) @ s) (\<lambda>s. length s < 256 ^ n)"
proof
  have p: "(256::nat) ^ n \<le> 256 ^ 3" using assms by (intro power_increasing) auto
  fix v t :: cbs assume v: "length v < 256 ^ n"
  then have l: "length v < 18446744073709551616" using p by simp
  then have "unat (of_nat (length v) :: uint64) = length v" by (simp add: unat_of_nat)
  then have "cbs_get_u n ((nat_be n (length v) @ v) @ t) = (Some (of_nat (length v)), v @ t)"
    using v assms by (simp add: cbs_get_u_Some_iff)
  then show "cbs_get_length_prefixed n ((nat_be n (length v) @ v) @ t) = (Some v, t)"
    using l by (simp add: cbs_get_length_prefixed_def CBS_get_bytes_eq unat_of_nat)
next
  fix s v s' assume "cbs_get_length_prefixed n s = (Some v, s')"
  then obtain w c where "cbs_get_u n s = (Some w, c)" "c = v @ s'" "length v = unat w"
    by (auto simp: cbs_get_length_prefixed_def CBS_get_bytes_eq split: prod.splits option.splits if_splits)
  then show "length v < 256 ^ n \<and> s = (nat_be n (length v) @ v) @ s'"
    using assms by (auto simp: cbs_get_u_Some_iff)
next
  fix v :: cbs show "nat_be n (length v) @ v \<noteq> []"
    using assms length_nat_be [of n "length v"] by (cases "nat_be n (length v)") auto
next
  fix s s' assume "cbs_get_length_prefixed n s = (None, s')"
  then show "\<exists>p. s = p @ s'"
    using assms by (auto simp: cbs_get_length_prefixed_def CBS_get_bytes_eq cbs_get_u_Some_iff
        dest: cbs_get_u_fail split: prod.splits option.splits if_splits)
qed

interpretation u8_prefixed: codec CBS_get_u8_length_prefixed
    "\<lambda>s. nat_be 1 (length s) @ s" "\<lambda>s. length s < 256 ^ 1"
  using length_prefixed_codec [of 1] by (simp add: CBS_get_u8_length_prefixed_def [abs_def])

interpretation u16_prefixed: codec CBS_get_u16_length_prefixed
    "\<lambda>s. nat_be 2 (length s) @ s" "\<lambda>s. length s < 256 ^ 2"
  using length_prefixed_codec [of 2] by (simp add: CBS_get_u16_length_prefixed_def [abs_def])

interpretation u24_prefixed: codec CBS_get_u24_length_prefixed
    "\<lambda>s. nat_be 3 (length s) @ s" "\<lambda>s. length s < 256 ^ 3"
  using length_prefixed_codec [of 3] by (simp add: CBS_get_u24_length_prefixed_def [abs_def])


section \<open>Decimal numbers\<close>

text \<open>The digits the C library prints for \<open>"%" PRIu64\<close>.\<close>

fun dec_digits :: "nat \<Rightarrow> byte list" where
  "dec_digits n =
     (if n < 10 then [0x30 + of_nat n] else dec_digits (n div 10) @ [0x30 + of_nat (n mod 10)])"

declare dec_digits.simps [simp del]

lemma dec_digits_small: "n < 10 \<Longrightarrow> dec_digits n = [0x30 + of_nat n]"
  by (simp add: dec_digits.simps)

lemma dec_digits_snoc: "0 < n \<Longrightarrow> d < 10 \<Longrightarrow> dec_digits (10 * n + d) = dec_digits n @ [0x30 + of_nat d]"
  by (subst dec_digits.simps) simp

lemma dec_digits_nonempty [simp]: "dec_digits n \<noteq> []"
  by (subst dec_digits.simps) simp

lemma isdigit_unat: "OPENSSL_isdigit c \<longleftrightarrow> 48 \<le> unat c \<and> unat c \<le> 57"
  by (simp add: OPENSSL_isdigit_def word_le_nat_alt)

lemma digit_value:
  assumes "OPENSSL_isdigit c"
  shows "unat (c - 0x30) = unat c - 48" and "unat (c - 0x30) < 10"
    and "c = 0x30 + of_nat (unat (c - 0x30))"
proof -
  have r: "48 \<le> unat c" "unat c \<le> 57" using assms by (simp_all add: isdigit_unat)
  then show u: "unat (c - 0x30) = unat c - 48"
    by (simp add: unat_sub word_le_nat_alt)
  with r show "unat (c - 0x30) < 10" by simp
  show "c = 0x30 + of_nat (unat (c - 0x30))" by simp
qed

lemma isdigit_digit: "d < 10 \<Longrightarrow> OPENSSL_isdigit (0x30 + of_nat d)"
  by (simp add: isdigit_unat unat_word_ariths)

lemma dec_digits_isdigit: "c \<in> set (dec_digits n) \<Longrightarrow> OPENSSL_isdigit c"
proof (induction n rule: dec_digits.induct)
  case (1 n)
  then show ?case
    by (subst (asm) dec_digits.simps) (auto simp: isdigit_digit split: if_splits)
qed

text \<open>The overflow checks of the loop are exact.\<close>

lemma decimal_step_guard:
  fixes v :: uint64 and c :: byte
  assumes "OPENSSL_isdigit c"
  shows "(v > UINT64_MAX div 10 \<or> v * 10 > UINT64_MAX - ucast (c - 0x30)) \<longleftrightarrow>
           18446744073709551615 < 10 * unat v + unat (c - 0x30)"
proof -
  let ?d = "unat (c - 0x30)"
  have d: "?d < 10" and u: "unat (ucast (c - 0x30) :: uint64) = ?d"
    using digit_value [OF assms] by (simp_all add: unat_ucast_up)
  have sub: "unat (UINT64_MAX - ucast (c - 0x30)) = 18446744073709551615 - ?d"
    using d u by (subst unat_sub) (auto simp: word_le_nat_alt)
  show ?thesis
  proof (cases "unat v \<le> 1844674407370955161")
    case True
    then have "unat (v * 10) = 10 * unat v"
      by (subst unat_word_ariths) (simp add: mult.commute)
    with True d sub show ?thesis
      by (auto simp: word_less_nat_alt unat_div)
  next
    case False
    then show ?thesis by (auto simp: word_less_nat_alt unat_div)
  qed
qed

lemma decimal_step_value:
  fixes v :: uint64
  assumes "OPENSSL_isdigit c" and "10 * unat v + unat (c - 0x30) \<le> 18446744073709551615"
  shows "unat (v * 10 + ucast (c - 0x30)) = 10 * unat v + unat (c - 0x30)"
  using assms(2) by (simp add: unat_word_ariths unat_ucast_up mod_simps mult.commute)

lemma decimal_loop_step:
  assumes "OPENSSL_isdigit c"
  shows "CBS_get_u64_decimal_loop v seen (c # cs) =
     (if v = 0 \<and> seen \<or> 18446744073709551615 < 10 * unat v + unat (c - 0x30) then (None, cs)
      else CBS_get_u64_decimal_loop (v * 10 + ucast (c - 0x30)) True cs)"
  using assms decimal_step_guard [OF assms, of v] by simp

declare CBS_get_u64_decimal_loop.simps [simp del]

lemma decimal_loop_stop:
  assumes "cs = [] \<or> \<not> OPENSSL_isdigit (hd cs)"
  shows "CBS_get_u64_decimal_loop v seen cs = (if seen then Some v else None, cs)"
  using assms by (cases cs) (simp_all add: CBS_get_u64_decimal_loop.simps)

lemma decimal_loop_digits:
  "n \<le> 18446744073709551615 \<Longrightarrow>
   CBS_get_u64_decimal_loop 0 False (dec_digits n @ t) = CBS_get_u64_decimal_loop (of_nat n) True t"
proof (induction n arbitrary: t rule: dec_digits.induct)
  case (1 n)
  let ?c = "0x30 + of_nat (n mod 10) :: byte"
  have dig: "OPENSSL_isdigit ?c" by (simp add: isdigit_digit)
  have d: "unat (?c - 0x30) = n mod 10" by simp
  show ?case
  proof (cases "n < 10")
    case True
    then have "(ucast (?c - 0x30) :: uint64) = of_nat n"
      by (intro byte_eqI) (simp add: unat_ucast_up unat_of_nat)
    with True dig d show ?thesis by (simp add: dec_digits_small decimal_loop_step)
  next
    case False
    have v: "unat (of_nat (n div 10) :: uint64) = n div 10"
      using 1(2) by (simp add: unat_of_nat)
    have "(of_nat (n div 10) :: uint64) \<noteq> 0"
      using False v by (metis div_eq_0_iff unat_0 zero_neq_numeral)
    moreover have "10 * (n div 10) + n mod 10 = n" by simp
    moreover have "(of_nat (n div 10) * 10 + ucast (?c - 0x30) :: uint64) = of_nat n"
      using decimal_step_value [OF dig, of "of_nat (n div 10)"] v d 1(2)
      by (intro byte_eqI) (simp add: unat_of_nat)
    moreover have "dec_digits n = dec_digits (n div 10) @ [?c]"
      using False by (simp add: dec_digits.simps [of n])
    ultimately show ?thesis
      using 1 False dig d v by (simp add: decimal_loop_step)
  qed
qed

lemma decimal_loop_Some:
  "CBS_get_u64_decimal_loop v seen s = (Some w, s') \<Longrightarrow> (\<not> seen \<Longrightarrow> v = 0) \<Longrightarrow>
   \<exists>ds. s = ds @ s' \<and> (if seen then dec_digits (unat v) else []) @ ds = dec_digits (unat w)
        \<and> (s' = [] \<or> \<not> OPENSSL_isdigit (hd s'))"
proof (induction s arbitrary: v seen)
  case Nil
  then show ?case by (auto simp: CBS_get_u64_decimal_loop.simps split: if_splits)
next
  case (Cons c s)
  show ?case
  proof (cases "OPENSSL_isdigit c")
    case False
    with Cons.prems show ?thesis by (auto simp: CBS_get_u64_decimal_loop.simps split: if_splits)
  next
    case True
    let ?v = "v * 10 + ucast (c - 0x30)"
    have ok: "\<not> (v = 0 \<and> seen)" "10 * unat v + unat (c - 0x30) \<le> 18446744073709551615"
      and rec: "CBS_get_u64_decimal_loop ?v True s = (Some w, s')"
      using Cons.prems(1) True by (auto simp: decimal_loop_step split: if_splits)
    have val: "unat ?v = 10 * unat v + unat (c - 0x30)"
      using decimal_step_value [OF True ok(2)] .
    have "dec_digits (unat ?v) = (if seen then dec_digits (unat v) else []) @ [c]"
      using val ok(1) Cons.prems(2) digit_value [OF True]
        dec_digits_snoc [of "unat v" "unat (c - 0x30)"]
      by (cases seen) (simp_all add: dec_digits_small unat_gt_0)
    with Cons.IH [OF rec] show ?thesis by auto
  qed
qed

text \<open>
  The decimal reader is exact: it accepts precisely the canonical decimal notation
  of a 64-bit number that is not followed by another digit.
\<close>

lemma CBS_get_u64_decimal_iff:
  "CBS_get_u64_decimal s = (Some w, s') \<longleftrightarrow>
     s = dec_digits (unat w) @ s' \<and> (s' = [] \<or> \<not> OPENSSL_isdigit (hd s'))"
proof
  assume "CBS_get_u64_decimal s = (Some w, s')"
  then show "s = dec_digits (unat w) @ s' \<and> (s' = [] \<or> \<not> OPENSSL_isdigit (hd s'))"
    unfolding CBS_get_u64_decimal_def using decimal_loop_Some [of 0 False s w s'] by auto
next
  assume r: "s = dec_digits (unat w) @ s' \<and> (s' = [] \<or> \<not> OPENSSL_isdigit (hd s'))"
  have "unat w \<le> 18446744073709551615"
    using unsigned_less [of w, where 'a = nat] by simp
  with r show "CBS_get_u64_decimal s = (Some w, s')"
    by (simp add: CBS_get_u64_decimal_def decimal_loop_digits decimal_loop_stop)
qed

lemma decimal_loop_suffix:
  "CBS_get_u64_decimal_loop v seen s = (r, s') \<Longrightarrow> \<exists>p. s = p @ s'"
proof (induction s arbitrary: v seen)
  case (Cons c s)
  then show ?case
    by (cases "OPENSSL_isdigit c")
      (fastforce simp: decimal_loop_step decimal_loop_stop split: if_splits)+
qed (simp add: CBS_get_u64_decimal_loop.simps)

section \<open>Properties\<close>

text \<open>The decimal reader is exact: it returns \<open>w\<close> precisely when the input starts with the
  decimal notation of \<open>w\<close>, without leading zeros, ended by the end of the input or by a byte
  that is not a digit; a number of more than 64 bits is refused.\<close>

theorem CBS_get_u64_decimal_exact:
  "CBS_get_u64_decimal s = (Some w, s') \<longleftrightarrow>
     s = dec_digits (unat w) @ s' \<and> (s' = [] \<or> \<not> OPENSSL_isdigit (hd s'))"
  by (rule CBS_get_u64_decimal_iff)

theorem CBS_get_u64_decimal_exact_witness:
  "CBS_get_u64_decimal [0x34, 0x32, 0x2c] = (Some 42, [0x2c])"
proof -
  have "dec_digits (unat (42 :: uint64)) = [0x34, 0x32]" and "\<not> OPENSSL_isdigit 0x2c"
    by code_simp+
  then show ?thesis by (subst CBS_get_u64_decimal_exact) simp
qed

text \<open>A sequence of 24-bit length-prefixed strings is read back as exactly the strings that were
  written, and nothing else is accepted: a byte string parses as \<open>vs\<close> precisely when it is
  the concatenation of the prefixed encodings of \<open>vs\<close>, each shorter than \<open>2 ^ 24\<close> bytes.\<close>

theorem u24_length_prefixed_sequence:
  "reads CBS_get_u24_length_prefixed s vs \<longleftrightarrow>
     list_all (\<lambda>v. length v < 256 ^ 3) vs \<and> s = concat (map (\<lambda>v. nat_be 3 (length v) @ v) vs)"
  by (rule u24_prefixed.reads_iff)

end
