(* ===== verification/Der.thy ===== *)
theory Der
  imports Cbs
begin

text \<open>
  ASN.1 parsing of \<open>crypto/bytestring/cbs.c\<close>: base-128 integers, tags, DER and
  BER element headers, and the typed readers built on them.  The writer's view of
  the same encodings (\<open>base128_bytes\<close>, \<open>tag_bytes\<close>, \<open>der_len\<close>,
  \<open>der_element\<close>) is stated first as a reference, and the readers are shown to be
  codecs for it: they accept exactly the canonical encoding of what they return.
\<close>

section \<open>The parser\<close>

abbreviation (input) CBS_ASN1_CONSTRUCTED :: uint32 where "CBS_ASN1_CONSTRUCTED \<equiv> 0x20000000"
abbreviation (input) CBS_ASN1_TAG_NUMBER_MASK :: uint32 where "CBS_ASN1_TAG_NUMBER_MASK \<equiv> 0x1fffffff"
abbreviation (input) CBS_ASN1_BOOLEAN :: uint32 where "CBS_ASN1_BOOLEAN \<equiv> 1"
abbreviation (input) CBS_ASN1_INTEGER :: uint32 where "CBS_ASN1_INTEGER \<equiv> 2"
abbreviation (input) CBS_ASN1_OCTETSTRING :: uint32 where "CBS_ASN1_OCTETSTRING \<equiv> 4"
abbreviation (input) CBS_ASN1_OBJECT :: uint32 where "CBS_ASN1_OBJECT \<equiv> 6"

fun parse_base128_integer_loop :: "uint64 \<Rightarrow> cbs \<Rightarrow> uint64 option \<times> cbs" where
  "parse_base128_integer_loop v [] = (None, [])"
| "parse_base128_integer_loop v (b # bs) =
     (if drop_bit 57 v \<noteq> 0 then (None, bs)
      else if v = 0 \<and> b = 0x80 then (None, bs)
      else let v' = push_bit 7 v OR ucast (b AND 0x7f)
           in if b AND 0x80 \<noteq> 0 then parse_base128_integer_loop v' bs else (Some v', bs))"

definition parse_base128_integer :: "cbs \<Rightarrow> uint64 option \<times> cbs" where
  "parse_base128_integer c = parse_base128_integer_loop 0 c"

definition parse_asn1_tag :: "cbs \<Rightarrow> uint32 option \<times> cbs" where
  "parse_asn1_tag c =
     (case CBS_get_u8 c of
        (None, c) \<Rightarrow> (None, c)
      | (Some tag_byte, c) \<Rightarrow>
          let tag = push_bit 24 (ucast tag_byte AND 0xe0 :: uint32);
              tag_number = ucast (tag_byte AND 0x1f) :: uint32;
              (number, c) =
                (if tag_number = 0x1f then
                   (case parse_base128_integer c of
                      (None, c) \<Rightarrow> (None, c)
                    | (Some v, c) \<Rightarrow>
                        (if v > ucast CBS_ASN1_TAG_NUMBER_MASK \<or> v < 0x1f then None
                         else Some (ucast v :: uint32), c))
                 else (Some tag_number, c))
          in case number of
               None \<Rightarrow> (None, c)
             | Some tag_number \<Rightarrow>
                 let tag = tag OR tag_number
                 in if tag AND NOT CBS_ASN1_CONSTRUCTED = 0 then (None, c) else (Some tag, c))"

record asn1_element =
  el_out :: cbs
  el_tag :: uint32
  el_header_len :: nat
  el_ber_found :: bool
  el_indefinite :: bool

definition cbs_get_any_asn1_element :: "bool \<Rightarrow> cbs \<Rightarrow> asn1_element option \<times> cbs" where
  "cbs_get_any_asn1_element ber_ok c =
     (case parse_asn1_tag c of
        (None, _) \<Rightarrow> (None, c)
      | (Some tag, header) \<Rightarrow>
          (case CBS_get_u8 header of
             (None, _) \<Rightarrow> (None, c)
           | (Some length_byte, header) \<Rightarrow>
               let header_len = length c - length header;
                   finish = (\<lambda>len hlen ber indef.
                     case CBS_get_bytes c len of
                       (None, c') \<Rightarrow> (None, c')
                     | (Some out, c') \<Rightarrow>
                         (Some \<lparr>el_out = out, el_tag = tag, el_header_len = hlen,
                                el_ber_found = ber, el_indefinite = indef\<rparr>, c'))
               in if length_byte AND 0x80 = 0 then
                    finish (size_add (unat length_byte) header_len) header_len False False
                  else
                    let num_bytes = unat (length_byte AND 0x7f)
                    in if ber_ok \<and> tag AND CBS_ASN1_CONSTRUCTED \<noteq> 0 \<and> num_bytes = 0 then
                         finish header_len header_len True True
                       else if num_bytes = 0 \<or> num_bytes > 4 then (None, c)
                       else
                         (case cbs_get_u num_bytes header of
                            (None, _) \<Rightarrow> (None, c)
                          | (Some len64, header) \<Rightarrow>
                              let short = (len64 < 128);
                                  padded = (drop_bit ((num_bytes - 1) * 8) len64 = 0)
                              in if (short \<or> padded) \<and> \<not> ber_ok then (None, c)
                                 else
                                   let len = unat len64
                                   in if size_add (size_add len header_len) num_bytes < len
                                      then (None, c)
                                      else finish (size_add len (size_add header_len num_bytes))
                                             (size_add header_len num_bytes) (short \<or> padded) False)))"

definition CBS_get_any_asn1_element :: "cbs \<Rightarrow> asn1_element option \<times> cbs" where
  "CBS_get_any_asn1_element c = cbs_get_any_asn1_element False c"

definition CBS_get_any_ber_asn1_element :: "cbs \<Rightarrow> asn1_element option \<times> cbs" where
  "CBS_get_any_ber_asn1_element c = cbs_get_any_asn1_element True c"

text \<open>Contents and tag.\<close>

definition CBS_get_any_asn1 :: "cbs \<Rightarrow> (uint32 \<times> cbs) option \<times> cbs" where
  "CBS_get_any_asn1 c =
     (case CBS_get_any_asn1_element c of
        (None, c) \<Rightarrow> (None, c)
      | (Some e, c) \<Rightarrow>
          (case CBS_skip (el_out e) (el_header_len e) of
             (False, _) \<Rightarrow> (None, c)
           | (True, out) \<Rightarrow> (Some (el_tag e, out), c)))"

definition cbs_get_asn1 :: "uint32 \<Rightarrow> bool \<Rightarrow> cbs \<Rightarrow> cbs option \<times> cbs" where
  "cbs_get_asn1 tag_value skip_header c =
     (case CBS_get_any_asn1_element c of
        (None, c) \<Rightarrow> (None, c)
      | (Some e, c) \<Rightarrow>
          if el_tag e \<noteq> tag_value then (None, c)
          else if skip_header then
            (case CBS_skip (el_out e) (el_header_len e) of
               (False, _) \<Rightarrow> (None, c)
             | (True, out) \<Rightarrow> (Some out, c))
          else (Some (el_out e), c))"

definition CBS_get_asn1 :: "uint32 \<Rightarrow> cbs \<Rightarrow> cbs option \<times> cbs" where
  "CBS_get_asn1 tag_value c = cbs_get_asn1 tag_value True c"

definition CBS_get_asn1_element :: "uint32 \<Rightarrow> cbs \<Rightarrow> cbs option \<times> cbs" where
  "CBS_get_asn1_element tag_value c = cbs_get_asn1 tag_value False c"

definition CBS_peek_asn1_tag :: "uint32 \<Rightarrow> cbs \<Rightarrow> bool" where
  "CBS_peek_asn1_tag tag_value c \<longleftrightarrow>
     (case parse_asn1_tag c of (None, _) \<Rightarrow> False | (Some actual_tag, _) \<Rightarrow> tag_value = actual_tag)"


section \<open>Base-128 integers\<close>

text \<open>The reference encoding: continuation bytes first, then the low seven bits.\<close>

fun base128_high :: "nat \<Rightarrow> byte list" where
  "base128_high n =
     (if n = 0 then [] else base128_high (n div 128) @ [0x80 + of_nat (n mod 128)])"

definition base128_bytes :: "nat \<Rightarrow> byte list" where
  "base128_bytes n = base128_high (n div 128) @ [of_nat (n mod 128)]"

declare base128_high.simps [simp del]

lemma base128_high_0 [simp]: "base128_high 0 = []"
  by (simp add: base128_high.simps)

lemma base128_high_snoc:
  "0 < 128 * n + d \<Longrightarrow> d < 128 \<Longrightarrow> base128_high (128 * n + d) = base128_high n @ [0x80 + of_nat d]"
  by (subst base128_high.simps) simp

lemma unat_high_byte: "d < 128 \<Longrightarrow> unat (0x80 + of_nat d :: byte) = 128 + d"
  by (simp add: unat_word_ariths)

lemma base128_bytes_nonempty [simp]: "base128_bytes n \<noteq> []"
  by (simp add: base128_bytes_def)

lemma base128_step_value:
  fixes v :: uint64 and b :: byte
  assumes "unat v < 144115188075855872"
  shows "unat (push_bit 7 v OR ucast (b AND 0x7f)) = 128 * unat v + unat b mod 128"
proof -
  have u: "unat (ucast (b AND 0x7f) :: uint64) = unat b mod 128"
    by (simp add: unat_ucast_up byte_and_7f)
  have "unat v * 2 ^ 7 + unat b mod 128 < 2 ^ LENGTH(64)"
    using assms mod_less_divisor [of 128 "unat b"] by (simp del: mod_less_divisor)
  then show ?thesis
    using unat_shift_or [of "ucast (b AND 0x7f)" 7 v] u by simp
qed

lemma drop_bit_57: "drop_bit 57 (v::uint64) = 0 \<longleftrightarrow> unat v < 144115188075855872"
proof -
  have "drop_bit 57 v = 0 \<longleftrightarrow> unat (drop_bit 57 v) = 0" by (simp add: unat_eq_0)
  then show ?thesis by (simp only: unat_drop_bit) (simp add: div_eq_0_iff)
qed

lemma mod_128_high: "\<not> n < 128 \<Longrightarrow> n < 256 \<Longrightarrow> 128 + n mod 128 = (n::nat)"
  by (simp add: le_mod_geq)

declare parse_base128_integer_loop.simps [simp del]

lemma base128_loop_Nil: "parse_base128_integer_loop v [] = (None, [])"
  by (simp add: parse_base128_integer_loop.simps)

lemma base128_loop_Cons:
  "parse_base128_integer_loop v (b # bs) =
     (if \<not> unat v < 144115188075855872 \<or> v = 0 \<and> b = 0x80 then (None, bs)
      else if unat b < 128 then (Some (push_bit 7 v OR ucast (b AND 0x7f)), bs)
      else parse_base128_integer_loop (push_bit 7 v OR ucast (b AND 0x7f)) bs)"
  by (auto simp: parse_base128_integer_loop.simps drop_bit_57 byte_and_80 Let_def)

lemma base128_loop_high:
  "n < 144115188075855872 \<Longrightarrow>
   parse_base128_integer_loop 0 (base128_high n @ t) = parse_base128_integer_loop (of_nat n) t"
proof (induction n arbitrary: t rule: base128_high.induct)
  case (1 n)
  show ?case
  proof (cases "n = 0")
    case False
    let ?b = "0x80 + of_nat (n mod 128) :: byte" and ?v = "of_nat (n div 128) :: uint64"
    have v: "unat ?v = n div 128" using 1(2) by (simp add: unat_of_nat)
    have b: "unat ?b = 128 + n mod 128" by (rule unat_high_byte) simp
    have b128: "n mod 128 = 0" if "?b = 0x80"
    proof -
      from that have "unat ?b = unat (0x80 :: byte)" by (rule arg_cong)
      with b show ?thesis by simp
    qed
    have "?v = 0 \<longleftrightarrow> n div 128 = 0" using v by (metis unat_eq_0)
    moreover have "n = 128 * (n div 128) + n mod 128" by simp
    ultimately have ok: "\<not> (?v = 0 \<and> ?b = 0x80)" using False b128 by force
    have "push_bit 7 ?v OR ucast (?b AND 0x7f) = (of_nat n :: uint64)"
      using base128_step_value [of ?v ?b] v b 1(2) by (intro byte_eqI) (simp add: unat_of_nat)
    moreover have "base128_high n = base128_high (n div 128) @ [?b]"
      using False by (simp add: base128_high.simps [of n])
    moreover have "parse_base128_integer_loop ?v (?b # t) =
        parse_base128_integer_loop (push_bit 7 ?v OR ucast (?b AND 0x7f)) t"
      unfolding base128_loop_Cons using 1(2) ok v b by auto
    ultimately show ?thesis using 1(1) [OF False, of "?b # t"] 1(2) by simp
  qed simp
qed

lemma base128_loop_Some:
  "parse_base128_integer_loop v s = (Some w, s') \<Longrightarrow>
   \<exists>p. s = p @ s' \<and> base128_high (unat v) @ p = base128_bytes (unat w)"
proof (induction s arbitrary: v)
  case Nil
  then show ?case by (simp add: base128_loop_Nil)
next
  case (Cons b s)
  let ?v = "push_bit 7 v OR ucast (b AND 0x7f)"
  have ok: "unat v < 144115188075855872" "\<not> (v = 0 \<and> b = 0x80)"
    using Cons.prems by (auto simp: base128_loop_Cons split: if_splits)
  then have val: "unat ?v = 128 * unat v + unat b mod 128" by (simp add: base128_step_value)
  show ?case
  proof (cases "unat b < 128")
    case True
    with Cons.prems ok have "w = ?v" "s' = s" by (auto simp: base128_loop_Cons split: if_splits)
    moreover have "base128_bytes (unat ?v) = base128_high (unat v) @ [b]"
      using True val by (simp add: base128_bytes_def)
    ultimately show ?thesis by simp
  next
    case False
    with Cons.prems ok have "parse_base128_integer_loop ?v s = (Some w, s')"
      by (auto simp: base128_loop_Cons split: if_splits)
    from Cons.IH [OF this] obtain p where
      p: "s = p @ s'" "base128_high (unat ?v) @ p = base128_bytes (unat w)" by blast
    have bm: "unat b = 128 + unat b mod 128"
      using False by (simp add: mod_128_high)
    then have "unat b = unat (0x80 + of_nat (unat b mod 128) :: byte)"
      using unat_high_byte [of "unat b mod 128"] by simp
    then have bb: "b = 0x80 + of_nat (unat b mod 128)" by (rule byte_eqI)
    moreover have "0 < 128 * unat v + unat b mod 128"
    proof (rule ccontr)
      assume "\<not> 0 < 128 * unat v + unat b mod 128"
      then have "unat v = 0" and z: "unat b mod 128 = 0" by simp_all
      then have "v = 0" by (simp add: unat_eq_0)
      moreover have "b = 0x80" using bb unfolding z by simp
      ultimately show False using ok(2) by blast
    qed
    ultimately have "base128_high (unat ?v) = base128_high (unat v) @ [b]"
      using base128_high_snoc [of "unat v" "unat b mod 128"] val by simp
    with p show ?thesis by auto
  qed
qed

lemma base128_loop_suffix: "parse_base128_integer_loop v s = (r, s') \<Longrightarrow> \<exists>p. s = p @ s'"
proof (induction s arbitrary: v)
  case (Cons b s)
  from Cons.prems have "s' = s \<or> (\<exists>v. parse_base128_integer_loop v s = (r, s'))"
    by (auto simp: base128_loop_Cons split: if_splits)
  with Cons.IH show ?case by (metis append_Cons append_Nil)
qed (simp add: base128_loop_Nil)

interpretation base128: codec parse_base128_integer "\<lambda>v. base128_bytes (unat v)" "\<lambda>_. True"
proof
  fix v :: uint64 and t
  have less: "unat v < 18446744073709551616" using unsigned_less [of v, where 'a = nat] by simp
  then have hi: "unat v div 128 < 144115188075855872" by simp
  let ?v = "of_nat (unat v div 128) :: uint64" and ?b = "of_nat (unat v mod 128) :: byte"
  have u: "unat ?v = unat v div 128" using less by (simp add: unat_of_nat)
  have b: "unat ?b = unat v mod 128" by (simp add: unat_of_nat)
  have "push_bit 7 ?v OR ucast (?b AND 0x7f) = v"
    using base128_step_value [of ?v ?b] hi u b by (intro byte_eqI) simp
  moreover have "?b \<noteq> 0x80"
  proof
    assume "?b = 0x80" then have "unat ?b = 128" by simp
    with b show False using mod_less_divisor [of 128 "unat v"] by simp
  qed
  ultimately show "parse_base128_integer (base128_bytes (unat v) @ t) = (Some v, t)"
    using hi u b by (simp add: parse_base128_integer_def base128_bytes_def base128_loop_high
        base128_loop_Cons)
next
  fix s v s' assume "parse_base128_integer s = (Some v, s')"
  then show "True \<and> s = base128_bytes (unat v) @ s'"
    using base128_loop_Some [of 0 s v s'] by (auto simp: parse_base128_integer_def)
next
  fix s s' assume "parse_base128_integer s = (None, s')"
  then show "\<exists>p. s = p @ s'"
    unfolding parse_base128_integer_def by (rule base128_loop_suffix)
qed simp

section \<open>Tags\<close>

lemma and_e0: "x AND 0xe0 = push_bit 5 (take_bit 3 (drop_bit 5 x))" for x :: uint32
proof -
  have m: "(0xe0 :: uint32) = push_bit 5 (mask 3)" by (simp add: mask_eq_exp_minus_1 push_bit_eq_mult)
  show ?thesis unfolding m
    by (rule bit_eqI) (auto simp: bit_and_iff bit_push_bit_iff bit_take_bit_iff bit_drop_bit_eq bit_mask_iff)
qed

lemma unat_and_e0: "unat (x AND 0xe0) = unat x div 32 mod 8 * 32" for x :: uint32
proof -
  have "unat (take_bit 3 (drop_bit 5 x)) = unat x div 32 mod 8"
    using unat_and_mask [of "drop_bit 5 x" 3] by (simp add: take_bit_eq_mask unat_drop_bit)
  moreover have "unat x div 32 mod 8 * 32 < 4294967296"
    using mod_less_divisor [of 8 "unat x div 32"] by linarith
  ultimately show ?thesis by (simp add: and_e0 unat_push_bit)
qed

lemma unat_byte_and_1f: "unat (b AND 0x1f) = unat b mod 32" for b :: byte
  using unat_and_mask [of b 5] by (simp add: mask_eq_exp_minus_1)

lemma unat_and_tagmask: "unat (t AND 0x1fffffff) = unat t mod 536870912" for t :: uint32
  using unat_and_mask [of t 29] by (simp add: mask_eq_exp_minus_1)

lemma tag_compose:
  fixes b :: byte and n :: uint32
  assumes "unat n < 536870912"
  shows "push_bit 24 (ucast b AND 0xe0 :: uint32) OR n = of_nat (unat b div 32 * 536870912 + unat n)"
proof -
  let ?y = "take_bit 3 (drop_bit 5 (ucast b)) :: uint32"
  have z: "unat b div 32 < 8" using unat_byte_less [of b] by linarith
  have y: "unat ?y = unat b div 32"
    using z unat_and_mask [of "drop_bit 5 (ucast b :: uint32)" 3]
    by (simp add: take_bit_eq_mask unat_drop_bit unat_ucast_up)
  have "push_bit 24 (ucast b AND 0xe0 :: uint32) = push_bit 29 ?y"
    by (simp add: and_e0)
  moreover have "unat (push_bit 29 ?y OR n) = unat b div 32 * 536870912 + unat n"
    using unat_shift_or [of n 29 ?y] assms y z by simp
  moreover have "unat (of_nat (unat b div 32 * 536870912 + unat n) :: uint32) =
      unat b div 32 * 536870912 + unat n"
    using z assms by (subst unat_of_nat) (rule mod_less, simp)
  ultimately show ?thesis by (metis byte_eqI)
qed

lemma ucast_tagmask: "(ucast (0x1fffffff :: uint32) :: uint64) = 0x1fffffff"
  by (intro byte_eqI) (simp add: unat_ucast_up)

definition tag_of :: "nat \<Rightarrow> nat \<Rightarrow> uint32" where
  "tag_of z n = of_nat (z * 536870912 + n)"

lemma parse_asn1_tag_Nil: "parse_asn1_tag [] = (None, [])"
  by (simp add: parse_asn1_tag_def)

lemma parse_asn1_tag_Cons:
  "parse_asn1_tag (b # s) =
     (case (if unat b mod 32 = 31 then
              (case parse_base128_integer s of
                 (None, c) \<Rightarrow> (None, c)
               | (Some v, c) \<Rightarrow>
                   (if 31 \<le> unat v \<and> unat v < 536870912 then Some (unat v) else None, c))
            else (Some (unat b mod 32), s)) of
        (None, c) \<Rightarrow> (None, c)
      | (Some n, c) \<Rightarrow>
          (if tag_of (unat b div 32) n AND NOT CBS_ASN1_CONSTRUCTED = 0 then None
           else Some (tag_of (unat b div 32) n), c))"
proof -
  have low: "unat (ucast (b AND 0x1f) :: uint32) = unat b mod 32"
    by (simp add: unat_ucast_up unat_byte_and_1f)
  then have eq31: "ucast (b AND 0x1f) = (0x1f :: uint32) \<longleftrightarrow> unat b mod 32 = 31"
    using byte_eqI [of "ucast (b AND 0x1f)" "0x1f :: uint32"] by auto
  have lowtag: "push_bit 24 (ucast b AND 0xe0 :: uint32) OR ucast (b AND 0x1f) =
      tag_of (unat b div 32) (unat b mod 32)"
    using tag_compose [of "ucast (b AND 0x1f)" b] low mod_less_divisor [of 32 "unat b"]
    by (simp add: tag_of_def)
  have hightag: "push_bit 24 (ucast b AND 0xe0 :: uint32) OR ucast v = tag_of (unat b div 32) (unat v)"
    if "31 \<le> unat v \<and> unat v < 536870912" for v :: uint64
    using tag_compose [of "ucast v" b] that by (simp add: tag_of_def unat_ucast_down)
  show ?thesis
  proof (cases "unat b mod 32 = 31")
    case False
    then show ?thesis by (simp add: parse_asn1_tag_def eq31 lowtag Let_def del: push_bit_and)
  next
    case True
    then show ?thesis
      by (auto simp: parse_asn1_tag_def eq31 hightag word_less_nat_alt Let_def simp del: push_bit_and split: prod.splits option.splits)
  qed
qed


text \<open>The reference encoding of a tag, as \<open>CBB_add_asn1\<close> writes it.\<close>

definition tag_bytes :: "uint32 \<Rightarrow> byte list" where
  "tag_bytes tag =
     (let tag_bits = ucast (drop_bit 24 tag AND 0xe0) :: byte;
          tag_number = tag AND CBS_ASN1_TAG_NUMBER_MASK
      in if tag_number \<ge> 0x1f then (tag_bits OR 0x1f) # base128_bytes (unat tag_number)
         else [tag_bits OR ucast tag_number])"

definition tag_valid :: "uint32 \<Rightarrow> bool" where
  "tag_valid tag \<longleftrightarrow> tag AND NOT CBS_ASN1_CONSTRUCTED \<noteq> 0"

lemma tag_of_split: "tag = tag_of (unat tag div 536870912) (unat tag mod 536870912)"
  by (simp add: tag_of_def flip: of_nat_mult of_nat_add)

lemma unat_tag_of: "z < 8 \<Longrightarrow> n < 536870912 \<Longrightarrow> unat (tag_of z n) = z * 536870912 + n"
  unfolding tag_of_def by (subst unat_of_nat) (rule mod_less, simp)

lemma unat_tag_bits: "unat (ucast (drop_bit 24 tag AND 0xe0) :: byte) = unat tag div 536870912 * 32"
  for tag :: uint32
proof -
  have "unat tag div 536870912 < 8"
    using unsigned_less [of tag, where 'a = nat] by simp
  then show ?thesis
    by (simp add: unat_ucast_down unat_and_e0 unat_drop_bit div_mult2_eq [symmetric])
qed

lemma tag_bits_or:
  fixes tag :: uint32 and x :: byte
  assumes "unat x < 32"
  shows "unat (ucast (drop_bit 24 tag AND 0xe0) OR x) = unat tag div 536870912 * 32 + unat x"
proof -
  let ?z = "of_nat (unat tag div 536870912) :: byte"
  have z: "unat tag div 536870912 < 8" using unsigned_less [of tag, where 'a = nat] by simp
  then have u: "unat ?z = unat tag div 536870912" by simp
  have "ucast (drop_bit 24 tag AND 0xe0) = push_bit 5 ?z"
    using z u by (intro byte_eqI) (simp add: unat_tag_bits unat_push_bit)
  then show ?thesis using unat_shift_or [of x 5 ?z] assms z u by simp
qed

lemma tag_bytes_eq:
  "tag_bytes tag =
     (if 31 \<le> unat tag mod 536870912
      then of_nat (unat tag div 536870912 * 32 + 31) # base128_bytes (unat tag mod 536870912)
      else [of_nat (unat tag div 536870912 * 32 + unat tag mod 536870912)])"
proof -
  let ?n = "unat tag mod 536870912" and ?bits = "ucast (drop_bit 24 tag AND 0xe0) :: byte"
  have z: "unat tag div 536870912 < 8" using unsigned_less [of tag, where 'a = nat] by simp
  have ge: "tag AND 0x1fffffff \<ge> 0x1f \<longleftrightarrow> 31 \<le> ?n"
    by (simp add: word_le_nat_alt unat_and_tagmask)
  have hi: "?bits OR 0x1f = of_nat (unat tag div 536870912 * 32 + 31)"
    using z tag_bits_or [of "0x1f" tag] by (intro byte_eqI) (simp add: unat_word_ariths)
  have lo: "?bits OR ucast (tag AND 0x1fffffff) = of_nat (unat tag div 536870912 * 32 + ?n)"
    if "\<not> 31 \<le> ?n"
  proof -
    have u: "unat (ucast (tag AND 0x1fffffff) :: byte) = ?n"
      using that by (simp add: unat_ucast_down unat_and_tagmask)
    then have "unat (?bits OR ucast (tag AND 0x1fffffff)) = unat tag div 536870912 * 32 + ?n"
      using tag_bits_or [of "ucast (tag AND 0x1fffffff)" tag] that by simp
    moreover have "unat (of_nat (unat tag div 536870912 * 32 + ?n) :: byte) =
        unat tag div 536870912 * 32 + ?n"
      using z that by (subst unat_of_nat) (rule mod_less, simp)
    ultimately show ?thesis by (metis byte_eqI)
  qed
  show ?thesis
    unfolding tag_bytes_def Let_def ge hi unat_and_tagmask using lo by auto
qed

interpretation asn1_tag: codec parse_asn1_tag tag_bytes tag_valid
proof
  fix tag t assume valid: "tag_valid tag"
  let ?z = "unat tag div 536870912" and ?n = "unat tag mod 536870912"
  have z: "?z < 8" using unsigned_less [of tag, where 'a = nat] by simp
  have tag: "tag_of ?z ?n = tag" by (rule tag_of_split [symmetric])
  show "parse_asn1_tag (tag_bytes tag @ t) = (Some tag, t)"
  proof (cases "31 \<le> ?n")
    case True
    let ?b = "of_nat (?z * 32 + 31) :: byte"
    have b: "unat ?b = ?z * 32 + 31" using z by (subst unat_of_nat) (rule mod_less, simp)
    have v: "unat (of_nat ?n :: uint64) = ?n" by (subst unat_of_nat) (rule mod_less, simp)
    have "parse_base128_integer (base128_bytes ?n @ t) = (Some (of_nat ?n), t)"
      using base128.get_put [of "of_nat ?n" t] v by simp
    moreover have "unat ?b div 32 = ?z" "unat ?b mod 32 = 31" unfolding b by simp_all
    ultimately show ?thesis
      using True v tag valid
      by (simp add: tag_bytes_eq parse_asn1_tag_Cons tag_valid_def del: of_nat_add of_nat_mult)
  next
    case False
    let ?b = "of_nat (?z * 32 + ?n) :: byte"
    have b: "unat ?b = ?z * 32 + ?n" using z False by (subst unat_of_nat) (rule mod_less, simp)
    have "unat ?b div 32 = ?z" "unat ?b mod 32 = ?n" unfolding b using False by simp_all
    then show ?thesis
      using False tag valid
      by (simp add: tag_bytes_eq parse_asn1_tag_Cons tag_valid_def del: of_nat_add of_nat_mult)
  qed
next
  fix s tag s' assume a: "parse_asn1_tag s = (Some tag, s')"
  then obtain b c where s: "s = b # c" by (cases s) (auto simp: parse_asn1_tag_Nil)
  have z: "unat b div 32 < 8" using unat_byte_less [of b] by linarith
  show "tag_valid tag \<and> s = tag_bytes tag @ s'"
  proof (cases "unat b mod 32 = 31")
    case True
    with a s obtain v where v: "parse_base128_integer c = (Some v, s')" "31 \<le> unat v"
        "unat v < 536870912" "tag = tag_of (unat b div 32) (unat v)" "tag_valid tag"
      by (auto simp: parse_asn1_tag_Cons tag_valid_def split: prod.splits option.splits if_splits)
    have "unat tag = unat b div 32 * 536870912 + unat v" using v z by (simp add: unat_tag_of)
    then have d: "unat tag div 536870912 = unat b div 32" "unat tag mod 536870912 = unat v"
      using v(3) by simp_all
    have "unat b div 32 * 32 + 31 = unat b" using True by presburger
    then have "of_nat (unat b div 32 * 32 + 31) = b" by (metis of_nat_unat ucast_id)
    then show ?thesis
      using v s d base128.put_get [OF v(1)] by (simp add: tag_bytes_eq del: of_nat_add of_nat_mult)
  next
    case False
    with a s have v: "tag = tag_of (unat b div 32) (unat b mod 32)" "tag_valid tag" "c = s'"
      by (auto simp: parse_asn1_tag_Cons tag_valid_def split: if_splits)
    have "unat b mod 32 < 32" by simp
    then have "unat tag = unat b div 32 * 536870912 + unat b mod 32"
      using v z by (simp add: unat_tag_of)
    then have d: "unat tag div 536870912 = unat b div 32" "unat tag mod 536870912 = unat b mod 32"
      by simp_all
    have "of_nat (unat b div 32 * 32 + unat b mod 32) = b"
      by (metis div_mult_mod_eq of_nat_unat ucast_id)
    moreover have "\<not> 31 \<le> unat b mod 32" using False \<open>unat b mod 32 < 32\<close> by linarith
    ultimately show ?thesis using v s d by (simp add: tag_bytes_eq del: of_nat_add of_nat_mult)
  qed
next
  fix s s' assume "parse_asn1_tag s = (None, s')"
  then show "\<exists>p. s = p @ s'"
    by (cases s) (auto simp: parse_asn1_tag_Nil parse_asn1_tag_Cons dest!: base128.get_suffix
        split: prod.splits option.splits if_splits)
qed (simp add: tag_bytes_def Let_def)

section \<open>Element headers\<close>

text \<open>The reference encoding of a DER length and of a DER element.\<close>

definition der_len :: "nat \<Rightarrow> byte list" where
  "der_len n =
     (if n < 128 then [of_nat n]
      else if n \<le> 0xff then 0x81 # nat_be 1 n
      else if n \<le> 0xffff then 0x82 # nat_be 2 n
      else if n \<le> 0xffffff then 0x83 # nat_be 3 n
      else 0x84 # nat_be 4 n)"

definition der_header :: "uint32 \<Rightarrow> nat \<Rightarrow> byte list" where
  "der_header tag n = tag_bytes tag @ der_len n"

fun der_element :: "uint32 \<times> cbs \<Rightarrow> byte list" where
  "der_element (tag, c) = der_header tag (length c) @ c"

fun der_valid :: "uint32 \<times> cbs \<Rightarrow> bool" where
  "der_valid (tag, c) \<longleftrightarrow> tag_valid tag \<and> length c < 4294967296"

lemma length_base128_high: "n < 128 ^ k \<Longrightarrow> length (base128_high n) \<le> k"
proof (induction k arbitrary: n)
  case (Suc k)
  then have "n div 128 < 128 ^ k" by (simp add: less_mult_imp_div_less mult.commute)
  then show ?case using Suc.IH [of "n div 128"] by (simp add: base128_high.simps [of n])
qed simp

lemma length_tag_bytes: "length (tag_bytes tag) \<le> 6"
proof -
  have "unat tag mod 536870912 div 128 < 128 ^ 4"
    using mod_less_divisor [of 536870912 "unat tag"] by simp
  then show ?thesis
    using length_base128_high [of "unat tag mod 536870912 div 128" 4]
    by (simp add: tag_bytes_eq base128_bytes_def)
qed

lemma size_add_small: "a < 4294967296 \<Longrightarrow> b < 4294967296 \<Longrightarrow> size_add a b = a + b"
  by (simp add: size_add_def)

lemma drop_bit_len:
  fixes v :: uint64
  shows "drop_bit (k * 8) v = 0 \<longleftrightarrow> unat v < 256 ^ k"
proof -
  have "drop_bit (k * 8) v = 0 \<longleftrightarrow> unat v div 2 ^ (k * 8) = 0"
    by (metis unat_drop_bit unat_eq_0)
  moreover have "(2::nat) ^ (k * 8) = 256 ^ k"
    using power_mult [of "2::nat" 8 k] by (simp add: mult.commute)
  ultimately show ?thesis by (simp add: div_eq_0_iff)
qed

text \<open>The element reader, with its size arithmetic resolved.\<close>

lemma element_short:
  assumes "parse_asn1_tag s = (Some tag, lb # h)" and "unat lb < 128"
  shows "cbs_get_any_asn1_element ber s =
    (let hl = length (tag_bytes tag) + 1; n = unat lb + hl in
     if length s < n then (None, s)
     else (Some \<lparr>el_out = take n s, el_tag = tag, el_header_len = hl,
                 el_ber_found = False, el_indefinite = False\<rparr>, drop n s))"
proof -
  have s: "s = tag_bytes tag @ lb # h" using asn1_tag.put_get [OF assms(1)] by simp
  have "size_add (unat lb) (length (tag_bytes tag) + 1) = unat lb + (length (tag_bytes tag) + 1)"
    using length_tag_bytes [of tag] unat_byte_less [of lb]
    by (intro size_add_small) (simp_all del: unat_byte_less)
  moreover have "length s - length h = length (tag_bytes tag) + 1" using s by simp
  ultimately show ?thesis
    using assms by (simp add: cbs_get_any_asn1_element_def byte_and_80 CBS_get_bytes_eq Let_def)
qed

lemma element_long:
  assumes "parse_asn1_tag s = (Some tag, lb # h)" and "\<not> unat lb < 128"
    and "k = unat lb mod 128"
  shows "cbs_get_any_asn1_element ber s =
    (let hl = length (tag_bytes tag) + 1 in
     if ber \<and> tag AND CBS_ASN1_CONSTRUCTED \<noteq> 0 \<and> k = 0 then
       (Some \<lparr>el_out = take hl s, el_tag = tag, el_header_len = hl,
              el_ber_found = True, el_indefinite = True\<rparr>, drop hl s)
     else if k = 0 \<or> k > 4 \<or> length h < k then (None, s)
     else
       let len = be_nat (take k h); nonmin = (len < 128 \<or> len < 256 ^ (k - 1));
           n = len + hl + k
       in if nonmin \<and> \<not> ber \<or> length s < n then (None, s)
          else (Some \<lparr>el_out = take n s, el_tag = tag, el_header_len = hl + k,
                      el_ber_found = nonmin, el_indefinite = False\<rparr>, drop n s))"
proof -
  let ?T = "length (tag_bytes tag) + 1" and ?v = "cbs_get_u_loop 0 (take k h)"
  have s: "s = tag_bytes tag @ lb # h" using asn1_tag.put_get [OF assms(1)] by simp
  have T: "?T \<le> 7" using length_tag_bytes [of tag] by simp
  have hl: "length s - length h = ?T" using s by simp
  have nb: "unat (lb AND 0x7f) = k" using assms(3) by (simp add: byte_and_7f)
  show ?thesis
  proof (cases "k = 0 \<or> k > 4 \<or> length h < k")
    case True
    then show ?thesis
      using assms(1,2) nb hl s
      by (auto simp: cbs_get_any_asn1_element_def byte_and_80 CBS_get_bytes_eq cbs_get_u_eq Let_def)
  next
    case False
    have v: "unat ?v = be_nat (take k h)" using False by (simp add: unat_cbs_get_u)
    have "be_nat (take k h) < 256 ^ k" using be_nat_less [of "take k h"] False by simp
    also have "(256::nat) ^ k \<le> 256 ^ 4" using False by (intro power_increasing) auto
    finally have len: "be_nat (take k h) < 4294967296" by simp
    have a1: "size_add ?T k = ?T + k" using T False by (intro size_add_small) auto
    have a2: "size_add (be_nat (take k h)) (?T + k) = be_nat (take k h) + (?T + k)"
      using T False len by (intro size_add_small) auto
    have a3: "size_add (size_add (be_nat (take k h)) ?T) k = be_nat (take k h) + ?T + k"
      using T False len by (simp add: size_add_def)
    have sh: "?v < 128 \<longleftrightarrow> be_nat (take k h) < 128" using v by (simp add: word_less_nat_alt)
    have pd: "drop_bit ((k - 1) * 8) ?v = 0 \<longleftrightarrow> be_nat (take k h) < 256 ^ (k - 1)"
      using v by (simp add: drop_bit_len)
    show ?thesis
      using assms(1,2) nb hl False sh pd v a1 a2 a3
      by (simp add: cbs_get_any_asn1_element_def byte_and_80 CBS_get_bytes_eq cbs_get_u_eq Let_def)
        (auto simp: add.assoc)
  qed
qed

lemma der_len_long:
  assumes "1 \<le> k" "k \<le> 4" "n < 256 ^ k" "\<not> (n < 128 \<or> n < 256 ^ (k - 1))"
  shows "der_len n = (0x80 + of_nat k) # nat_be k n"
proof -
  from assms(1,2) consider "k = 1" | "k = 2" | "k = 3" | "k = 4" by linarith
  then show ?thesis by cases (use assms(3,4) in \<open>simp_all add: der_len_def\<close>)
qed

lemma der_len_long_ex:
  assumes "\<not> n < 128" "n < (4294967296 :: nat)"
  obtains k :: nat where "1 \<le> k" "k \<le> 4" "n < 256 ^ k" "\<not> (n < 128 \<or> n < 256 ^ (k - 1))"
proof -
  define k :: nat where
    "k = (if n \<le> 0xff then 1 else if n \<le> 0xffff then 2 else if n \<le> 0xffffff then 3 else 4)"
  show ?thesis
    by (rule that [of k]) (use assms in \<open>auto simp: k_def\<close>)
qed

lemma der_len_nonempty [simp]: "der_len n \<noteq> []"
  by (simp add: der_len_def)

text \<open>What the DER reader returns for a given tag and contents.\<close>

definition der_el :: "uint32 \<Rightarrow> cbs \<Rightarrow> asn1_element" where
  "der_el tag c =
     \<lparr>el_out = der_element (tag, c), el_tag = tag,
      el_header_len = length (der_header tag (length c)),
      el_ber_found = False, el_indefinite = False\<rparr>"

lemma element_of_der:
  assumes "der_valid (tag, c)"
  shows "cbs_get_any_asn1_element ber (der_element (tag, c) @ t) = (Some (der_el tag c), t)"
proof -
  let ?s = "der_element (tag, c) @ t" and ?T = "tag_bytes tag"
  have v: "tag_valid tag" and n: "length c < 4294967296" using assms by simp_all
  have p: "parse_asn1_tag ?s = (Some tag, der_len (length c) @ c @ t)"
    using asn1_tag.get_put [OF v] by (simp add: der_header_def)
  show ?thesis
  proof (cases "length c < 128")
    case True
    then have dl: "der_len (length c) = [of_nat (length c)]" by (simp add: der_len_def)
    have u: "unat (of_nat (length c) :: byte) = length c" using True by simp
    have "der_header tag (length c) = ?T @ [of_nat (length c)]" by (simp add: der_header_def dl)
    with True u p show ?thesis
      by (subst element_short [of _ tag "of_nat (length c)" "c @ t"])
        (simp_all add: dl der_el_def Let_def)
  next
    case False
    then obtain k where k: "1 \<le> k" "k \<le> 4" "length c < 256 ^ k"
      "\<not> (length c < 128 \<or> length c < 256 ^ (k - 1))"
      using n by (rule der_len_long_ex)
    let ?lb = "0x80 + of_nat k :: byte" and ?B = "nat_be k (length c)"
    have dl: "der_len (length c) = ?lb # ?B" using k by (rule der_len_long)
    have lb: "unat ?lb = 128 + k" using k(2) by (intro unat_high_byte) simp
    have p': "parse_asn1_tag ?s = (Some tag, ?lb # ?B @ c @ t)" using p dl by simp
    have kk: "k = unat ?lb mod 128" using lb k(2) by simp
    have hd: "der_header tag (length c) = ?T @ ?lb # ?B" by (simp add: der_header_def dl)
    have bn: "be_nat (take k (?B @ c @ t)) = length c" using k(3) by (simp add: be_nat_nat_be)
    have tk: "take (length c + (length ?T + 1) + k) ?s = der_element (tag, c)"
      and dr: "drop (length c + (length ?T + 1) + k) ?s = t"
      by (simp_all add: hd)
    have ls: "\<not> length ?s < length c + (length ?T + 1) + k" by (simp add: hd)
    have nm: "(length c < 128 \<or> length c < 256 ^ (k - 1)) = False" using k(4) by simp
    have lh: "\<not> (k = 0 \<or> k > 4 \<or> length (?B @ c @ t) < k)" using k by simp
    have "\<not> unat ?lb < 128" using lb by simp
    note element_long [OF p' this kk, of ber]
    moreover have "k \<noteq> 0" using k(1) by simp
    ultimately show ?thesis
      unfolding Let_def bn nm tk dr if_not_P [OF lh] if_not_P [OF ls]
      by (simp add: der_el_def hd ls [unfolded not_less, THEN leD])
  qed
qed

lemma element_is_der:
  assumes "CBS_get_any_asn1_element s = (Some e, s')"
  shows "\<exists>tag c. der_valid (tag, c) \<and> e = der_el tag c \<and> s = der_element (tag, c) @ s'"
proof -
  let ?g = "cbs_get_any_asn1_element False s"
  have g: "?g = (Some e, s')" using assms by (simp add: CBS_get_any_asn1_element_def)
  then obtain tag lb h where p: "parse_asn1_tag s = (Some tag, lb # h)"
    by (cases "parse_asn1_tag s"; cases "fst (parse_asn1_tag s)"; cases "snd (parse_asn1_tag s)")
      (auto simp: cbs_get_any_asn1_element_def)
  have s: "s = tag_bytes tag @ lb # h" and v: "tag_valid tag"
    using asn1_tag.put_get [OF p] by simp_all
  let ?T = "tag_bytes tag"
  show ?thesis
  proof (cases "unat lb < 128")
    case True
    let ?c = "take (unat lb) h"
    from g True p have l: "unat lb \<le> length h" and
      e: "e = \<lparr>el_out = ?T @ lb # ?c, el_tag = tag, el_header_len = length ?T + 1,
                el_ber_found = False, el_indefinite = False\<rparr>" and s': "s' = drop (unat lb) h"
      by (auto simp: element_short Let_def s split: if_splits)
    have "der_header tag (length ?c) = ?T @ [lb]"
      using True l by (simp add: der_header_def der_len_def)
    moreover have "length ?c < 4294967296" using True l by simp
    ultimately show ?thesis
      using v s s' e by (intro exI [of _ tag] exI [of _ ?c]) (simp add: der_el_def)
  next
    case False
    define k where "k = unat lb mod 128"
    define n where "n = be_nat (take k h)"
    from g have ok: "\<not> (k = 0 \<or> k > 4 \<or> length h < k)" "\<not> (n < 128 \<or> n < 256 ^ (k - 1))"
      "n + (length ?T + 1) + k \<le> length s" and
      e: "e = \<lparr>el_out = take (n + (length ?T + 1) + k) s, el_tag = tag,
                el_header_len = length ?T + 1 + k, el_ber_found = False, el_indefinite = False\<rparr>" and
      s': "s' = drop (n + (length ?T + 1) + k) s"
      using element_long [OF p False k_def, of False] n_def
      by (auto simp: Let_def split: if_splits)
    let ?c = "take n (drop k h)"
    have lc: "length ?c = n" using ok(1,3) s by simp
    have nk: "n < 256 ^ k" using be_nat_less [of "take k h"] ok(1) by (simp add: n_def)
    have "(256::nat) ^ k \<le> 256 ^ 4" using ok(1) by (intro power_increasing) auto
    with nk have n32: "n < 4294967296" by simp
    have "unat lb = 128 + k" using False by (simp add: k_def mod_128_high)
    then have lb: "lb = 0x80 + of_nat k"
      using unat_high_byte [of k] ok(1) by (intro byte_eqI) simp
    have "nat_be k n = take k h" using ok(1) nat_be_be_nat [of "take k h"] by (simp add: n_def)
    then have "der_len n = lb # take k h"
      using der_len_long [of k n] ok nk lb by simp
    then have hd: "der_header tag (length ?c) = ?T @ lb # take k h"
      and hdn: "der_header tag n = ?T @ lb # take k h"
      unfolding lc by (simp_all add: der_header_def)
    have h: "h = take k h @ ?c @ drop (n + k) h"
      by (metis add.commute append_take_drop_id drop_drop)
    have el: "take (n + (length ?T + 1) + k) s = der_element (tag, ?c)"
      "drop (n + (length ?T + 1) + k) s = drop (n + k) h"
      using ok lc by (simp_all add: s hdn add.commute [of n] take_add)
    show ?thesis
      using v lc n32 e el s' hd ok(1) s h
      by (intro exI [of _ tag] exI [of _ ?c]) (simp add: der_el_def)
  qed
qed

lemma element_Some_iff:
  "CBS_get_any_asn1_element s = (Some e, s') \<longleftrightarrow>
     (\<exists>tag c. der_valid (tag, c) \<and> e = der_el tag c \<and> s = der_element (tag, c) @ s')"
proof
  assume "\<exists>tag c. der_valid (tag, c) \<and> e = der_el tag c \<and> s = der_element (tag, c) @ s'"
  then obtain tag c where v: "der_valid (tag, c)" and r: "e = der_el tag c" "s = der_element (tag, c) @ s'"
    by blast
  show "CBS_get_any_asn1_element s = (Some e, s')"
    unfolding r CBS_get_any_asn1_element_def by (rule element_of_der [OF v])
qed (rule element_is_der)

text \<open>A failing element read leaves the input where it was, in DER and in BER.\<close>

lemma element_None: "cbs_get_any_asn1_element ber s = (None, s') \<Longrightarrow> s' = s"
  unfolding cbs_get_any_asn1_element_def
  by (auto simp: CBS_get_bytes_eq Let_def split: prod.splits option.splits if_splits)

lemma element_parse:
  assumes "cbs_get_any_asn1_element ber s = (Some e, s')"
  obtains lb h where "parse_asn1_tag s = (Some (el_tag e), lb # h)"
proof -
  obtain tag lb h where p: "parse_asn1_tag s = (Some tag, lb # h)"
    using assms
    by (cases "parse_asn1_tag s"; cases "fst (parse_asn1_tag s)"; cases "snd (parse_asn1_tag s)")
      (auto simp: cbs_get_any_asn1_element_def)
  moreover have "el_tag e = tag"
    using assms p unfolding cbs_get_any_asn1_element_def
    by (auto simp: CBS_get_bytes_eq Let_def split: prod.splits option.splits if_splits)
  ultimately show ?thesis using that by blast
qed

text \<open>
  What every successful element read has in common: the element is what was cut off
  the front of the input, its header lies within it, and it is stable under extension.
\<close>

lemma element_split:
  assumes "cbs_get_any_asn1_element ber s = (Some e, s')"
  shows "s = el_out e @ s'" and "2 \<le> el_header_len e" and "el_header_len e \<le> length (el_out e)"
    and "el_header_len e \<le> 11" and "tag_valid (el_tag e)"
    and "cbs_get_any_asn1_element ber (s @ t) = (Some e, s' @ t)"
proof -
  obtain tag lb h where te: "el_tag e = tag" and p: "parse_asn1_tag s = (Some tag, lb # h)"
    using element_parse [OF assms] by blast
  have s: "s = tag_bytes tag @ lb # h" and v: "tag_valid tag"
    using asn1_tag.put_get [OF p] by simp_all
  have T: "1 \<le> length (tag_bytes tag)" "length (tag_bytes tag) \<le> 6"
    using asn1_tag.put_nonempty [OF v] length_tag_bytes [of tag]
    by (simp_all add: Suc_le_eq)
  have p': "parse_asn1_tag (s @ t) = (Some tag, lb # h @ t)"
    using asn1_tag.get_stable [OF p, of t] by simp
  show "tag_valid (el_tag e)" using v te by simp
  have all: "s = el_out e @ s' \<and> 2 \<le> el_header_len e \<and> el_header_len e \<le> length (el_out e) \<and>
    el_header_len e \<le> 11 \<and> cbs_get_any_asn1_element ber (s @ t) = (Some e, s' @ t)"
  proof (cases "unat lb < 128")
    case True
    with assms p p' T show ?thesis
      by (auto simp: element_short Let_def s split: if_splits)
  next
    case False
    define k where "k = unat lb mod 128"
    have bt: "be_nat (take k (h @ t)) = be_nat (take k h)" if "\<not> length h < k" using that by simp
    show ?thesis
      using assms T element_long [OF p False k_def, of ber] element_long [OF p' False k_def, of ber]
      by (auto simp: Let_def s bt split: if_splits)
  qed
  then show "s = el_out e @ s'" "2 \<le> el_header_len e" "el_header_len e \<le> length (el_out e)"
    "el_header_len e \<le> 11" "cbs_get_any_asn1_element ber (s @ t) = (Some e, s' @ t)" by blast+
qed

interpretation ber_element: reader CBS_get_any_ber_asn1_element
proof
  fix s r s' assume a: "CBS_get_any_ber_asn1_element s = (r, s')"
  show "\<exists>p. s = p @ s'"
  proof (cases r)
    case None
    with a element_None [of True s s'] show ?thesis by (simp add: CBS_get_any_ber_asn1_element_def)
  next
    case (Some e)
    with a element_split(1) [of True s e s'] show ?thesis
      by (auto simp: CBS_get_any_ber_asn1_element_def)
  qed
next
  fix s e s' assume "CBS_get_any_ber_asn1_element s = (Some e, s')"
  then have g: "cbs_get_any_asn1_element True s = (Some e, s')"
    by (simp add: CBS_get_any_ber_asn1_element_def)
  have "s = el_out e @ s'" by (rule element_split(1) [OF g])
  moreover have "2 \<le> length (el_out e)" using element_split(2,3) [OF g] by simp
  ultimately show "length s' < length s" by (cases "el_out e") simp_all
next
  fix s e s' t assume "CBS_get_any_ber_asn1_element s = (Some e, s')"
  then show "CBS_get_any_ber_asn1_element (s @ t) = (Some e, s' @ t)"
    unfolding CBS_get_any_ber_asn1_element_def by (rule element_split(6))
qed

lemma der_skip_header: "CBS_skip (el_out (der_el tag c)) (el_header_len (der_el tag c)) = (True, c)"
  by (simp add: der_el_def CBS_skip_eq)

interpretation der: codec CBS_get_any_asn1 der_element der_valid
proof
  fix v t assume "der_valid v"
  moreover obtain tag c where "v = (tag, c)" by (cases v)
  ultimately show "CBS_get_any_asn1 (der_element v @ t) = (Some v, t)"
    using element_of_der [of tag c False t] der_skip_header [of tag c]
    by (simp add: CBS_get_any_asn1_def CBS_get_any_asn1_element_def der_el_def)
next
  fix s v s' assume "CBS_get_any_asn1 s = (Some v, s')"
  then obtain e where e: "CBS_get_any_asn1_element s = (Some e, s')"
    and v: "CBS_skip (el_out e) (el_header_len e) = (True, snd v)" "fst v = el_tag e"
    by (auto simp: CBS_get_any_asn1_def split: prod.splits option.splits bool.splits)
  obtain tag c where tc: "der_valid (tag, c)" "e = der_el tag c" "s = der_element (tag, c) @ s'"
    using element_is_der [OF e] by blast
  then have "v = (tag, c)" using v der_skip_header [of tag c] by (cases v) (simp add: der_el_def)
  with tc show "der_valid v \<and> s = der_element v @ s'" by simp
next
  fix v assume "der_valid v" then show "der_element v \<noteq> []"
    by (cases v) (simp add: der_header_def)
next
  fix s s' assume a: "CBS_get_any_asn1 s = (None, s')"
  show "\<exists>p. s = p @ s'"
  proof (cases "CBS_get_any_asn1_element s")
    case (Pair r c)
    show ?thesis
    proof (cases r)
      case None
      with a Pair element_None [of False s c] show ?thesis
        by (simp add: CBS_get_any_asn1_def CBS_get_any_asn1_element_def)
    next
      case (Some e)
      with Pair element_is_der [of s e c] a show ?thesis
        by (auto simp: CBS_get_any_asn1_def split: prod.splits bool.splits)
    qed
  qed
qed

lemma CBS_get_asn1_Some_iff:
  "CBS_get_asn1 tag s = (Some c, s') \<longleftrightarrow> der_valid (tag, c) \<and> s = der_element (tag, c) @ s'"
proof
  assume "CBS_get_asn1 tag s = (Some c, s')"
  then obtain e where e: "CBS_get_any_asn1_element s = (Some e, s')" "el_tag e = tag"
    and c: "CBS_skip (el_out e) (el_header_len e) = (True, c)"
    by (auto simp: CBS_get_asn1_def cbs_get_asn1_def split: prod.splits option.splits bool.splits if_splits)
  from element_is_der [OF e(1)] obtain t d
    where td: "der_valid (t, d)" "e = der_el t d" "s = der_element (t, d) @ s'" by blast
  then have "t = tag" "d = c" using e(2) c der_skip_header [of t d] by (simp_all add: der_el_def)
  with td show "der_valid (tag, c) \<and> s = der_element (tag, c) @ s'" by simp
next
  assume "der_valid (tag, c) \<and> s = der_element (tag, c) @ s'"
  then show "CBS_get_asn1 tag s = (Some c, s')"
    using element_of_der [of tag c False s'] der_skip_header [of tag c]
    by (simp add: CBS_get_asn1_def cbs_get_asn1_def CBS_get_any_asn1_element_def der_el_def)
qed

lemma CBS_get_asn1_suffix: "CBS_get_asn1 tag s = (r, s') \<Longrightarrow> \<exists>p. s = p @ s'"
proof -
  assume a: "CBS_get_asn1 tag s = (r, s')"
  obtain q c where g: "CBS_get_any_asn1_element s = (q, c)" by fastforce
  with a have "s' = c"
    by (auto simp: CBS_get_asn1_def cbs_get_asn1_def split: prod.splits option.splits bool.splits if_splits)
  moreover have "\<exists>p. s = p @ c"
    using g element_None [of False s c] element_split(1) [of False s _ c]
    by (cases q) (auto simp: CBS_get_any_asn1_element_def)
  ultimately show ?thesis by simp
qed

section \<open>Properties\<close>

text \<open>C1. The DER reader is canonical: it accepts an element exactly when the input starts with the
  one DER encoding of its tag and contents (minimal tag number, minimal length), and it leaves
  what follows that encoding.\<close>

theorem CBS_get_any_asn1_canonical:
  "CBS_get_any_asn1 s = (Some (tag, c), s') \<longleftrightarrow>
     der_valid (tag, c) \<and> s = der_element (tag, c) @ s'"
  by (rule der.get_iff)

text \<open>C21. The element reader, in DER and in BER mode, is memory safe and atomic: on success the element
  is the front of the input and holds its header, which has between 2 and 11 bytes, and the tag
  is a valid one; on failure nothing is consumed.\<close>

theorem element_bounds:
  assumes "cbs_get_any_asn1_element ber_ok s = (r, s')"
  shows "case r of
           None \<Rightarrow> s' = s
         | Some e \<Rightarrow> s = el_out e @ s' \<and> 2 \<le> el_header_len e \<and> el_header_len e \<le> 11 \<and>
             el_header_len e \<le> length (el_out e) \<and> tag_valid (el_tag e)"
  using assms element_None [of ber_ok s s'] element_split [of ber_ok s _ s'] by (cases r) auto

theorem element_bounds_witness:
  "cbs_get_any_asn1_element True [0x30, 0x80, 0, 0] =
     (Some \<lparr>el_out = [0x30, 0x80], el_tag = 0x20000010, el_header_len = 2,
            el_ber_found = True, el_indefinite = True\<rparr>, [0, 0]) \<and> tag_valid 0x20000010"
proof -
  have e: "cbs_get_any_asn1_element True [0x30, 0x80, 0, 0] =
     (Some \<lparr>el_out = [0x30, 0x80], el_tag = 0x20000010, el_header_len = 2,
            el_ber_found = True, el_indefinite = True\<rparr>, [0, 0])" by code_simp
  show ?thesis using e element_bounds [OF e] by simp
qed

text \<open>Base-128 integers are read canonically: the reader returns a 64-bit value exactly when the
  input starts with its minimal base-128 encoding.\<close>

theorem parse_base128_integer_canonical:
  "parse_base128_integer s = (Some v, s') \<longleftrightarrow> s = base128_bytes (unat v) @ s'"
  using base128.get_iff [of s v s'] by simp

text \<open>An element read in DER mode is read the same way in BER mode: the lax parser agrees with the
  strict one on everything the strict one accepts.\<close>

theorem der_element_is_ber:
  assumes "CBS_get_any_asn1_element s = (Some e, s')"
  shows "CBS_get_any_ber_asn1_element s = (Some e, s') \<and> \<not> el_ber_found e \<and> \<not> el_indefinite e"
  using element_is_der [OF assms] element_of_der
  by (auto simp: CBS_get_any_ber_asn1_element_def der_el_def simp del: der_valid.simps der_element.simps)

theorem der_element_is_ber_witness:
  "CBS_get_any_ber_asn1_element [2, 1, 5, 7] =
     (Some \<lparr>el_out = [2, 1, 5], el_tag = 2, el_header_len = 2, el_ber_found = False,
            el_indefinite = False\<rparr>, [7])"
proof -
  have e: "CBS_get_any_asn1_element [2, 1, 5, 7] =
     (Some \<lparr>el_out = [2, 1, 5], el_tag = 2, el_header_len = 2, el_ber_found = False,
            el_indefinite = False\<rparr>, [7])" by code_simp
  show ?thesis using der_element_is_ber [OF e] by simp
qed

end
