(* ===== verification/Byte_Order.thy ===== *)
theory Byte_Order
  imports Cbs
begin

text \<open>
  Byte order: the loads and stores of \<open>crypto/internal.h\<close> on a little-endian
  machine, and the little-endian readers of \<open>cbs.c\<close>, which read big-endian and
  swap.  A word loaded, swapped and stored is the reversed byte string, so every
  little-endian reader is a codec for the reversed big-endian bytes.
\<close>

section \<open>Loads and stores\<close>

definition CRYPTO_load_u64_le :: "byte list \<Rightarrow> uint64" where
  "CRYPTO_load_u64_le p = of_nat (be_nat (rev (take 8 p)))"

definition CRYPTO_load_u64_be :: "byte list \<Rightarrow> uint64" where
  "CRYPTO_load_u64_be p = CRYPTO_bswap8 (CRYPTO_load_u64_le p)"

section \<open>Swapping reverses the bytes\<close>

lemma less8_cases: "n < (8::nat) \<Longrightarrow> n = 0 \<or> n = 1 \<or> n = 2 \<or> n = 3 \<or> n = 4 \<or> n = 5 \<or> n = 6 \<or> n = 7"
  by linarith

lemma byte_eq_bits: "(\<And>n. n < 8 \<Longrightarrow> bit a n = bit b n) \<Longrightarrow> a = b" for a b :: byte
  by (rule bit_eqI) (simp add: possible_bit_word)

lemma nobit: "LENGTH('a) \<le> n \<Longrightarrow> \<not> bit x n" for x :: "'a::len word"
  by (auto dest: bit_imp_le_length)

lemma bswap2_bytes:
  "(ucast (CRYPTO_bswap2 x) :: byte) = ucast (drop_bit 8 x)"
  "(ucast (drop_bit 8 (CRYPTO_bswap2 x)) :: byte) = ucast x"
  by (rule byte_eq_bits,
      auto simp: CRYPTO_bswap2_def bit_ucast_iff bit_drop_bit_eq bit_or_iff bit_push_bit_iff
        dest: bit_imp_le_length)+

lemma bswap4_bytes:
  "(ucast (CRYPTO_bswap4 x) :: byte) = ucast (drop_bit 24 x)"
  "(ucast (drop_bit 8 (CRYPTO_bswap4 x)) :: byte) = ucast (drop_bit 16 x)"
  "(ucast (drop_bit 16 (CRYPTO_bswap4 x)) :: byte) = ucast (drop_bit 8 x)"
  "(ucast (drop_bit 24 (CRYPTO_bswap4 x)) :: byte) = ucast x"
  by (rule byte_eq_bits, drule less8_cases, elim disjE;
      simp add: CRYPTO_bswap4_def bit_ucast_iff bit_drop_bit_eq bit_or_iff bit_and_iff bit_push_bit_iff Let_def
        possible_bit_word nobit)+

lemma byte_of_wide: "i + 8 \<le> 32 \<Longrightarrow>
   (ucast (drop_bit i (ucast a OR push_bit 32 (ucast b)) :: uint64) :: byte) = ucast (drop_bit i a)"
  "i + 8 \<le> 32 \<Longrightarrow>
   (ucast (drop_bit (32 + i) (ucast a OR push_bit 32 (ucast b)) :: uint64) :: byte) = ucast (drop_bit i b)"
  for a b :: uint32
  by (rule byte_eq_bits, auto simp: bit_ucast_iff bit_drop_bit_eq bit_or_iff bit_push_bit_iff
        dest: bit_imp_le_length)+

lemma byte_of_narrow: "i + 8 \<le> 32 \<Longrightarrow>
   (ucast (drop_bit i (ucast (drop_bit j x) :: uint32)) :: byte) = ucast (drop_bit (j + i) x)"
  for x :: uint64
  by (rule byte_eq_bits, auto simp: bit_ucast_iff bit_drop_bit_eq ac_simps dest: bit_imp_le_length)+

lemma unat_ucast_mod: "unat (ucast v :: byte) = unat v mod 256" for v :: "'a::len word"
  by (simp add: unsigned_ucast_eq take_bit_eq_mod)

lemma nat_be_word: "nat_be k (unat v) = map (\<lambda>i. ucast (drop_bit (8 * i) v)) (rev [0..<k])" for v :: "'a::len word"
proof (induction k arbitrary: v)
  case (Suc k)
  have "[0..<Suc k] = 0 # map Suc [0..<k]" by (simp add: map_Suc_upt upt_conv_Cons del: upt_Suc)
  then have "rev [0..<Suc k] = map Suc (rev [0..<k]) @ [0]" by (simp add: rev_map)
  moreover have "nat_be (Suc k) (unat v) = nat_be k (unat (drop_bit 8 v)) @ [ucast v]"
  proof -
    have "of_nat (unat v mod 256) = (ucast v :: byte)"
      by (rule byte_eqI) (simp add: unat_ucast_mod)
    then show ?thesis by (simp add: unat_drop_bit)
  qed
  ultimately show ?case using Suc [of "drop_bit 8 v"] by (simp add: comp_def add.commute)
qed simp

lemma nat_be_bswap2: "nat_be 2 (unat (CRYPTO_bswap2 v)) = rev (nat_be 2 (unat v))"
  by (simp add: nat_be_word bswap2_bytes numeral_2_eq_2)

lemma nat_be_bswap4: "nat_be 4 (unat (CRYPTO_bswap4 v)) = rev (nat_be 4 (unat v))"
  unfolding nat_be_word using bswap4_bytes [of v] by (simp add: upt_rec)

lemma nat_be_bswap8: "nat_be 8 (unat (CRYPTO_bswap8 v)) = rev (nat_be 8 (unat v))"
  unfolding nat_be_word CRYPTO_bswap8_def 
  using byte_of_wide [of 0] byte_of_wide [of 8] byte_of_wide [of 16] byte_of_wide [of 24]
    byte_of_narrow [of 0 0 v] byte_of_narrow [of 8 0 v] byte_of_narrow [of 16 0 v] byte_of_narrow [of 24 0 v]
    byte_of_narrow [of 0 32 v] byte_of_narrow [of 8 32 v] byte_of_narrow [of 16 32 v] byte_of_narrow [of 24 32 v]
  by (simp add: upt_rec bswap4_bytes)
lemma nat_be_word_inject:
  fixes v w :: "'a::len word"
  assumes "nat_be k (unat v) = nat_be k (unat w)" "LENGTH('a) \<le> 8 * k"
  shows "v = w"
proof -
  have p: "(2::nat) ^ LENGTH('a) \<le> 256 ^ k"
    using power_increasing [OF assms(2), of "2::nat"] by (simp add: power_mult)
  have "unat v < 256 ^ k" "unat w < 256 ^ k"
    using p unsigned_less [of v, where 'a = nat] unsigned_less [of w, where 'a = nat] by linarith+
  moreover have "be_nat (nat_be k (unat v)) = be_nat (nat_be k (unat w))" using assms(1) by simp
  ultimately show ?thesis by (intro byte_eqI) (simp add: be_nat_nat_be)
qed

lemma bswap8_bswap8 [simp]: "CRYPTO_bswap8 (CRYPTO_bswap8 v) = v"
  by (rule nat_be_word_inject [of 8]) (simp_all add: nat_be_bswap8)

lemma bswap4_bswap4 [simp]: "CRYPTO_bswap4 (CRYPTO_bswap4 v) = v"
  by (rule nat_be_word_inject [of 4]) (simp_all add: nat_be_bswap4)

lemma bswap2_bswap2 [simp]: "CRYPTO_bswap2 (CRYPTO_bswap2 v) = v"
  by (rule nat_be_word_inject [of 2]) (simp_all add: nat_be_bswap2)

lemma nat_be_load_le: "length p = 8 \<Longrightarrow> nat_be 8 (unat (CRYPTO_load_u64_le p)) = rev p"
proof -
  assume l: "length p = 8"
  then have "be_nat (rev p) < 18446744073709551616" using be_nat_le8 [of "rev p"] by simp
  then have "unat (CRYPTO_load_u64_le p) = be_nat (rev p)"
    using l by (simp add: CRYPTO_load_u64_le_def unat_of_nat)
  then show ?thesis using nat_be_be_nat [of "rev p"] l by simp
qed

lemma unat_load_be: "length p = 8 \<Longrightarrow> unat (CRYPTO_load_u64_be p) = be_nat p"
proof -
  assume l: "length p = 8"
  then have "nat_be 8 (unat (CRYPTO_load_u64_be p)) = p"
    by (simp add: CRYPTO_load_u64_be_def nat_be_bswap8 nat_be_load_le)
  then have "be_nat (nat_be 8 (unat (CRYPTO_load_u64_be p))) = be_nat p" by simp
  then show ?thesis
    using unsigned_less [of "CRYPTO_load_u64_be p", where 'a = nat] by (simp add: be_nat_nat_be)
qed

section \<open>Little-endian readers\<close>

text \<open>Reading through a bijection of the values.\<close>

lemma codec_swap:
  assumes "codec get put valid" and swap: "\<And>v. f (f v) = v"
    and get': "\<And>c. get' c = (case get c of (None, c') \<Rightarrow> (None, c') | (Some v, c') \<Rightarrow> (Some (f v), c'))"
    and put': "\<And>v. put' v = put (f v)" and valid': "\<And>v. valid' v = valid (f v)"
  shows "codec get' put' valid'"
proof -
  from assms(1) have gp: "\<And>v t. valid v \<Longrightarrow> get (put v @ t) = (Some v, t)"
    and pg: "\<And>s v s'. get s = (Some v, s') \<Longrightarrow> valid v \<and> s = put v @ s'"
    and ne: "\<And>v. valid v \<Longrightarrow> put v \<noteq> []"
    and fs: "\<And>s s'. get s = (None, s') \<Longrightarrow> \<exists>p. s = p @ s'"
    unfolding codec_def by blast+
  show ?thesis
  proof
    fix v t assume "valid' v"
    then show "get' (put' v @ t) = (Some v, t)" using gp [of "f v" t] by (simp add: get' put' valid' swap)
  next
    fix s v s' assume "get' s = (Some v, s')"
    then obtain w where "get s = (Some w, s')" "v = f w"
      by (auto simp: get' split: prod.splits option.splits)
    with pg show "valid' v \<and> s = put' v @ s'" by (simp add: put' valid' swap)
  next
    fix v assume "valid' v" then show "put' v \<noteq> []" using ne by (simp add: put' valid')
  next
    fix s s' assume "get' s = (None, s')"
    then show "\<exists>p. s = p @ s'" using fs by (auto simp: get' split: prod.splits option.splits)
  qed
qed

interpretation u16le: codec CBS_get_u16le "\<lambda>v. rev (nat_be 2 (unat v))" "\<lambda>_. True"
proof (rule codec_swap [OF u16.codec_axioms bswap2_bswap2])
  fix v :: uint16 show "True = (unat (CRYPTO_bswap2 v) < 256 ^ 2)"
    using unsigned_less [of "CRYPTO_bswap2 v", where 'a = nat] by simp
qed (simp_all add: CBS_get_u16le_def nat_be_bswap2)

interpretation u32le: codec CBS_get_u32le "\<lambda>v. rev (nat_be 4 (unat v))" "\<lambda>_. True"
proof (rule codec_swap [OF u32.codec_axioms bswap4_bswap4])
  fix v :: uint32 show "True = (unat (CRYPTO_bswap4 v) < 256 ^ 4)"
    using unsigned_less [of "CRYPTO_bswap4 v", where 'a = nat] by simp
qed (simp_all add: CBS_get_u32le_def nat_be_bswap4)

interpretation u64le: codec CBS_get_u64le "\<lambda>v. rev (nat_be 8 (unat v))" "\<lambda>_. True"
proof (rule codec_swap [OF u64.codec_axioms bswap8_bswap8])
  fix v :: uint64 show "True = (unat (CRYPTO_bswap8 v) < 256 ^ 8)"
    using unsigned_less [of "CRYPTO_bswap8 v", where 'a = nat] by simp
qed (simp_all add: CBS_get_u64le_def CBS_get_u64_def nat_be_bswap8)

end
