(* ===== verification/Asn1_Types.thy ===== *)
theory Asn1_Types
  imports Der Byte_Order
begin

text \<open>
  The typed readers of \<open>crypto/bytestring/cbs.c\<close>: INTEGER as \<open>uint64_t\<close> and
  \<open>int64_t\<close>, BOOLEAN, optional elements and BIT STRING.  Integers are measured
  against minimal two's complement: \<open>strip\<close> drops redundant leading bytes and
  \<open>twos\<close> is the value, and the readers are codecs for the stripped 64-bit
  representation.  Bit strings are measured against the list of bits they denote.
\<close>

section \<open>The readers\<close>

definition CBS_is_valid_asn1_integer :: "cbs \<Rightarrow> bool option" where
  "CBS_is_valid_asn1_integer c =
     (case CBS_get_u8 c of
        (None, _) \<Rightarrow> None
      | (Some first_byte, copy) \<Rightarrow>
          let is_negative = (first_byte AND 0x80 \<noteq> 0)
          in case CBS_get_u8 copy of
               (None, _) \<Rightarrow> Some is_negative
             | (Some second_byte, _) \<Rightarrow>
                 if first_byte = 0 \<and> second_byte AND 0x80 = 0 \<or>
                    first_byte = 0xff \<and> second_byte AND 0x80 \<noteq> 0
                 then None else Some is_negative)"

definition CBS_is_unsigned_asn1_integer :: "cbs \<Rightarrow> bool" where
  "CBS_is_unsigned_asn1_integer c \<longleftrightarrow>
     (case CBS_is_valid_asn1_integer c of None \<Rightarrow> False | Some is_negative \<Rightarrow> \<not> is_negative)"

fun CBS_get_asn1_uint64_loop :: "uint64 \<Rightarrow> byte list \<Rightarrow> uint64 option" where
  "CBS_get_asn1_uint64_loop out [] = Some out"
| "CBS_get_asn1_uint64_loop out (b # bs) =
     (if drop_bit 56 out \<noteq> 0 then None
      else CBS_get_asn1_uint64_loop (push_bit 8 out OR ucast b) bs)"

definition CBS_get_asn1_uint64 :: "cbs \<Rightarrow> uint64 option \<times> cbs" where
  "CBS_get_asn1_uint64 c =
     (case CBS_get_asn1 CBS_ASN1_INTEGER c of
        (None, c) \<Rightarrow> (None, c)
      | (Some bytes, c) \<Rightarrow>
          if \<not> CBS_is_unsigned_asn1_integer bytes then (None, c)
          else (CBS_get_asn1_uint64_loop 0 bytes, c))"

definition CBS_get_asn1_int64 :: "cbs \<Rightarrow> uint64 option \<times> cbs" where
  "CBS_get_asn1_int64 c =
     (case CBS_get_asn1 CBS_ASN1_INTEGER c of
        (None, c) \<Rightarrow> (None, c)
      | (Some bytes, c) \<Rightarrow>
          (case CBS_is_valid_asn1_integer bytes of
             None \<Rightarrow> (None, c)
           | Some is_negative \<Rightarrow>
               let len = length bytes
               in if len > 8 then (None, c)
                  else let sign_extend = replicate 8 (if is_negative then 0xff else 0);
                           sign_extend = take (8 - len) sign_extend @ bytes
                       in (Some (CRYPTO_load_u64_be sign_extend), c)))"

definition CBS_get_asn1_bool :: "cbs \<Rightarrow> bool option \<times> cbs" where
  "CBS_get_asn1_bool c =
     (case CBS_get_asn1 CBS_ASN1_BOOLEAN c of
        (None, c) \<Rightarrow> (None, c)
      | (Some bytes, c) \<Rightarrow>
          if length bytes \<noteq> 1 then (None, c)
          else let v = bytes ! 0
               in if v \<noteq> 0 \<and> v \<noteq> 0xff then (None, c) else (Some (v \<noteq> 0), c))"

definition CBS_get_optional_asn1 :: "uint32 \<Rightarrow> cbs \<Rightarrow> cbs option option \<times> cbs" where
  "CBS_get_optional_asn1 tag c =
     (if CBS_peek_asn1_tag tag c then
        (case CBS_get_asn1 tag c of
           (None, c) \<Rightarrow> (None, c)
         | (Some out, c) \<Rightarrow> (Some (Some out), c))
      else (Some None, c))"

text \<open>The contents and whether the element was present.\<close>

definition CBS_get_optional_asn1_octet_string :: "uint32 \<Rightarrow> cbs \<Rightarrow> (cbs \<times> bool) option \<times> cbs" where
  "CBS_get_optional_asn1_octet_string tag c =
     (case CBS_get_optional_asn1 tag c of
        (None, c) \<Rightarrow> (None, c)
      | (Some None, c) \<Rightarrow> (Some ([], False), c)
      | (Some (Some child), c) \<Rightarrow>
          (case CBS_get_asn1 CBS_ASN1_OCTETSTRING child of
             (None, _) \<Rightarrow> (None, c)
           | (Some out, child) \<Rightarrow>
               if length child \<noteq> 0 then (None, c) else (Some (out, True), c)))"

definition CBS_get_optional_asn1_uint64 :: "uint32 \<Rightarrow> uint64 \<Rightarrow> cbs \<Rightarrow> uint64 option \<times> cbs" where
  "CBS_get_optional_asn1_uint64 tag default_value c =
     (case CBS_get_optional_asn1 tag c of
        (None, c) \<Rightarrow> (None, c)
      | (Some None, c) \<Rightarrow> (Some default_value, c)
      | (Some (Some child), c) \<Rightarrow>
          (case CBS_get_asn1_uint64 child of
             (None, _) \<Rightarrow> (None, c)
           | (Some out, child) \<Rightarrow>
               if length child \<noteq> 0 then (None, c) else (Some out, c)))"

definition CBS_get_optional_asn1_bool :: "uint32 \<Rightarrow> int \<Rightarrow> cbs \<Rightarrow> int option \<times> cbs" where
  "CBS_get_optional_asn1_bool tag default_value c =
     (case CBS_get_optional_asn1 tag c of
        (None, c) \<Rightarrow> (None, c)
      | (Some None, c) \<Rightarrow> (Some default_value, c)
      | (Some (Some child), c) \<Rightarrow>
          (case CBS_get_asn1 CBS_ASN1_BOOLEAN child of
             (None, _) \<Rightarrow> (None, c)
           | (Some child2, child) \<Rightarrow>
               if length child2 \<noteq> 1 \<or> length child \<noteq> 0 then (None, c)
               else if child2 ! 0 = 0 then (Some 0, c)
               else if child2 ! 0 = 0xff then (Some 1, c)
               else (None, c)))"

definition CBS_is_valid_asn1_bitstring :: "cbs \<Rightarrow> bool" where
  "CBS_is_valid_asn1_bitstring c \<longleftrightarrow>
     (case CBS_get_u8 c of
        (None, _) \<Rightarrow> False
      | (Some num_unused_bits, inp) \<Rightarrow>
          if num_unused_bits > 7 then False
          else if num_unused_bits = 0 then True
          else (case CBS_get_last_u8 inp of
                  (None, _) \<Rightarrow> False
                | (Some lst, _) \<Rightarrow> lst AND (push_bit (unat num_unused_bits) 1 - 1) = 0))"

definition CBS_asn1_bitstring_has_bit :: "cbs \<Rightarrow> uint32 \<Rightarrow> bool" where
  "CBS_asn1_bitstring_has_bit c bit_index \<longleftrightarrow>
     (if \<not> CBS_is_valid_asn1_bitstring c then False
      else let byte_num = drop_bit 3 bit_index + 1;
               bit_num = 7 - (bit_index AND 7)
           in unat byte_num < length c \<and>
              c ! unat byte_num AND push_bit (unat bit_num) 1 \<noteq> 0)"

section \<open>Minimal two's complement\<close>

fun strip :: "byte list \<Rightarrow> byte list" where
  "strip (a # b # r) =
     (if a = 0 \<and> unat b < 128 \<or> a = 0xff \<and> 128 \<le> unat b then strip (b # r) else a # b # r)"
| "strip bs = bs"

definition twos :: "byte list \<Rightarrow> int" where
  "twos bs = int (be_nat bs) - (if bs \<noteq> [] \<and> 128 \<le> unat (hd bs) then 256 ^ length bs else 0)"

definition sign_byte :: "byte list \<Rightarrow> byte" where
  "sign_byte bs = (if 128 \<le> unat (hd bs) then 0xff else 0)"

lemma length_strip: "length (strip bs) \<le> length bs"
  by (induction bs rule: strip.induct) auto

lemma strip_fixed: "strip (a # b # r) = a # b # r \<longleftrightarrow> \<not> (a = 0 \<and> unat b < 128 \<or> a = 0xff \<and> 128 \<le> unat b)"
  using length_strip [of "b # r"] by auto

lemma strip_strip [simp]: "strip (strip bs) = strip bs"
  by (induction bs rule: strip.induct) auto

lemma strip_nonempty [simp]: "strip bs = [] \<longleftrightarrow> bs = []"
  by (induction bs rule: strip.induct) auto

lemma strip_sign: "bs \<noteq> [] \<Longrightarrow> (128 \<le> unat (hd (strip bs))) = (128 \<le> unat (hd bs))"
  by (induction bs rule: strip.induct) auto

lemma strip_extend: "bs \<noteq> [] \<Longrightarrow> strip (replicate k (sign_byte bs) @ bs) = strip bs"
proof (induction k)
  case (Suc k)
  then obtain c r where bs: "bs = c # r" by (cases bs) auto
  show ?case using Suc by (cases k) (auto simp: bs sign_byte_def)
qed simp

lemma replicate_snoc_Cons: "replicate k x @ x # xs = replicate (Suc k) x @ xs"
  by (simp add: replicate_app_Cons_same)

lemma extend_strip: "bs \<noteq> [] \<Longrightarrow> bs = replicate (length bs - length (strip bs)) (sign_byte bs) @ strip bs"
proof (induction bs rule: strip.induct)
  case (1 a b r)
  show ?case
  proof (cases "a = 0 \<and> unat b < 128 \<or> a = 0xff \<and> 128 \<le> unat b")
    case True
    have l: "length (strip (b # r)) \<le> length (b # r)" by (rule length_strip)
    have "b # r = replicate (length (b # r) - length (strip (b # r))) (sign_byte (b # r)) @ strip (b # r)"
      using 1 True by blast
    moreover have "sign_byte (a # b # r) = a" "sign_byte (b # r) = a"
      using True by (auto simp: sign_byte_def)
    ultimately have "a # b # r = a # replicate (length (b # r) - length (strip (b # r))) a @ strip (b # r)"
      by simp
    then show ?thesis using True l \<open>sign_byte (a # b # r) = a\<close> by (simp add: Suc_diff_le)
  qed auto
qed auto

lemma twos_sign_extended:
  assumes "a = 0 \<and> unat b < 128 \<or> a = 0xff \<and> 128 \<le> unat b"
  shows "twos (a # b # r) = twos (b # r)"
proof -
  have "be_nat (a # b # r) = unat a * (256 * 256 ^ length r) + be_nat (b # r)"
    by (simp add: be_nat_Cons)
  moreover have "length (a # b # r) = Suc (Suc (length r))" by simp
  ultimately show ?thesis using assms unfolding twos_def
    by (elim disjE) simp_all
qed

lemma twos_strip [simp]: "twos (strip bs) = twos bs"
  by (induction bs rule: strip.induct) (simp_all add: twos_sign_extended)

lemma nat_be_Suc: "nat_be (Suc k) n = of_nat (n div 256 ^ k mod 256) # nat_be k n"
proof (induction k arbitrary: n)
  case (Suc k)
  have "nat_be (Suc (Suc k)) n = nat_be (Suc k) (n div 256) @ [of_nat (n mod 256)]" by simp
  also have "\<dots> = of_nat (n div 256 div 256 ^ k mod 256) # nat_be k (n div 256) @ [of_nat (n mod 256)]"
    by (simp only: Suc append_Cons)
  finally show ?case by (simp add: div_mult2_eq)
qed simp

lemma sint_unat_64: "sint v = (if 2 ^ 63 \<le> unat v then int (unat v) - 2 ^ 64 else int (unat v))"
  for v :: uint64
proof -
  have u: "uint v < 2 ^ 64" "0 \<le> uint v" using unsigned_less [of v, where 'a = int] by simp_all
  have b: "bit (uint v) 63 \<longleftrightarrow> 2 ^ 63 \<le> uint v"
  proof -
    have "uint v div 2 ^ 63 = (if 2 ^ 63 \<le> uint v then 1 else 0)"
      using u by (auto simp: div_pos_geq div_pos_pos_trivial)
    then show ?thesis by (simp add: bit_iff_odd)
  qed
  have "sint v = signed_take_bit 63 (uint v)" by (simp add: sint_uint)
  also have "\<dots> = take_bit 64 (uint v) - 2 ^ 64 * of_bool (bit (uint v) 63)"
    using signed_take_bit_eq_take_bit_minus [of 63 "uint v"] by simp
  also have "take_bit 64 (uint v) = uint v" using u by (simp add: take_bit_int_eq_self)
  finally have "sint v = (if 2 ^ 63 \<le> uint v then uint v - 2 ^ 64 else uint v)"
    using b by simp
  moreover have e: "uint v = int (unat v)" by simp
  moreover have le: "2 ^ 63 \<le> int (unat v) \<longleftrightarrow> 2 ^ 63 \<le> unat v"
    by (rule numeral_power_le_of_nat_cancel_iff)
  ultimately show ?thesis by (simp only: e le)
qed

lemma twos_nat_be_64: "twos (nat_be 8 (unat v)) = sint v" for v :: uint64
proof -
  have less: "unat v < 256 ^ 8" using unsigned_less [of v, where 'a = nat] by simp
  have "nat_be 8 (unat v) = of_nat (unat v div 256 ^ 7 mod 256) # nat_be 7 (unat v)"
    using nat_be_Suc [of 7 "unat v"] by simp
  moreover have "unat v div 256 ^ 7 mod 256 = unat v div 256 ^ 7" using less by simp
  moreover have "be_nat (nat_be 8 (unat v)) = unat v" using less by (simp add: be_nat_nat_be)
  ultimately show ?thesis using less by (auto simp: twos_def sint_unat_64)
qed

section \<open>INTEGER\<close>

lemma CBS_is_valid_asn1_integer_eq:
  "CBS_is_valid_asn1_integer bs =
     (if bs \<noteq> [] \<and> strip bs = bs then Some (128 \<le> unat (hd bs)) else None)"
proof (cases bs)
  case (Cons a bs')
  then show ?thesis
    by (cases bs') (auto simp: CBS_is_valid_asn1_integer_def byte_and_80 strip_fixed not_less
        simp del: strip.simps(1))
qed (simp add: CBS_is_valid_asn1_integer_def)

lemma CBS_is_unsigned_asn1_integer_eq:
  "CBS_is_unsigned_asn1_integer bs \<longleftrightarrow> bs \<noteq> [] \<and> strip bs = bs \<and> unat (hd bs) < 128"
  by (auto simp: CBS_is_unsigned_asn1_integer_def CBS_is_valid_asn1_integer_eq)

lemma drop_bit_56: "drop_bit 56 (v::uint64) = 0 \<longleftrightarrow> unat v < 72057594037927936"
proof -
  have "drop_bit 56 v = 0 \<longleftrightarrow> unat (drop_bit 56 v) = 0" by (simp add: unat_eq_0)
  then show ?thesis by (simp only: unat_drop_bit) (simp add: div_eq_0_iff)
qed

lemma uint64_loop_eq:
  "CBS_get_asn1_uint64_loop v bs =
     (if unat v * 256 ^ length bs + be_nat bs < 18446744073709551616
      then Some (of_nat (unat v * 256 ^ length bs + be_nat bs)) else None)"
proof (induction bs arbitrary: v)
  case Nil
  then show ?case using unsigned_less [of v, where 'a = nat] by simp
next
  case (Cons b bs)
  have e: "unat v * 256 ^ length (b # bs) + be_nat (b # bs) =
      (unat v * 256 + unat b) * 256 ^ length bs + be_nat bs"
    by (simp add: be_nat_Cons algebra_simps)
  show ?case
  proof (cases "unat v < 72057594037927936")
    case True
    have "unat (push_bit 8 v OR ucast b) = unat v * 256 + unat b"
    proof -
      have "unat v * 256 + unat b < 18446744073709551616"
        using True unat_byte_less [of b] by linarith
      then show ?thesis using unat_shift_or [of "ucast b" 8 v] by (simp add: unat_ucast_up)
    qed
    with True Cons [of "push_bit 8 v OR ucast b"] show ?thesis
      unfolding e by (simp add: drop_bit_56)
  next
    case False
    have "18446744073709551616 \<le> (unat v * 256 + unat b) * 1" using False by simp
    also have "\<dots> \<le> (unat v * 256 + unat b) * 256 ^ length bs" by (intro mult_le_mono) simp_all
    finally show ?thesis using False unfolding e by (simp add: drop_bit_56)
  qed
qed

text \<open>The contents octets the readers accept for a value.\<close>

definition uint64_contents :: "uint64 \<Rightarrow> byte list" where
  "uint64_contents v = strip (0 # nat_be 8 (unat v))"

definition int64_contents :: "uint64 \<Rightarrow> byte list" where
  "int64_contents v = strip (nat_be 8 (unat v))"

lemma twos_uint64_contents: "twos (uint64_contents v) = int (unat v)"
proof -
  have "twos (0 # nat_be 8 (unat v)) = int (unat v)"
    using unsigned_less [of v, where 'a = nat] by (simp add: twos_def be_nat_Cons be_nat_nat_be)
  then show ?thesis by (simp only: uint64_contents_def twos_strip)
qed

lemma twos_int64_contents: "twos (int64_contents v) = sint v"
  by (simp add: int64_contents_def twos_nat_be_64)

lemma nat_be_8_nonempty [simp]: "nat_be 8 n \<noteq> []"
  using length_nat_be [of 8 n] by (metis list.size(3) zero_neq_numeral)

lemma uint64_contents_props:
  "strip (uint64_contents v) = uint64_contents v" "uint64_contents v \<noteq> []"
  "unat (hd (uint64_contents v)) < 128" "length (uint64_contents v) \<le> 9"
  using strip_sign [of "0 # nat_be 8 (unat v)"] length_strip [of "0 # nat_be 8 (unat v)"]
  by (simp_all add: uint64_contents_def not_le [symmetric] del: strip.simps)

lemma be_nat_uint64_contents: "be_nat (uint64_contents v) = unat v"
proof -
  have "int (be_nat (uint64_contents v)) = int (unat v)"
    using twos_uint64_contents [of v] uint64_contents_props [of v] by (simp add: twos_def)
  then show ?thesis by (simp only: of_nat_eq_iff)
qed

lemma int64_contents_props:
  "strip (int64_contents v) = int64_contents v" "int64_contents v \<noteq> []"
  "length (int64_contents v) \<le> 8"
  using length_strip [of "nat_be 8 (unat v)"] by (simp_all add: int64_contents_def)

text \<open>A minimal non-negative integer below \<open>2 ^ 64\<close> has at most nine octets.\<close>

lemma minimal_length_9:
  assumes "strip bs = bs" "bs \<noteq> []" "unat (hd bs) < 128" "be_nat bs < 18446744073709551616"
  shows "length bs \<le> 9"
proof (rule ccontr)
  assume "\<not> length bs \<le> 9"
  then obtain a b r where bs: "bs = a # b # r" and l: "8 \<le> length r"
    by (cases bs; cases "tl bs") auto
  have p: "(256::nat) ^ 8 \<le> 256 ^ length r" using l by (intro power_increasing) auto
  have "a \<noteq> 0 \<or> 128 \<le> unat b"
    using assms(1) unfolding bs strip_fixed by linarith
  then have "1 \<le> unat a * 256 + unat b" by (auto simp: Suc_le_eq unat_gt_0)
  then have "1 * 256 ^ 8 \<le> (unat a * 256 + unat b) * 256 ^ length r" using p by (intro mult_le_mono)
  also have "\<dots> \<le> be_nat bs" by (simp add: bs be_nat_Cons algebra_simps)
  finally show False using assms(4) by simp
qed

lemma uint64_contents_unique:
  assumes "strip bs = bs" "bs \<noteq> []" "unat (hd bs) < 128" "be_nat bs = unat v"
  shows "bs = uint64_contents v"
proof -
  have v: "unat v < 18446744073709551616" using unsigned_less [of v, where 'a = nat] by simp
  with assms have l: "length bs \<le> 9" by (intro minimal_length_9) simp_all
  let ?e = "replicate (9 - length bs) 0 @ bs"
  have z: "be_nat (replicate k 0) = 0" for k by (induction k) (simp_all add: be_nat_Cons)
  have "be_nat ?e = unat v" using assms(4) by (simp add: be_nat_append z)
  moreover have "be_nat (0 # nat_be 8 (unat v)) = unat v" using v by (simp add: be_nat_Cons be_nat_nat_be)
  ultimately have "?e = 0 # nat_be 8 (unat v)" using l by (intro be_nat_inject) simp_all
  moreover have "strip ?e = bs"
    using strip_extend [OF assms(2), of "9 - length bs"] assms(1,3) by (simp add: sign_byte_def)
  ultimately show ?thesis by (simp add: uint64_contents_def)
qed

lemma der_valid_small: "tag_valid t \<Longrightarrow> length c \<le> 9 \<Longrightarrow> der_valid (t, c)"
  by simp

lemma tag_valid_universal [simp]:
  "tag_valid CBS_ASN1_BOOLEAN" "tag_valid CBS_ASN1_INTEGER" "tag_valid CBS_ASN1_OCTETSTRING"
  "tag_valid CBS_ASN1_OBJECT"
  by (simp_all add: tag_valid_def)

text \<open>A reader of one element's contents, applied to the element with a fixed tag.\<close>

lemma element_codec:
  assumes get: "\<And>s. get s = (case CBS_get_asn1 tag s of
                  (None, c) \<Rightarrow> (None, c) | (Some bytes, c) \<Rightarrow> (dec bytes, c))"
    and dec: "\<And>bytes v. dec bytes = Some v \<longleftrightarrow> valid v \<and> bytes = contents v"
    and len: "\<And>v. valid v \<Longrightarrow> length (contents v) \<le> 9" and tag: "tag_valid tag"
  shows "codec get (\<lambda>v. der_element (tag, contents v)) valid"
proof
  fix v t assume v: "valid v"
  have "CBS_get_asn1 tag (der_element (tag, contents v) @ t) = (Some (contents v), t)"
    using der_valid_small [OF tag len [OF v]] by (simp add: CBS_get_asn1_Some_iff)
  then show "get (der_element (tag, contents v) @ t) = (Some v, t)" using v by (simp add: get dec)
next
  fix s v s' assume "get s = (Some v, s')"
  then obtain bytes where "CBS_get_asn1 tag s = (Some bytes, s')" "dec bytes = Some v"
    by (auto simp: get split: prod.splits option.splits)
  then show "valid v \<and> s = der_element (tag, contents v) @ s'"
    by (simp only: dec CBS_get_asn1_Some_iff)
next
  fix v assume "valid v"
  with len tag show "der_element (tag, contents v) \<noteq> []"
    by (intro der.put_nonempty der_valid_small)
next
  fix s s' assume "get s = (None, s')"
  then have "\<exists>r. CBS_get_asn1 tag s = (r, s')" by (auto simp: get split: prod.splits option.splits)
  then show "\<exists>p. s = p @ s'" by (auto dest: CBS_get_asn1_suffix)
qed

interpretation asn1_uint64: codec CBS_get_asn1_uint64
    "\<lambda>v. der_element (CBS_ASN1_INTEGER, uint64_contents v)" "\<lambda>_. True"
proof (rule element_codec)
  fix s show "CBS_get_asn1_uint64 s = (case CBS_get_asn1 CBS_ASN1_INTEGER s of
      (None, c) \<Rightarrow> (None, c)
    | (Some bytes, c) \<Rightarrow> (if \<not> CBS_is_unsigned_asn1_integer bytes then None
        else CBS_get_asn1_uint64_loop 0 bytes, c))"
    by (auto simp: CBS_get_asn1_uint64_def split: prod.splits option.splits)
next
  fix bytes v
  show "(if \<not> CBS_is_unsigned_asn1_integer bytes then None else CBS_get_asn1_uint64_loop 0 bytes) = Some v
      \<longleftrightarrow> True \<and> bytes = uint64_contents v" (is "?l = Some v \<longleftrightarrow> _")
  proof
    assume "?l = Some v"
    then have u: "CBS_is_unsigned_asn1_integer bytes" and "be_nat bytes < 18446744073709551616"
      "v = of_nat (be_nat bytes)" by (auto simp: uint64_loop_eq split: if_splits)
    then have "be_nat bytes = unat v" by (simp add: unat_of_nat)
    then show "True \<and> bytes = uint64_contents v"
      using u uint64_contents_unique by (simp add: CBS_is_unsigned_asn1_integer_eq)
  next
    assume "True \<and> bytes = uint64_contents v"
    then show "?l = Some v"
      using unsigned_less [of v, where 'a = nat]
      by (simp add: CBS_is_unsigned_asn1_integer_eq uint64_loop_eq uint64_contents_props
          be_nat_uint64_contents)
  qed
qed (simp_all add: uint64_contents_props)

text \<open>The sign-extended contents.\<close>

lemma nat_be_load_be: "length p = 8 \<Longrightarrow> nat_be 8 (unat (CRYPTO_load_u64_be p)) = p"
  by (simp add: CRYPTO_load_u64_be_def nat_be_bswap8 nat_be_load_le)

lemma sign_extend_int64:
  assumes "strip bs = bs" "bs \<noteq> []" "length bs \<le> 8"
  shows "CRYPTO_load_u64_be (replicate (8 - length bs) (sign_byte bs) @ bs) = v \<longleftrightarrow>
           bs = int64_contents v"
proof
  let ?e = "replicate (8 - length bs) (sign_byte bs) @ bs"
  assume "CRYPTO_load_u64_be ?e = v"
  moreover have "length ?e = 8" using assms(3) by simp
  ultimately have "nat_be 8 (unat v) = ?e" using nat_be_load_be by blast
  then show "bs = int64_contents v"
    using strip_extend [OF assms(2)] assms(1) by (simp add: int64_contents_def)
next
  let ?n = "nat_be 8 (unat v)"
  assume bs: "bs = int64_contents v"
  have "sign_byte ?n = sign_byte bs"
    using strip_sign [of ?n] by (simp add: bs sign_byte_def int64_contents_def)
  then have "?n = replicate (8 - length bs) (sign_byte bs) @ bs"
    using extend_strip [of ?n] by (simp add: bs int64_contents_def)
  moreover have "nat_be 8 (unat (CRYPTO_load_u64_be ?n)) = ?n" by (rule nat_be_load_be) simp
  ultimately have "nat_be 8 (unat (CRYPTO_load_u64_be (replicate (8 - length bs) (sign_byte bs) @ bs))) = ?n"
    by simp
  then show "CRYPTO_load_u64_be (replicate (8 - length bs) (sign_byte bs) @ bs) = v"
    by (rule nat_be_word_inject) simp
qed

interpretation asn1_int64: codec CBS_get_asn1_int64
    "\<lambda>v. der_element (CBS_ASN1_INTEGER, int64_contents v)" "\<lambda>_. True"
proof (rule element_codec)
  let ?dec = "\<lambda>bytes. if bytes \<noteq> [] \<and> strip bytes = bytes \<and> length bytes \<le> 8
    then Some (CRYPTO_load_u64_be (replicate (8 - length bytes) (sign_byte bytes) @ bytes)) else None"
  fix s show "CBS_get_asn1_int64 s = (case CBS_get_asn1 CBS_ASN1_INTEGER s of
      (None, c) \<Rightarrow> (None, c) | (Some bytes, c) \<Rightarrow> (?dec bytes, c))"
    by (auto simp: CBS_get_asn1_int64_def CBS_is_valid_asn1_integer_eq sign_byte_def Let_def
        split: prod.splits option.splits)
  fix bytes v
  show "?dec bytes = Some v \<longleftrightarrow> True \<and> bytes = int64_contents v"
    using sign_extend_int64 [of bytes v] int64_contents_props [of v] by auto
next
  show "length (int64_contents v) \<le> 9" for v
    using int64_contents_props(3) [of v] by simp
qed simp

lemma int64_contents_iff:
  "CBS_is_valid_asn1_integer c \<noteq> None \<and> length c \<le> 8 \<and> twos c = sint v \<longleftrightarrow> c = int64_contents v"
proof
  assume a: "CBS_is_valid_asn1_integer c \<noteq> None \<and> length c \<le> 8 \<and> twos c = sint v"
  then have c: "strip c = c" "c \<noteq> []" "length c \<le> 8"
    by (auto simp: CBS_is_valid_asn1_integer_eq split: if_splits)
  define w where "w = CRYPTO_load_u64_be (replicate (8 - length c) (sign_byte c) @ c)"
  then have "c = int64_contents w" using sign_extend_int64 [OF c, of w] by simp
  moreover from this have "sint w = sint v" using a twos_int64_contents [of w] by simp
  ultimately show "c = int64_contents v" using signed_word_eqI [of w v, where 'a = int] by simp
qed (auto simp: CBS_is_valid_asn1_integer_eq int64_contents_props twos_int64_contents)

lemma uint64_contents_iff:
  "CBS_is_valid_asn1_integer c \<noteq> None \<and> twos c = int (unat v) \<longleftrightarrow> c = uint64_contents v"
proof
  assume a: "CBS_is_valid_asn1_integer c \<noteq> None \<and> twos c = int (unat v)"
  then have c: "strip c = c" "c \<noteq> []" by (auto simp: CBS_is_valid_asn1_integer_eq split: if_splits)
  have "int (be_nat c) < 256 ^ length c" using be_nat_less [of c] by (metis of_nat_less_iff of_nat_numeral of_nat_power)
  moreover have nn: "0 \<le> twos c" using a by simp
  ultimately have hd: "unat (hd c) < 128" using c by (auto simp: twos_def not_less split: if_splits)
  then have "int (be_nat c) = int (unat v)" using a unfolding twos_def by auto
  then have "be_nat c = unat v" by (simp only: of_nat_eq_iff)
  with c hd show "c = uint64_contents v" by (intro uint64_contents_unique)
qed (use twos_uint64_contents in \<open>auto simp: CBS_is_valid_asn1_integer_eq uint64_contents_props\<close>)

section \<open>BOOLEAN\<close>

definition bool_contents :: "bool \<Rightarrow> byte list" where
  "bool_contents v = [if v then 0xff else 0]"

interpretation asn1_bool: codec CBS_get_asn1_bool
    "\<lambda>v. der_element (CBS_ASN1_BOOLEAN, bool_contents v)" "\<lambda>_. True"
proof (rule element_codec)
  let ?dec = "\<lambda>bytes. if length bytes \<noteq> 1 \<or> bytes ! 0 \<noteq> 0 \<and> bytes ! 0 \<noteq> (0xff::byte) then None
    else Some (bytes ! 0 \<noteq> 0)"
  fix s show "CBS_get_asn1_bool s = (case CBS_get_asn1 CBS_ASN1_BOOLEAN s of
      (None, c) \<Rightarrow> (None, c) | (Some bytes, c) \<Rightarrow> (?dec bytes, c))"
    by (auto simp: CBS_get_asn1_bool_def Let_def split: prod.splits option.splits)
  fix bytes v
  show "?dec bytes = Some v \<longleftrightarrow> True \<and> bytes = bool_contents v"
    by (cases bytes; cases "tl bytes") (auto simp: bool_contents_def)
qed (simp_all add: bool_contents_def)

section \<open>Optional elements\<close>

lemma CBS_peek_asn1_tag_iff:
  "CBS_peek_asn1_tag tag s \<longleftrightarrow> tag_valid tag \<and> (\<exists>t. s = tag_bytes tag @ t)"
  unfolding CBS_peek_asn1_tag_def
  by (cases "parse_asn1_tag s"; cases "fst (parse_asn1_tag s)")
    (auto simp: asn1_tag.get_put dest: asn1_tag.put_get)

lemma CBS_peek_der [simp]: "der_valid (tag, c) \<Longrightarrow> CBS_peek_asn1_tag tag (der_element (tag, c) @ t)"
  by (auto simp: CBS_peek_asn1_tag_iff der_header_def)

lemma CBS_get_optional_asn1_present:
  "CBS_get_optional_asn1 tag s = (Some (Some c), s') \<longleftrightarrow>
     der_valid (tag, c) \<and> s = der_element (tag, c) @ s'"
proof -
  have "CBS_get_optional_asn1 tag s = (Some (Some c), s') \<longleftrightarrow>
      CBS_peek_asn1_tag tag s \<and> CBS_get_asn1 tag s = (Some c, s')"
    by (auto simp: CBS_get_optional_asn1_def split: prod.splits option.splits)
  moreover have "CBS_peek_asn1_tag tag s" if "CBS_get_asn1 tag s = (Some c, s')"
    using that CBS_peek_der [of tag c s'] unfolding CBS_get_asn1_Some_iff by blast
  ultimately show ?thesis unfolding CBS_get_asn1_Some_iff by blast
qed

lemma CBS_get_optional_asn1_absent:
  "CBS_get_optional_asn1 tag s = (Some None, s') \<longleftrightarrow>
     s' = s \<and> \<not> (tag_valid tag \<and> (\<exists>t. s = tag_bytes tag @ t))"
  unfolding CBS_get_optional_asn1_def CBS_peek_asn1_tag_iff [symmetric]
  by (auto split: prod.splits option.splits)

lemma CBS_get_optional_asn1_suffix: "CBS_get_optional_asn1 tag s = (r, s') \<Longrightarrow> \<exists>p. s = p @ s'"
  by (auto simp: CBS_get_optional_asn1_def dest: CBS_get_asn1_suffix
      split: prod.splits option.splits if_splits)

lemma CBS_get_optional_asn1_uint64_iff:
  "CBS_get_optional_asn1_uint64 tag d s = (Some v, s') \<longleftrightarrow>
     (let inner = der_element (CBS_ASN1_INTEGER, uint64_contents v)
      in der_valid (tag, inner) \<and> s = der_element (tag, inner) @ s') \<or>
     v = d \<and> s' = s \<and> \<not> (tag_valid tag \<and> (\<exists>t. s = tag_bytes tag @ t))"
proof -
  have "CBS_get_optional_asn1_uint64 tag d s = (Some v, s') \<longleftrightarrow>
     (\<exists>c. CBS_get_optional_asn1 tag s = (Some (Some c), s') \<and> CBS_get_asn1_uint64 c = (Some v, [])) \<or>
     v = d \<and> CBS_get_optional_asn1 tag s = (Some None, s')"
    by (auto simp: CBS_get_optional_asn1_uint64_def split: prod.splits option.splits)
  then show ?thesis
    by (simp add: CBS_get_optional_asn1_present CBS_get_optional_asn1_absent asn1_uint64.get_iff Let_def
        del: der_valid.simps der_element.simps)
qed

lemma optional_bool_step:
  "(case CBS_get_asn1 CBS_ASN1_BOOLEAN child of
      (None, _) \<Rightarrow> (None, c)
    | (Some child2, child) \<Rightarrow>
        if length child2 \<noteq> 1 \<or> length child \<noteq> 0 then (None, c)
        else if child2 ! 0 = 0 then (Some 0, c)
        else if child2 ! 0 = 0xff then (Some 1, c) else (None, c)) =
   (case CBS_get_asn1_bool child of
      (Some b, []) \<Rightarrow> (Some (if b then 1 else 0), c) | _ \<Rightarrow> (None, c))"
proof (cases "CBS_get_asn1 CBS_ASN1_BOOLEAN child")
  case (Pair r rest)
  then show ?thesis
    by (cases r; cases rest) (auto simp: CBS_get_asn1_bool_def Let_def)
qed

lemma CBS_get_optional_asn1_bool_iff:
  "CBS_get_optional_asn1_bool tag d s = (Some v, s') \<longleftrightarrow>
     (\<exists>b. v = (if b then 1 else 0) \<and>
       (let inner = der_element (CBS_ASN1_BOOLEAN, bool_contents b)
        in der_valid (tag, inner) \<and> s = der_element (tag, inner) @ s')) \<or>
     v = d \<and> s' = s \<and> \<not> (tag_valid tag \<and> (\<exists>t. s = tag_bytes tag @ t))"
proof -
  have "CBS_get_optional_asn1_bool tag d s = (Some v, s') \<longleftrightarrow>
     (\<exists>c. CBS_get_optional_asn1 tag s = (Some (Some c), s') \<and>
        (\<exists>b. v = (if b then 1 else 0) \<and> CBS_get_asn1_bool c = (Some b, []))) \<or>
     v = d \<and> CBS_get_optional_asn1 tag s = (Some None, s')"
  proof (cases "CBS_get_optional_asn1 tag s")
    case (Pair r rest)
    consider "r = None" | "r = Some None" | c where "r = Some (Some c)" by (metis option.exhaust)
    then show ?thesis
    proof cases
      case 3
      then show ?thesis using Pair unfolding CBS_get_optional_asn1_bool_def optional_bool_step
        by (cases "CBS_get_asn1_bool c"; cases "fst (CBS_get_asn1_bool c)"; cases "snd (CBS_get_asn1_bool c)") auto
    qed (use Pair in \<open>auto simp: CBS_get_optional_asn1_bool_def\<close>)
  qed
  then show ?thesis
    unfolding CBS_get_optional_asn1_present CBS_get_optional_asn1_absent asn1_bool.get_iff Let_def append_Nil2
    by blast
qed

lemma CBS_get_optional_asn1_octet_string_iff:
  "CBS_get_optional_asn1_octet_string tag s = (Some (v, present), s') \<longleftrightarrow>
     present \<and> (let inner = der_element (CBS_ASN1_OCTETSTRING, v)
      in der_valid (CBS_ASN1_OCTETSTRING, v) \<and> der_valid (tag, inner) \<and>
         s = der_element (tag, inner) @ s') \<or>
     \<not> present \<and> v = [] \<and> s' = s \<and> \<not> (tag_valid tag \<and> (\<exists>t. s = tag_bytes tag @ t))"
proof -
  have "CBS_get_optional_asn1_octet_string tag s = (Some (v, present), s') \<longleftrightarrow>
     present \<and> (\<exists>c. CBS_get_optional_asn1 tag s = (Some (Some c), s') \<and>
        CBS_get_asn1 CBS_ASN1_OCTETSTRING c = (Some v, [])) \<or>
     \<not> present \<and> v = [] \<and> CBS_get_optional_asn1 tag s = (Some None, s')"
    by (auto simp: CBS_get_optional_asn1_octet_string_def split: prod.splits option.splits)
  then show ?thesis
    by (simp add: CBS_get_optional_asn1_present CBS_get_optional_asn1_absent CBS_get_asn1_Some_iff Let_def
        del: der_valid.simps der_element.simps) blast
qed

section \<open>BIT STRING\<close>

text \<open>The bits a bit string denotes, most significant bit first.\<close>

definition byte_bits :: "byte \<Rightarrow> bool list" where
  "byte_bits b = map (\<lambda>i. bit b (7 - i)) [0..<8]"

definition bitstring_bits :: "cbs \<Rightarrow> bool list" where
  "bitstring_bits c = take (8 * (length c - 1) - unat (hd c)) (concat (map byte_bits (tl c)))"

lemma length_byte_bits [simp]: "length (byte_bits b) = 8"
  by (simp add: byte_bits_def)

lemma length_concat_byte_bits [simp]: "length (concat (map byte_bits bs)) = 8 * length bs"
  by (induction bs) auto

lemma nth_concat_byte_bits:
  "i < 8 * length bs \<Longrightarrow> concat (map byte_bits bs) ! i = bit (bs ! (i div 8)) (7 - i mod 8)"
proof (induction bs arbitrary: i)
  case (Cons b bs)
  show ?case
  proof (cases "i < 8")
    case False
    then have i8: "i = 8 + (i - 8)" by simp
    moreover have "(i - 8) div 8 = i div 8 - 1" "(i - 8) mod 8 = i mod 8" "i div 8 = Suc (i div 8 - 1)"
      using False by (simp_all add: le_div_geq le_mod_geq)
    moreover have "(b # bs) ! Suc (i div 8 - 1) = bs ! (i div 8 - 1)" by simp
    moreover have "concat (map byte_bits bs) ! (i - 8) = bit (bs ! ((i - 8) div 8)) (7 - (i - 8) mod 8)"
      using Cons.prems False by (intro Cons.IH) auto
    ultimately show ?thesis using False by (simp add: nth_append)
  qed (simp add: nth_append byte_bits_def)
qed simp

lemma and_low_mask: "k \<le> 7 \<Longrightarrow> b AND (2 ^ k - 1) = 0 \<longleftrightarrow> (\<forall>n<k. \<not> bit b n)" for b :: byte
proof -
  assume k: "k \<le> 7"
  have m: "2 ^ k - 1 = (mask k :: byte)" by (simp add: mask_eq_exp_minus_1)
  have "b AND mask k = 0 \<longleftrightarrow> (\<forall>n. \<not> bit (b AND mask k) n)"
    by (auto intro: bit_eqI)
  also have "\<dots> \<longleftrightarrow> (\<forall>n<k. \<not> bit b n)"
    using k bit_imp_le_length [of b] by (auto simp: bit_and_iff bit_mask_iff possible_bit_word)
  finally show ?thesis unfolding m .
qed

lemma CBS_is_valid_asn1_bitstring_iff:
  "CBS_is_valid_asn1_bitstring c \<longleftrightarrow>
     (\<exists>u bs. c = u # bs \<and> unat u \<le> 7 \<and> (0 < unat u \<longrightarrow> bs \<noteq> []) \<and> (\<forall>n < unat u. \<not> bit (last bs) n))"
proof (cases c)
  case (Cons u bs)
  have "unat u = 0 \<longleftrightarrow> u = 0" by (simp add: unat_eq_0)
  moreover have "u > 7 \<longleftrightarrow> \<not> unat u \<le> 7" by (auto simp: word_less_nat_alt)
  moreover have "CBS_get_last_u8 bs = (if bs = [] then (None, []) else (Some (last bs), butlast bs))"
    by (auto simp: CBS_get_last_u8_def last_conv_nth)
  ultimately show ?thesis
    using Cons and_low_mask [of "unat u" "last bs"] by (auto simp: CBS_is_valid_asn1_bitstring_def)
qed (simp add: CBS_is_valid_asn1_bitstring_def)

lemma CBS_asn1_bitstring_has_bit_iff:
  "CBS_asn1_bitstring_has_bit c i \<longleftrightarrow>
     CBS_is_valid_asn1_bitstring c \<and> unat i < length (bitstring_bits c) \<and> bitstring_bits c ! unat i"
proof (cases "CBS_is_valid_asn1_bitstring c")
  case True
  then obtain u bs where c: "c = u # bs" and u: "unat u \<le> 7" and ne: "0 < unat u \<Longrightarrow> bs \<noteq> []"
    and z: "\<And>n. n < unat u \<Longrightarrow> \<not> bit (last bs) n"
    unfolding CBS_is_valid_asn1_bitstring_iff by auto
  let ?i = "unat i" and ?n = "length bs"
  have i: "?i < 4294967296" using unsigned_less [of i, where 'a = nat] by simp
  have b7: "unat (i AND 7) = ?i mod 8" using unat_and_mask [of i 3] by (simp add: mask_eq_exp_minus_1)
  have bn: "unat (drop_bit 3 i + 1) = Suc (?i div 8)"
    using i by (simp add: unat_word_ariths unat_drop_bit)
  have m: "unat (7 - (i AND 7)) = 7 - ?i mod 8"
    using b7 by (subst unat_sub) (simp_all add: word_le_nat_alt)
  have has: "CBS_asn1_bitstring_has_bit c i \<longleftrightarrow> ?i div 8 < ?n \<and> bit (bs ! (?i div 8)) (7 - ?i mod 8)"
    using True by (simp add: CBS_asn1_bitstring_has_bit_def Let_def bn m and_exp_eq_0_iff_not_bit c)
  have len: "length (bitstring_bits c) = 8 * ?n - unat u" by (simp add: bitstring_bits_def c)
  show ?thesis
  proof (cases "?i < 8 * ?n - unat u")
    case True
    then have "bitstring_bits c ! ?i = bit (bs ! (?i div 8)) (7 - ?i mod 8)" "?i div 8 < ?n"
      by (simp_all add: bitstring_bits_def c nth_concat_byte_bits)
    with True has \<open>CBS_is_valid_asn1_bitstring c\<close> len show ?thesis by simp
  next
    case False
    have "\<not> bit (bs ! (?i div 8)) (7 - ?i mod 8)" if "?i div 8 < ?n"
    proof -
      have "8 * (?i div 8) + ?i mod 8 = ?i" by simp
      with False that u have d: "?i div 8 = ?n - 1" and lt: "7 - ?i mod 8 < unat u" by linarith+
      with ne have "bs ! (?i div 8) = last bs" by (simp add: last_conv_nth)
      with z [OF lt] show ?thesis by simp
    qed
    with False has len show ?thesis by auto
  qed
qed (simp add: CBS_asn1_bitstring_has_bit_def)

section \<open>Properties\<close>


text \<open>The \<open>uint64_t\<close> reader returns \<open>v\<close> exactly when the input starts with a DER INTEGER whose contents
  are a minimal two's complement representation of \<open>v\<close>, whatever their length: no value below
  \<open>2 ^ 64\<close> is refused and no larger or negative one is accepted.\<close>

theorem CBS_get_asn1_uint64_value:
  "CBS_get_asn1_uint64 s = (Some v, s') \<longleftrightarrow>
     (\<exists>c. s = der_element (CBS_ASN1_INTEGER, c) @ s' \<and> CBS_is_valid_asn1_integer c \<noteq> None \<and>
          twos c = int (unat v))"
  by (simp only: asn1_uint64.get_iff uint64_contents_iff simp_thms) blast

text \<open>The bit test on a BIT STRING agrees with the list of bits it denotes: bit \<open>i\<close> is reported exactly
  when the string is valid, has more than \<open>i\<close> bits, and its \<open>i\<close>-th bit, counted from the most
  significant one, is set.\<close>

theorem bitstring_has_bit_spec:
  "CBS_asn1_bitstring_has_bit c i \<longleftrightarrow>
     CBS_is_valid_asn1_bitstring c \<and> unat i < length (bitstring_bits c) \<and> bitstring_bits c ! unat i"
  by (rule CBS_asn1_bitstring_has_bit_iff)

text \<open>An optional, explicitly tagged integer is either there, complete and with nothing after it inside
  its wrapper, or the input does not start with its tag, nothing is consumed and the default is
  returned.\<close>

theorem optional_uint64_spec:
  "CBS_get_optional_asn1_uint64 tag d s = (Some v, s') \<longleftrightarrow>
     (let inner = der_element (CBS_ASN1_INTEGER, uint64_contents v)
      in der_valid (tag, inner) \<and> s = der_element (tag, inner) @ s') \<or>
     v = d \<and> s' = s \<and> \<not> (tag_valid tag \<and> (\<exists>t. s = tag_bytes tag @ t))"
  by (rule CBS_get_optional_asn1_uint64_iff)

end
