(* ===== verification/Posix_Time.thy ===== *)
theory Posix_Time
  imports Prelude "HOL-Library.Signed_Division"
begin

text \<open>
  Calendar time, \<open>crypto/asn1/posix_time.c\<close>.  The 64-bit integers of the code are
  integers here: the range checks come first in every function, and the lemmas on the
  results show that every value stays far inside the 64-bit range; the two additions that
  can leave it, in \<open>OPENSSL_gmtime_adj\<close>, carry the code's own overflow guards.  C
  division and remainder truncate towards zero and are \<open>sdiv\<close> and \<open>smod\<close>.  Of
  \<open>struct tm\<close> the six fields that these functions read are modelled.  The reference
  is the count of days of the proleptic Gregorian calendar, year by year and month by month.
\<close>

section \<open>The code\<close>

record tm =
  tm_year :: int
  tm_mon :: int
  tm_mday :: int
  tm_hour :: int
  tm_min :: int
  tm_sec :: int

abbreviation (input) SECS_PER_HOUR :: int where "SECS_PER_HOUR \<equiv> 3600"
abbreviation (input) SECS_PER_DAY :: int where "SECS_PER_DAY \<equiv> 86400"
abbreviation (input) MIN_POSIX_TIME :: int where "MIN_POSIX_TIME \<equiv> - 62167219200"
abbreviation (input) MAX_POSIX_TIME :: int where "MAX_POSIX_TIME \<equiv> 253402300799"
abbreviation (input) INT64_MAX :: int where "INT64_MAX \<equiv> 9223372036854775807"
abbreviation (input) INT64_MIN :: int where "INT64_MIN \<equiv> - 9223372036854775808"

definition is_leap :: "int \<Rightarrow> bool" where
  "is_leap year \<longleftrightarrow> (year smod 4 = 0 \<and> year smod 100 \<noteq> 0) \<or> year smod 400 = 0"

definition is_valid_date :: "int \<Rightarrow> int \<Rightarrow> int \<Rightarrow> bool" where
  "is_valid_date year month day \<longleftrightarrow>
     (if day < 1 \<or> month < 1 \<or> year < 0 \<or> year > 9999 then False
      else if month = 1 \<or> month = 3 \<or> month = 5 \<or> month = 7 \<or> month = 8 \<or> month = 10 \<or> month = 12
        then day > 0 \<and> day \<le> 31
      else if month = 4 \<or> month = 6 \<or> month = 9 \<or> month = 11 then day > 0 \<and> day \<le> 30
      else if month = 2 then (if is_leap year then day > 0 \<and> day \<le> 29 else day > 0 \<and> day \<le> 28)
      else False)"

definition is_valid_time :: "int \<Rightarrow> int \<Rightarrow> int \<Rightarrow> bool" where
  "is_valid_time hours minutes seconds \<longleftrightarrow>
     (if hours < 0 \<or> minutes < 0 \<or> seconds < 0 \<or> hours > 23 \<or> minutes > 59 \<or> seconds > 59
      then False else True)"

definition is_valid_posix_time :: "int \<Rightarrow> bool" where
  "is_valid_posix_time time \<longleftrightarrow> MIN_POSIX_TIME \<le> time \<and> time \<le> MAX_POSIX_TIME"

definition posix_time_from_utc :: "int \<Rightarrow> int \<Rightarrow> int \<Rightarrow> int \<Rightarrow> int \<Rightarrow> int \<Rightarrow> int option" where
  "posix_time_from_utc year month day hours minutes seconds =
     (if \<not> is_valid_date year month day \<or> \<not> is_valid_time hours minutes seconds then None
      else
        let year = (if month \<le> 2 then year - 1 else year);
            era = (if year \<ge> 0 then year else year - 399) sdiv 400;
            year_of_era = year - era * 400;
            day_of_year = (153 * (if month > 2 then month - 3 else month + 9) + 2) sdiv 5 + day - 1;
            day_of_era = year_of_era * 365 + year_of_era sdiv 4 - year_of_era sdiv 100 + day_of_year;
            posix_days = era * 146097 + day_of_era - 719468
        in Some (posix_days * SECS_PER_DAY + hours * SECS_PER_HOUR + minutes * 60 + seconds))"

definition utc_from_posix_time :: "int \<Rightarrow> (int \<times> int \<times> int \<times> int \<times> int \<times> int) option" where
  "utc_from_posix_time time =
     (if \<not> is_valid_posix_time time then None
      else
        let days = time sdiv SECS_PER_DAY;
            leftover_seconds = time smod SECS_PER_DAY;
            (days, leftover_seconds) =
              (if leftover_seconds < 0 then (days - 1, leftover_seconds + SECS_PER_DAY)
               else (days, leftover_seconds));
            days = days + 719468;
            era = (if days > 0 then days else days - 146096) sdiv 146097;
            day_of_era = days - era * 146097;
            year_of_era = (day_of_era - day_of_era sdiv 1460 + day_of_era sdiv 36524 -
                           day_of_era sdiv 146096) sdiv 365;
            year = year_of_era + era * 400;
            day_of_year = day_of_era - (365 * year_of_era + year_of_era sdiv 4 - year_of_era sdiv 100);
            month_of_year = (5 * day_of_year + 2) sdiv 153;
            month = (if month_of_year < 10 then month_of_year + 3 else month_of_year - 9);
            year = (if month \<le> 2 then year + 1 else year);
            day = day_of_year - (153 * month_of_year + 2) sdiv 5 + 1;
            hours = leftover_seconds sdiv SECS_PER_HOUR;
            leftover_seconds = leftover_seconds smod SECS_PER_HOUR
        in Some (year, month, day, hours, leftover_seconds sdiv 60, leftover_seconds smod 60))"

definition OPENSSL_tm_to_posix :: "tm \<Rightarrow> int option" where
  "OPENSSL_tm_to_posix t =
     posix_time_from_utc (tm_year t + 1900) (tm_mon t + 1) (tm_mday t) (tm_hour t) (tm_min t) (tm_sec t)"

definition OPENSSL_posix_to_tm :: "int \<Rightarrow> tm option" where
  "OPENSSL_posix_to_tm time =
     (case utc_from_posix_time time of
        None \<Rightarrow> None
      | Some (year, month, day, hours, minutes, seconds) \<Rightarrow>
          Some \<lparr>tm_year = year - 1900, tm_mon = month - 1, tm_mday = day,
                tm_hour = hours, tm_min = minutes, tm_sec = seconds\<rparr>)"

text \<open>\<open>time_t\<close> has 64 bits or, on some platforms, 32.\<close>

definition OPENSSL_timegm :: "bool \<Rightarrow> tm \<Rightarrow> int option" where
  "OPENSSL_timegm time_t_is_32 t =
     (case OPENSSL_tm_to_posix t of
        None \<Rightarrow> None
      | Some posix_time \<Rightarrow>
          if time_t_is_32 \<and> (posix_time > 2147483647 \<or> posix_time < - 2147483648) then None
          else Some posix_time)"

definition OPENSSL_gmtime :: "int \<Rightarrow> tm option" where
  "OPENSSL_gmtime time = OPENSSL_posix_to_tm time"

definition OPENSSL_gmtime_adj :: "tm \<Rightarrow> int \<Rightarrow> int \<Rightarrow> tm option" where
  "OPENSSL_gmtime_adj t offset_day offset_sec =
     (case OPENSSL_tm_to_posix t of
        None \<Rightarrow> None
      | Some posix_time \<Rightarrow>
          let posix_time = posix_time + offset_day * SECS_PER_DAY
          in if posix_time > 0 \<and> offset_sec > INT64_MAX - posix_time then None
             else if posix_time < 0 \<and> offset_sec < INT64_MIN - posix_time then None
             else OPENSSL_posix_to_tm (posix_time + offset_sec))"

definition OPENSSL_gmtime_diff :: "tm \<Rightarrow> tm \<Rightarrow> (int \<times> int) option" where
  "OPENSSL_gmtime_diff from_tm to_tm =
     (case OPENSSL_tm_to_posix to_tm of
        None \<Rightarrow> None
      | Some time_to \<Rightarrow>
          (case OPENSSL_tm_to_posix from_tm of
             None \<Rightarrow> None
           | Some time_from \<Rightarrow>
               let timediff = time_to - time_from;
                   daydiff = timediff sdiv SECS_PER_DAY
               in Some (daydiff, timediff smod SECS_PER_DAY)))"


section \<open>The calendar\<close>

text \<open>Days of a month and of a year, and the days elapsed since 0000-01-01.\<close>

definition leap_year :: "nat \<Rightarrow> bool" where
  "leap_year y \<longleftrightarrow> 4 dvd y \<and> (\<not> 100 dvd y \<or> 400 dvd y)"

definition month_days :: "nat \<Rightarrow> nat \<Rightarrow> nat" where
  "month_days y m =
     (if m = 2 then (if leap_year y then 29 else 28)
      else if m \<in> {4, 6, 9, 11} then 30 else 31)"

definition year_days :: "nat \<Rightarrow> nat" where
  "year_days y = (\<Sum>m\<leftarrow>[1..<13]. month_days y m)"

definition civil_days :: "nat \<Rightarrow> nat \<Rightarrow> nat \<Rightarrow> nat" where
  "civil_days y m d = (\<Sum>i\<leftarrow>[0..<y]. year_days i) + (\<Sum>j\<leftarrow>[1..<m]. month_days y j) + (d - 1)"

definition civil_valid :: "nat \<Rightarrow> nat \<Rightarrow> nat \<Rightarrow> bool" where
  "civil_valid y m d \<longleftrightarrow> y \<le> 9999 \<and> 1 \<le> m \<and> m \<le> 12 \<and> 1 \<le> d \<and> d \<le> month_days y m"

lemma sdiv_nonneg: "0 \<le> a \<Longrightarrow> 0 < b \<Longrightarrow> a sdiv b = a div b" for a b :: int
  by (cases "a = 0") (simp_all add: signed_divide_int_def)

lemma smod_nonneg: "0 \<le> a \<Longrightarrow> 0 < b \<Longrightarrow> a smod b = a mod b" for a b :: int
  by (cases "a = 0") (auto simp: signed_modulo_int_def)

lemma is_leap_iff: "is_leap (int y) \<longleftrightarrow> leap_year y"
proof -
  have "int y mod 4 = 0 \<longleftrightarrow> 4 dvd y" "int y mod 100 = 0 \<longleftrightarrow> 100 dvd y" "int y mod 400 = 0 \<longleftrightarrow> 400 dvd y"
    by (metis dvd_eq_mod_eq_0 int_dvd_int_iff of_nat_numeral)+
  moreover have "400 dvd y \<Longrightarrow> 4 dvd y" by (rule dvd_trans [of 4 400]) simp_all
  ultimately show ?thesis by (auto simp: is_leap_def leap_year_def smod_nonneg)
qed

lemma months: "[1..<13] = [1, 2, 3, 4, 5, 6, 7, 8, 9, 10, 11, 12::nat]"
  by code_simp

lemma months_upt:
  "[Suc 0..<2] = [1]"
  "[Suc 0..<3] = [1, 2]"
  "[Suc 0..<4] = [1, 2, 3]"
  "[Suc 0..<5] = [1, 2, 3, 4]"
  "[Suc 0..<6] = [1, 2, 3, 4, 5]"
  "[Suc 0..<7] = [1, 2, 3, 4, 5, 6]"
  "[Suc 0..<8] = [1, 2, 3, 4, 5, 6, 7]"
  "[Suc 0..<9] = [1, 2, 3, 4, 5, 6, 7, 8]"
  "[Suc 0..<10] = [1, 2, 3, 4, 5, 6, 7, 8, 9]"
  "[Suc 0..<11] = [1, 2, 3, 4, 5, 6, 7, 8, 9, 10]"
  "[Suc 0..<12] = [1, 2, 3, 4, 5, 6, 7, 8, 9, 10, 11]"
  "[Suc 0..<13] = [1, 2, 3, 4, 5, 6, 7, 8, 9, 10, 11, 12]"
  by code_simp+

lemma month_12:
  assumes "1 \<le> (m::nat)" "m \<le> 12"
  shows "m = 1 \<or> m = 2 \<or> m = 3 \<or> m = 4 \<or> m = 5 \<or> m = 6 \<or>
         m = 7 \<or> m = 8 \<or> m = 9 \<or> m = 10 \<or> m = 11 \<or> m = 12"
proof -
  have "m \<in> set [1..<13]" using assms by simp
  then show ?thesis unfolding months by simp
qed

lemma is_valid_date_nat:
  assumes "1 \<le> m" "m \<le> 12"
  shows "is_valid_date (int y) (int m) (int d) \<longleftrightarrow> y \<le> 9999 \<and> 1 \<le> d \<and> d \<le> month_days y m"
proof -
  have num: "int m = 1 \<longleftrightarrow> m = 1" "int m = 2 \<longleftrightarrow> m = 2" "int m = 3 \<longleftrightarrow> m = 3" "int m = 4 \<longleftrightarrow> m = 4"
    "int m = 5 \<longleftrightarrow> m = 5" "int m = 6 \<longleftrightarrow> m = 6" "int m = 7 \<longleftrightarrow> m = 7" "int m = 8 \<longleftrightarrow> m = 8"
    "int m = 9 \<longleftrightarrow> m = 9" "int m = 10 \<longleftrightarrow> m = 10" "int m = 11 \<longleftrightarrow> m = 11" "int m = 12 \<longleftrightarrow> m = 12"
    by simp_all
  have le: "int d < 1 \<longleftrightarrow> d = 0" "0 < int d \<longleftrightarrow> d \<noteq> 0" "int d \<le> numeral k \<longleftrightarrow> d \<le> numeral k"
    "int m < 1 \<longleftrightarrow> False" "int y < 0 \<longleftrightarrow> False" "int y > 9999 \<longleftrightarrow> \<not> y \<le> 9999" for k
    using assms by auto
  have d: "1 \<le> d \<longleftrightarrow> d \<noteq> 0" by auto
  consider "m = 2" | "m = 4 \<or> m = 6 \<or> m = 9 \<or> m = 11"
    | "m = 1 \<or> m = 3 \<or> m = 5 \<or> m = 7 \<or> m = 8 \<or> m = 10 \<or> m = 12"
    using month_12 [OF assms] by blast
  then show ?thesis
    unfolding is_valid_date_def num le d is_leap_iff month_days_def
    by cases auto
qed

lemma is_valid_date_iff:
  "is_valid_date year month day \<longleftrightarrow>
     0 \<le> year \<and> 0 \<le> month \<and> 0 \<le> day \<and> civil_valid (nat year) (nat month) (nat day)"
proof (cases "0 \<le> year \<and> 1 \<le> month \<and> month \<le> 12 \<and> 0 \<le> day")
  case True
  then obtain y m d where n: "year = int y" "month = int m" "day = int d"
    by (metis zero_le_imp_eq_int order_trans zero_le_one)
  with True have "1 \<le> m" "m \<le> 12" by auto
  then show ?thesis using is_valid_date_nat [of m y d] by (simp add: n civil_valid_def)
next
  case False
  have "\<not> is_valid_date year month day"
  proof (cases "month \<le> 12")
    case True
    with False have "day < 1 \<or> month < 1 \<or> year < 0 \<or> year > 9999" by linarith
    then show ?thesis unfolding is_valid_date_def by (simp only: if_True simp_thms)
  next
    case False
    then show ?thesis unfolding is_valid_date_def by simp
  qed
  moreover have "\<not> (0 \<le> year \<and> 0 \<le> month \<and> 0 \<le> day \<and> civil_valid (nat year) (nat month) (nat day))"
    using False by (auto simp: civil_valid_def)
  ultimately show ?thesis by blast
qed

lemma divI: "b * k \<le> a \<Longrightarrow> a < b * k + b \<Longrightarrow> a div b = k" for a b k :: int
  by (rule int_div_pos_eq [of a b k "a - b * k"]) auto


lemma div_pred:
  fixes y :: nat and k :: nat
  assumes "0 < k"
  shows "int y div int k = (int y - 1) div int k + (if k dvd y then 1 else 0)"
proof -
  obtain j r where y: "y = k * j + r" and r: "r < k"
    using assms by (metis mod_less_divisor mult_div_mod_eq)
  have "int y div int k = int j" using r by (intro divI) (simp_all add: y)
  moreover have "(int y - 1) div int k = (if r = 0 then int j - 1 else int j)"
    using r assms by (intro divI) (simp_all add: y algebra_simps)
  moreover have "k dvd y \<longleftrightarrow> r = 0" using r by (auto simp: y mult.commute [of k] dest: dvd_imp_le)
  ultimately show ?thesis by auto
qed

text \<open>Days before year \<open>Y\<close>, up to a constant, in closed form.\<close>

definition year_offset :: "int \<Rightarrow> int" where
  "year_offset Y = 365 * Y + Y div 4 - Y div 100 + Y div 400"

lemma year_days_eq: "year_days y = (if leap_year y then 366 else 365)"
  by (simp add: year_days_def months_upt month_days_def)

lemma offset_arith:
  "A = A' + a \<Longrightarrow> B = B' + b \<Longrightarrow> C = C' + c \<Longrightarrow> d = a - b + c + 365 \<Longrightarrow>
   365 * Y + A - B + C = 365 * (Y - 1) + A' - B' + C' + d" for A :: int
  by simp

lemma leap_count_bool:
  "(R \<Longrightarrow> Q) \<Longrightarrow> (Q \<Longrightarrow> P) \<Longrightarrow>
   int (if P \<and> (\<not> Q \<or> R) then 366 else 365) =
   (if P then 1 else 0) - (if Q then 1 else 0) + (if R then 1 else 0) + 365"
  by (cases P; cases Q; cases R; simp)

lemma leap_count:
  "int (year_days y) =
     (if 4 dvd y then 1 else 0) - (if 100 dvd y then 1 else 0) + (if 400 dvd y then 1 else 0) + 365"
  unfolding year_days_eq leap_year_def
proof (rule leap_count_bool)
  show "100 dvd y" if "400 dvd y" using dvd_trans [of 100 400 y] that by simp
  show "4 dvd y" if "100 dvd y" using dvd_trans [of 4 100 y] that by simp
qed

lemma year_offset_step: "year_offset (int y) = year_offset (int y - 1) + int (year_days y)"
proof -
  have d: "int y div 4 = (int y - 1) div 4 + (if 4 dvd y then 1 else 0)"
    "int y div 100 = (int y - 1) div 100 + (if 100 dvd y then 1 else 0)"
    "int y div 400 = (int y - 1) div 400 + (if 400 dvd y then 1 else 0)"
    using div_pred [of 4 y] div_pred [of 100 y] div_pred [of 400 y]
    by (simp_all only: of_nat_numeral zero_less_numeral simp_thms)
  show ?thesis unfolding year_offset_def by (rule offset_arith [OF d leap_count])
qed

lemma sum_year_days: "int (\<Sum>i\<leftarrow>[0..<y]. year_days i) = year_offset (int y - 1) + 366"
proof (induction y)
  case (Suc y)
  then show ?case using year_offset_step [of y] by simp
qed (simp add: year_offset_def)

text \<open>Days of the year before a month, from January and from March.\<close>

lemma month_offset:
  assumes "1 \<le> m" "m \<le> 12"
  shows "int (\<Sum>j\<leftarrow>[1..<m]. month_days y j) =
    (if m \<le> 2 then 31 * (int m - 1)
     else (153 * (int m - 3) + 2) div 5 + 59 + (if leap_year y then 1 else 0))"
proof -
  show ?thesis
    using month_12 [OF assms] by (elim disjE; simp add: months_upt month_days_def)
qed

section \<open>Years that start in March\<close>

text \<open>The 400-year cycle.\<close>

lemma year_offset_era:
  assumes "Y = 400 * e + r" "0 \<le> r" "r < 400"
  shows "year_offset Y = 146097 * e + (365 * r + r div 4 - r div 100)"
proof -
  have "Y div 4 = 100 * e + r div 4" "Y div 100 = 4 * e + r div 100" "Y div 400 = e"
    using assms(2,3) div_mult_self4 [of 4 "100 * e" r] div_mult_self4 [of 100 "4 * e" r]
    by (simp_all add: assms(1))
  then show ?thesis by (simp only: year_offset_def assms(1)) (simp add: algebra_simps)
qed

lemma yoe_of_doe:
  fixes c q s doy :: int
  assumes "0 \<le> c" "c \<le> 3" "0 \<le> q" "q \<le> 24" "0 \<le> s" "s \<le> 3" "0 \<le> doy" "doy \<le> 365"
    and leap: "doy = 365 \<Longrightarrow> s = 3 \<and> (q = 24 \<longrightarrow> c = 3)"
  defines "doe \<equiv> 36524 * c + 1461 * q + 365 * s + doy"
  shows "(doe - doe div 1460 + doe div 36524 - doe div 146096) div 365 = 100 * c + 4 * q + s"
proof -
  let ?r = "24 * c + q + 365 * s + doy"
  define d where "d = (if 1460 \<le> ?r then 1 else 0 :: int)"
  have d1: "doe div 1460 = 25 * c + q + d"
    using assms by (intro divI) (auto simp: d_def doe_def)
  have d2: "doe div 36524 - doe div 146096 = c"
  proof (cases "doe = 146096")
    case True
    then have "c = 3" using assms unfolding doe_def by linarith
    with True show ?thesis by simp
  next
    case False
    have "1461 * q + 365 * s + doy < 36524"
    proof (cases "doy = 365")
      case True
      then have s: "s = 3" "q = 24 \<longrightarrow> c = 3" using leap by blast+
      show ?thesis
      proof (cases "q = 24")
        case True
        with s \<open>doy = 365\<close> False show ?thesis by (simp add: doe_def)
      next
        case False
        with s \<open>doy = 365\<close> \<open>q \<le> 24\<close> show ?thesis by linarith
      qed
    qed (use assms in linarith)
    then have "doe div 36524 = c"
      using assms False by (intro divI) (auto simp: doe_def)
    moreover have "doe div 146096 = 0" using assms False by (intro divI) (auto simp: doe_def)
    ultimately show ?thesis by simp
  qed
  have "0 \<le> doy - d \<and> doy - d \<le> 364"
  proof (cases "doy = 365")
    case True
    then show ?thesis using leap assms(1,3) by (simp add: d_def)
  next
    case False
    then show ?thesis using assms by (auto simp: d_def)
  qed
  then have "(doe - (25 * c + q + d) + c) div 365 = 100 * c + 4 * q + s"
    by (intro divI) (auto simp: doe_def)
  then show ?thesis using d1 d2 by (simp add: algebra_simps)
qed

text \<open>A date as the code sees it: the year \<open>Y\<close> that starts on March 1st, its month \<open>mp\<close>, the day.\<close>

definition march_year :: "nat \<Rightarrow> nat \<Rightarrow> int" where
  "march_year y m = (if m \<le> 2 then int y - 1 else int y)"

definition march_month :: "nat \<Rightarrow> int" where
  "march_month m = (if m > 2 then int m - 3 else int m + 9)"

definition march_day :: "nat \<Rightarrow> nat \<Rightarrow> int" where
  "march_day m d = (153 * march_month m + 2) div 5 + int d - 1"

lemma civil_days_march:
  assumes "civil_valid y m d"
  shows "int (civil_days y m d) = year_offset (march_year y m) + 60 + march_day m d"
proof -
  have m: "1 \<le> m" "m \<le> 12" and d: "1 \<le> d" using assms by (simp_all add: civil_valid_def)
  have c: "int (civil_days y m d) =
      year_offset (int y - 1) + 366 + int (\<Sum>j\<leftarrow>[1..<m]. month_days y j) + (int d - 1)"
    using d by (simp add: civil_days_def sum_year_days of_nat_diff)
  show ?thesis
  proof (cases "m \<le> 2")
    case True
    then have "m = 1 \<or> m = 2" using m by auto
    then show ?thesis
      unfolding c month_offset [OF m] by (elim disjE) (simp_all add: march_year_def march_day_def march_month_def)
  next
    case False
    then show ?thesis
      using year_offset_step [of y]
      unfolding c month_offset [OF m] by (simp add: march_year_def march_day_def march_month_def year_days_eq)
  qed
qed

lemma month_days_le: "month_days y m \<le> 31"
  by (simp add: month_days_def)

lemma march_day_bounds:
  assumes "civil_valid y m d"
  shows "0 \<le> march_day m d" "march_day m d \<le> 365"
    and "march_day m d = 365 \<Longrightarrow> m = 2 \<and> d = 29"
    and "(5 * march_day m d + 2) div 153 = march_month m"
proof -
  have m: "1 \<le> m" "m \<le> 12" and d: "1 \<le> d" "d \<le> month_days y m"
    using assms by (simp_all add: civil_valid_def)
  have d': "int d \<le> (if m = 2 then 29 else if m \<in> {4, 6, 9, 11} then 30 else 31)"
    using d(2) by (auto simp: month_days_def split: if_splits)
  have "0 \<le> march_day m d \<and> march_day m d \<le> 365 \<and> (march_day m d = 365 \<longrightarrow> m = 2 \<and> d = 29) \<and>
    (5 * march_day m d + 2) div 153 = march_month m"
    using month_12 [OF m] d(1) d'
    by (elim disjE) (simp_all add: march_day_def march_month_def divI)
  then show "0 \<le> march_day m d" "march_day m d \<le> 365"
    "march_day m d = 365 \<Longrightarrow> m = 2 \<and> d = 29" "(5 * march_day m d + 2) div 153 = march_month m"
    by blast+
qed

section \<open>The conversions count days\<close>

lemma floor_era:
  fixes Y k j :: int
  assumes "0 < k" "j = k - 1"
  shows "(if Y \<ge> 0 then Y else Y - j) sdiv k = Y div k"
proof (cases "Y \<ge> 0")
  case False
  have "(Y - j) sdiv k = - ((k - 1 - Y) div k)"
    using False assms by (simp add: signed_divide_int_def)
  moreover have "- ((k - 1 - Y) div k) = Y div k"
  proof -
    obtain q r where Y: "Y = k * q + r" "0 \<le> r" "r < k"
      using assms by (metis mult_div_mod_eq pos_mod_bound pos_mod_sign)
    have "(k - 1 - Y) div k = - q" using Y by (intro divI) simp_all
    moreover have "Y div k = q" using Y by (intro divI) simp_all
    ultimately show ?thesis by simp
  qed
  ultimately show ?thesis using False by simp
qed (simp add: sdiv_nonneg assms)

lemma posix_time_from_utc_eq:
  assumes d: "civil_valid y m d" and t: "is_valid_time h mi sec"
  shows "posix_time_from_utc (int y) (int m) (int d) h mi sec =
    Some ((int (civil_days y m d) - 719528) * 86400 + h * 3600 + mi * 60 + sec)"
proof -
  let ?Y = "march_year y m"
  define e r where "e = ?Y div 400" and "r = ?Y - e * 400"
  have Y: "?Y = 400 * e + r" "0 \<le> r" "r < 400"
    by (simp_all add: e_def r_def minus_div_mult_eq_mod)
  have v: "is_valid_date (int y) (int m) (int d)" using d by (simp add: is_valid_date_iff)
  have year: "(if int m \<le> 2 then int y - 1 else int y) = ?Y" by (simp add: march_year_def)
  have era: "(if ?Y \<ge> 0 then ?Y else ?Y - 399) sdiv 400 = e"
    unfolding e_def by (rule floor_era) simp_all
  have mp: "(if int m > 2 then int m - 3 else int m + 9) = march_month m" by (simp add: march_month_def)
  have m0: "0 \<le> march_month m" by (simp add: march_month_def)
  have doy: "(153 * march_month m + 2) sdiv 5 + int d - 1 = march_day m d"
    using m0 by (simp add: march_day_def sdiv_nonneg)
  have off: "e * 146097 + (r * 365 + r sdiv 4 - r sdiv 100 + march_day m d) - 719468 =
      int (civil_days y m d) - 719528"
    using civil_days_march [OF d] year_offset_era [OF Y] Y(2) by (simp add: sdiv_nonneg)
  show ?thesis
    unfolding posix_time_from_utc_def Let_def year era mp doy r_def [symmetric] off
    using v t by simp
qed

lemma posix_time_from_utc_Some:
  assumes "posix_time_from_utc Y M D h mi sec = Some t"
  obtains y m d where "Y = int y" "M = int m" "D = int d" "civil_valid y m d" "is_valid_time h mi sec"
    "t = (int (civil_days y m d) - 719528) * 86400 + h * 3600 + mi * 60 + sec"
proof -
  have v: "is_valid_date Y M D" "is_valid_time h mi sec"
    using assms by (auto simp: posix_time_from_utc_def split: if_splits)
  then obtain y m d where n: "Y = int y" "M = int m" "D = int d" and c: "civil_valid y m d"
    by (metis is_valid_date_iff int_nat_eq)
  with assms posix_time_from_utc_eq [OF c v(2)] have
    "t = (int (civil_days y m d) - 719528) * 86400 + h * 3600 + mi * 60 + sec" by simp
  with n c v that show ?thesis by blast
qed

text \<open>The leap day ends the year that starts in March.\<close>

lemma leap_day_position:
  assumes d: "civil_valid y m d" and day: "march_day m d = 365"
    and Y: "march_year y m = 400 * e + r" "0 \<le> r" "r < 400"
  shows "r mod 100 mod 4 = 3 \<and> (r mod 100 div 4 = 24 \<longrightarrow> r div 100 = 3)"
proof -
  have m: "m = 2" "d = 29" using march_day_bounds(3) [OF d day] by simp_all
  then have ly: "leap_year y" using d by (auto simp: civil_valid_def month_days_def split: if_splits)
  have y: "int y = 400 * e + r + 1" using Y m by (simp add: march_year_def)
  have "(4::int) dvd int y" using ly unfolding leap_year_def by (metis int_dvd_int_iff of_nat_numeral)
  then have r4: "4 dvd r + 1"
    using dvd_add_right_iff [of 4 "400 * e" "r + 1"] unfolding y by (simp add: add.assoc dvd_mult2)
  have "\<not> (100::int) dvd int y \<or> (400::int) dvd int y"
    using ly unfolding leap_year_def by (metis int_dvd_int_iff of_nat_numeral)
  moreover have "(400::int) dvd int y \<longleftrightarrow> 400 dvd r + 1" "(100::int) dvd int y \<longleftrightarrow> 100 dvd r + 1"
    using dvd_add_right_iff [of 400 "400 * e" "r + 1"] dvd_add_right_iff [of 100 "400 * e" "r + 1"]
    unfolding y by (simp_all add: add.assoc dvd_mult2)
  ultimately have r100: "\<not> (100::int) dvd r + 1 \<or> (400::int) dvd r + 1" by blast
  define c x where "c = r div 100" and "x = r mod 100"
  have rx: "r = 100 * c + x" "0 \<le> x" "x < 100" by (simp_all add: c_def x_def)
  have c: "0 \<le> c" "c \<le> 3" using Y(2,3) rx by simp_all
  have "r + 1 = 100 * c + (x + 1)" using rx(1) by simp
  then have "4 dvd x + 1"
    using dvd_add_right_iff [of 4 "100 * c" "x + 1"] r4 by (simp add: dvd_mult2 add.assoc)
  then have x4: "x mod 4 = 3" by presburger
  have "c = 3" if "x div 4 = 24"
  proof -
    have "x = 99" using that x4 by presburger
    then have "r + 1 = 100 * (c + 1)" using rx(1) by simp
    with r100 have "100 * 4 dvd 100 * (c + 1)" by (simp add: dvd_triv_left)
    then have "4 dvd c + 1" by (simp only: dvd_mult_cancel_left) simp
    then have "4 \<le> c + 1" using c by (intro zdvd_imp_le) simp_all
    with c show ?thesis by simp
  qed
  with x4 show ?thesis by (simp add: c_def x_def)
qed

lemma trunc_split:
  fixes t k sod :: int
  assumes "0 < k" "t mod k = sod"
  shows "(if t smod k < 0 then (t sdiv k - 1, t smod k + k) else (t sdiv k, t smod k)) = (t div k, sod)"
proof -
  obtain q r where t: "t = k * q + r" "0 \<le> r" "r < k"
    using assms by (metis mult_div_mod_eq pos_mod_bound pos_mod_sign)
  have dm: "t div k = q" "sod = r" using t assms(2) by (auto intro: divI)
  show ?thesis
  proof (cases "t \<ge> 0")
    case True
    then show ?thesis using assms t dm by (simp add: sdiv_nonneg smod_nonneg)
  next
    case False
    have "(- t) div k = (if r = 0 then - q else - q - 1)"
      using t by (intro divI) (simp_all add: algebra_simps)
    then have "t sdiv k = (if r = 0 then q else q + 1)"
      using False assms by (auto simp: signed_divide_int_def)
    moreover from this have "t smod k = (if r = 0 then 0 else r - k)"
      using t sdiv_mult_smod_eq [of t k] by (auto simp: algebra_simps)
    ultimately show ?thesis using t dm by auto
  qed
qed

lemma zero_multiple: "e * k + D = 0 \<Longrightarrow> 0 \<le> D \<Longrightarrow> D < k \<Longrightarrow> e = 0 \<and> D = 0" for e k D :: int
proof -
  assume a: "e * k + D = 0" "0 \<le> D" "D < k"
  have "(e * k + D) div k = e" using a(2,3) by (intro divI) (simp_all add: mult.commute)
  with a(1) have "e = 0" by simp
  with a show ?thesis by simp
qed

lemma era_of_days:
  fixes e D :: int
  assumes "0 \<le> D" "D < 146097"
  shows "(if e * 146097 + D > 0 then e * 146097 + D else e * 146097 + D - 146096) sdiv 146097 = e"
proof (cases "e * 146097 + D = 0")
  case True
  with assms zero_multiple [of e 146097 D] show ?thesis by (simp add: signed_divide_int_def)
next
  case False
  then have "e * 146097 + D > 0 \<longleftrightarrow> e * 146097 + D \<ge> 0" by linarith
  moreover have "(if e * 146097 + D \<ge> 0 then e * 146097 + D else e * 146097 + D - 146096) sdiv 146097 =
        (e * 146097 + D) div 146097" by (rule floor_era) simp_all
  moreover have "(e * 146097 + D) div 146097 = e" using assms by (intro divI) simp_all
  ultimately show ?thesis by simp
qed

lemma doe_minus_leaps: "0 \<le> D \<Longrightarrow> 0 \<le> D - D div 1460 + D div 36524 - D div 146096" for D :: int
proof -
  assume D: "0 \<le> D"
  have "D div 1460 \<le> D" using D by simp
  moreover have "D div 146096 \<le> D div 36524" using D by (intro zdiv_mono2) simp_all
  ultimately show ?thesis by linarith
qed

lemma utc_of_march:
  assumes "0 \<le> sod" "sod < 86400"
    and days: "N = year_offset Y + 60 + doy" and Y: "Y = 400 * e + r" "0 \<le> r" "r < 400"
    and doy: "0 \<le> doy" "doy \<le> 365"
      "doy = 365 \<Longrightarrow> r mod 100 mod 4 = 3 \<and> (r mod 100 div 4 = 24 \<longrightarrow> r div 100 = 3)"
    and range: "is_valid_posix_time ((N - 719528) * 86400 + sod)"
  shows "utc_from_posix_time ((N - 719528) * 86400 + sod) =
    (let mp = (5 * doy + 2) div 153;
         month = (if mp < 10 then mp + 3 else mp - 9);
         year = (if month \<le> 2 then Y + 1 else Y)
     in Some (year, month, doy - (153 * mp + 2) sdiv 5 + 1,
              sod sdiv 3600, sod smod 3600 sdiv 60, sod smod 3600 smod 60))"
proof -
  let ?t = "(N - 719528) * 86400 + sod"
  define c x where "c = r div 100" and "x = r mod 100"
  define q s where "q = x div 4" and "s = x mod 4"
  have rx: "r = 100 * c + x" "0 \<le> x" "x < 100" and xs: "x = 4 * q + s" "0 \<le> s" "s < 4"
    by (simp_all add: c_def x_def q_def s_def)
  have c: "0 \<le> c" "c \<le> 3" and q: "0 \<le> q" "q \<le> 24" using Y(2,3) rx xs by simp_all
  have r4: "r div 4 = 25 * c + q" and r100: "r div 100 = c"
    using rx xs by (intro divI; simp)+
  define D where "D = 36524 * c + 1461 * q + 365 * s + doy"
  have D: "365 * r + r div 4 - r div 100 + doy = D"
    unfolding r4 r100 D_def using rx xs by simp
  have d365: "doy = 365 \<Longrightarrow> s = 3 \<and> (q = 24 \<longrightarrow> c = 3)"
    using doy(3) by (simp add: c_def x_def q_def s_def)
  have D_bounds: "0 \<le> D" "D < 146097" unfolding D_def using c q xs doy by linarith+
  have "N - 719528 = e * 146097 + D - 719468"
    using days year_offset_era [OF Y] D by linarith
  then have days': "?t div 86400 + 719468 = e * 146097 + D"
    using assms(1,2) by simp
  let ?a = "?t sdiv 86400" and ?l = "?t smod 86400"
  have split: "(if ?l < 0 then (?a - 1, ?l + 86400) else (?a, ?l)) = (?t div 86400, sod)"
    by (rule trunc_split)
      (simp_all only: mod_mult_self3 mod_pos_pos_trivial assms(1,2) zero_less_numeral)
  have era: "(if e * 146097 + D > 0 then e * 146097 + D else e * 146097 + D - 146096) sdiv 146097 = e"
    by (rule era_of_days [OF D_bounds])
  have "(D - D div 1460 + D div 36524 - D div 146096) div 365 = 100 * c + 4 * q + s"
    unfolding D_def by (rule yoe_of_doe) (use c q xs doy d365 in auto)
  then have yoe: "(D - D sdiv 1460 + D sdiv 36524 - D sdiv 146096) sdiv 365 = r"
    using doe_minus_leaps [OF D_bounds(1)] rx(1) xs(1)
    by (simp only: sdiv_nonneg D_bounds zero_less_numeral add.assoc)
  have rr: "e * 146097 + D - e * 146097 = D" by simp
  have dd: "D - (365 * r + r sdiv 4 - r sdiv 100) = doy"
    using Y(2) D by (simp add: sdiv_nonneg)
  have ym: "(5 * doy + 2) sdiv 153 = (5 * doy + 2) div 153" using doy by (simp add: sdiv_nonneg)
  have yy: "r + e * 400 = Y" using Y by simp
  show ?thesis
    unfolding utc_from_posix_time_def Let_def split prod.case days' era rr yoe dd ym yy
    using range by (simp only: not_True_eq_False if_False)
qed

text \<open>Every day of the years 0 to 9999 has a date, and dates are counted in order.\<close>

lemma upt_month_Suc: "1 \<le> m \<Longrightarrow> [1..<Suc m] = [1..<m] @ [m]"
  by simp

lemma civil_days_end:
  "civil_days y 12 (month_days y 12) = (\<Sum>i\<leftarrow>[0..<y]. year_days i) + year_days y - 1"
proof -
  have "year_days y = (\<Sum>j\<leftarrow>[1..<12]. month_days y j) + month_days y 12"
    unfolding year_days_def using upt_month_Suc [of 12] by simp
  then show ?thesis by (simp add: civil_days_def month_days_def)
qed

lemma year_prefix_le: "civil_valid y m d \<Longrightarrow> civil_days y m d < (\<Sum>i\<leftarrow>[0..<Suc y]. year_days i)"
proof -
  assume v: "civil_valid y m d"
  then have m: "1 \<le> m" "m \<le> 12" and d: "1 \<le> d" "d \<le> month_days y m" by (simp_all add: civil_valid_def)
  have "(\<Sum>j\<leftarrow>[1..<m]. month_days y j) + month_days y m \<le> year_days y"
    unfolding year_days_def using month_12 [OF m] by (elim disjE) (simp_all add: months_upt)
  then show ?thesis using d by (simp add: civil_days_def)
qed

lemma year_prefix_mono: "y \<le> z \<Longrightarrow> (\<Sum>i\<leftarrow>[0..<y]. year_days i) \<le> (\<Sum>i\<leftarrow>[0..<z]. year_days i)"
  by (induction z rule: dec_induct) simp_all

lemma days_of_10000_years: "y = 9999 \<Longrightarrow> (\<Sum>i\<leftarrow>[0..<Suc y]. year_days i) = 3652425"
proof -
  assume "y = 9999"
  then have "int (\<Sum>i\<leftarrow>[0..<Suc y]. year_days i) = year_offset 9999 + 366"
    unfolding sum_year_days by simp
  also have "\<dots> = int 3652425" by (simp add: year_offset_def)
  finally show ?thesis by (simp only: of_nat_eq_iff)
qed

lemma civil_days_less: "civil_valid y m d \<Longrightarrow> civil_days y m d < 3652425"
proof -
  assume v: "civil_valid y m d"
  then obtain z :: nat where z: "z = 9999" "y \<le> z" by (simp add: civil_valid_def)
  then have "(\<Sum>i\<leftarrow>[0..<Suc y]. year_days i) \<le> 3652425"
    using year_prefix_mono [of "Suc y" "Suc z"] unfolding days_of_10000_years [OF z(1)] by (simp only: Suc_le_mono)
  with year_prefix_le [OF v] show ?thesis by linarith
qed

lemma year_pos: "0 < year_days y"
  by (simp add: year_days_eq)

lemma civil_days_surj: "n < 3652425 \<Longrightarrow> \<exists>y m d. civil_valid y m d \<and> civil_days y m d = n"
proof (induction n)
  case 0
  have "civil_valid 0 1 1 \<and> civil_days 0 1 1 = 0" by (simp add: civil_valid_def month_days_def civil_days_def)
  then show ?case by blast
next
  case (Suc n)
  then obtain y m d where v: "civil_valid y m d" and n: "civil_days y m d = n" by auto
  then have m: "1 \<le> m" "m \<le> 12" and d: "1 \<le> d" "d \<le> month_days y m" and y: "y \<le> 9999"
    by (simp_all add: civil_valid_def)
  have pos: "1 \<le> month_days y' m'" for y' m' by (simp add: month_days_def)
  consider "d < month_days y m" | "d = month_days y m" "m < 12" | "d = month_days y m" "m = 12"
    using d m by linarith
  then show ?case
  proof cases
    case 1
    then have "civil_valid y m (Suc d) \<and> civil_days y m (Suc d) = Suc n"
      using v n d by (auto simp: civil_valid_def civil_days_def)
    then show ?thesis by blast
  next
    case 2
    then have "civil_valid y (Suc m) 1 \<and> civil_days y (Suc m) 1 = Suc n"
      using v n d m pos [of y m] pos [of y "Suc m"] by (auto simp: civil_valid_def civil_days_def)
    then show ?thesis by blast
  next
    case 3
    then have e: "Suc n = (\<Sum>i\<leftarrow>[0..<Suc y]. year_days i)"
      using n civil_days_end [of y] year_pos [of y] by simp
    then have "y \<noteq> 9999" using Suc.prems days_of_10000_years [of y] by linarith
    then have "civil_valid (Suc y) 1 1 \<and> civil_days (Suc y) 1 1 = Suc n"
      using e y pos by (auto simp: civil_valid_def civil_days_def)
    then show ?thesis by blast
  qed
qed

section \<open>The conversions are inverse to each other\<close>

lemma posix_range:
  assumes "n < 3652425" "0 \<le> sod" "sod < 86400"
  shows "is_valid_posix_time ((int n - 719528) * 86400 + sod)"
  using assms by (simp add: is_valid_posix_time_def)

lemma time_of_day:
  assumes "is_valid_time h mi sec"
  defines "sod \<equiv> h * 3600 + mi * 60 + sec"
  shows "0 \<le> sod" "sod < 86400" "sod sdiv 3600 = h" "sod smod 3600 sdiv 60 = mi" "sod smod 3600 smod 60 = sec"
proof -
  have r: "0 \<le> h" "h \<le> 23" "0 \<le> mi" "mi \<le> 59" "0 \<le> sec" "sec \<le> 59"
    using assms(1) by (simp_all add: is_valid_time_def split: if_splits)
  show s: "0 \<le> sod" "sod < 86400" using r by (simp_all add: sod_def)
  have "sod div 3600 = h" using r by (intro divI) (simp_all add: sod_def)
  moreover from this have m: "sod mod 3600 = mi * 60 + sec"
    using minus_div_mult_eq_mod [of sod 3600] by (simp add: sod_def)
  moreover have "(mi * 60 + sec) div 60 = mi" using r by (intro divI) simp_all
  moreover from this have "(mi * 60 + sec) mod 60 = sec"
    using minus_div_mult_eq_mod [of "mi * 60 + sec" 60] by simp
  ultimately show "sod sdiv 3600 = h" "sod smod 3600 sdiv 60 = mi" "sod smod 3600 smod 60 = sec"
    using s r by (simp_all add: sdiv_nonneg smod_nonneg)
qed

lemma time_of_seconds:
  assumes "0 \<le> sod" "sod < 86400"
  obtains h mi sec where "is_valid_time h mi sec" "sod = h * 3600 + mi * 60 + sec"
proof -
  have 1: "0 \<le> sod div 3600" "sod div 3600 \<le> 23" using assms by simp_all
  have 2: "0 \<le> sod mod 3600 div 60" "sod mod 3600 div 60 \<le> 59" by simp_all
  have 3: "0 \<le> sod mod 3600 mod 60" "sod mod 3600 mod 60 \<le> 59" by simp_all
  have "sod = sod div 3600 * 3600 + sod mod 3600 div 60 * 60 + sod mod 3600 mod 60"
    by (simp only: add.assoc div_mult_mod_eq)
  then show ?thesis by (rule that [rotated]) (use 1 2 3 in \<open>simp add: is_valid_time_def not_less\<close>)
qed

lemma utc_of_posix:
  assumes "posix_time_from_utc Y M D h mi sec = Some t"
  shows "utc_from_posix_time t = Some (Y, M, D, h, mi, sec)"
proof -
  obtain y m d where n: "Y = int y" "M = int m" "D = int d" and v: "civil_valid y m d"
    and tv: "is_valid_time h mi sec"
    and t0: "t = (int (civil_days y m d) - 719528) * 86400 + h * 3600 + mi * 60 + sec"
    using assms by (rule posix_time_from_utc_Some)
  define sod where "sod = h * 3600 + mi * 60 + sec"
  have t: "t = (int (civil_days y m d) - 719528) * 86400 + sod" using t0 by (simp add: sod_def)
  have sod: "0 \<le> sod" "sod < 86400" "sod sdiv 3600 = h" "sod smod 3600 sdiv 60 = mi" "sod smod 3600 smod 60 = sec"
    using time_of_day [OF tv] by (simp_all add: sod_def)
  define e r where "e = march_year y m div 400" and "r = march_year y m mod 400"
  have Y: "march_year y m = 400 * e + r" "0 \<le> r" "r < 400" by (simp_all add: e_def r_def)
  have ok: "is_valid_posix_time ((int (civil_days y m d) - 719528) * 86400 + sod)"
    using civil_days_less [OF v] sod by (intro posix_range) simp_all
  have mp: "(5 * march_day m d + 2) div 153 = march_month m" using march_day_bounds [OF v] by blast
  have m: "1 \<le> m" "m \<le> 12" using v by (simp_all add: civil_valid_def)
  have "march_day m d - (153 * march_month m + 2) sdiv 5 + 1 = int d"
    by (simp add: march_day_def march_month_def sdiv_nonneg)
  moreover have "(if march_month m < 10 then march_month m + 3 else march_month m - 9) = int m"
    using m by (simp add: march_month_def)
  moreover have "(if int m \<le> 2 then march_year y m + 1 else march_year y m) = int y"
    by (simp add: march_year_def)
  ultimately show ?thesis
    using utc_of_march [OF sod(1,2) civil_days_march [OF v] Y march_day_bounds(1) [OF v] march_day_bounds(2) [OF v]
        leap_day_position [OF v _ Y] ok]
    unfolding mp Let_def t n sod(3-5) by simp
qed

lemma posix_of_utc:
  assumes "utc_from_posix_time t = Some (Y, M, D, h, mi, sec)"
  shows "posix_time_from_utc Y M D h mi sec = Some t"
proof -
  have ok: "is_valid_posix_time t" using assms by (auto simp: utc_from_posix_time_def split: if_splits)
  define n sod where "n = nat (t div 86400 + 719528)" and "sod = t mod 86400"
  have days: "0 \<le> t div 86400 + 719528" "t div 86400 + 719528 < 3652425"
    using ok zdiv_mono1 [of "- 62167219200" t 86400] zdiv_mono1 [of t 253402300799 86400]
    by (simp_all add: is_valid_posix_time_def)
  then have "n < 3652425" by (simp add: n_def)
  then obtain y m d where v: "civil_valid y m d" and c: "civil_days y m d = n" using civil_days_surj by blast
  have "0 \<le> sod" "sod < 86400" by (simp_all add: sod_def)
  then obtain h' mi' sec' where tv: "is_valid_time h' mi' sec'" and sod: "sod = h' * 3600 + mi' * 60 + sec'"
    by (rule time_of_seconds)
  have "(int n - 719528) * 86400 + sod = t" using days by (simp add: n_def sod_def)
  with sod have "posix_time_from_utc (int y) (int m) (int d) h' mi' sec' = Some t"
    using posix_time_from_utc_eq [OF v tv] c by (simp add: add.assoc)
  with utc_of_posix [OF this] assms show ?thesis by simp
qed

lemma utc_posix_iff:
  "utc_from_posix_time t = Some (Y, M, D, h, mi, sec) \<longleftrightarrow> posix_time_from_utc Y M D h mi sec = Some t"
  using utc_of_posix posix_of_utc by blast

lemma tm_posix_iff: "OPENSSL_posix_to_tm t = Some x \<longleftrightarrow> OPENSSL_tm_to_posix x = Some t"
proof -
  have "OPENSSL_posix_to_tm t = Some x \<longleftrightarrow>
      utc_from_posix_time t = Some (tm_year x + 1900, tm_mon x + 1, tm_mday x, tm_hour x, tm_min x, tm_sec x)"
    by (cases x) (auto simp: OPENSSL_posix_to_tm_def split: option.splits)
  then show ?thesis by (simp add: utc_posix_iff OPENSSL_tm_to_posix_def)
qed

lemma tm_to_posix_range: "OPENSSL_tm_to_posix x = Some t \<Longrightarrow> is_valid_posix_time t"
  unfolding tm_posix_iff [symmetric]
  by (auto simp: OPENSSL_posix_to_tm_def utc_from_posix_time_def split: if_splits)

lemma posix_to_tm_total: "is_valid_posix_time t \<Longrightarrow> \<exists>x. OPENSSL_posix_to_tm t = Some x"
  by (auto simp: OPENSSL_posix_to_tm_def utc_from_posix_time_def Let_def split: prod.splits)

lemma OPENSSL_gmtime_adj_iff:
  "OPENSSL_gmtime_adj x days secs = Some x' \<longleftrightarrow>
     (\<exists>t. OPENSSL_tm_to_posix x = Some t \<and> OPENSSL_tm_to_posix x' = Some (t + days * 86400 + secs))"
proof (cases "OPENSSL_tm_to_posix x")
  case (Some t)
  let ?p = "t + days * 86400"
  have "\<not> (?p > 0 \<and> secs > INT64_MAX - ?p) \<and> \<not> (?p < 0 \<and> secs < INT64_MIN - ?p)"
    if "OPENSSL_tm_to_posix x' = Some (?p + secs)"
    using tm_to_posix_range [OF that] by (auto simp: is_valid_posix_time_def)
  then show ?thesis
    using Some by (auto simp: OPENSSL_gmtime_adj_def Let_def tm_posix_iff)
qed (simp add: OPENSSL_gmtime_adj_def)

section \<open>Properties\<close>


text \<open>C12. The two conversions are inverse: a broken-down time converts to the POSIX time \<open>t\<close> exactly when
  \<open>t\<close> converts back to it.\<close>

theorem tm_posix_roundtrip: "OPENSSL_posix_to_tm t = Some x \<longleftrightarrow> OPENSSL_tm_to_posix x = Some t"
  by (rule tm_posix_iff)

text \<open>Adjusting a time adds exactly the offset: the result is \<open>x'\<close> precisely when the POSIX time of
  \<open>x'\<close> is that of \<open>x\<close> plus the days and seconds; the overflow guards refuse no result in range.\<close>

theorem gmtime_adj_exact:
  "OPENSSL_gmtime_adj x days secs = Some x' \<longleftrightarrow>
     (\<exists>t. OPENSSL_tm_to_posix x = Some t \<and> OPENSSL_tm_to_posix x' = Some (t + days * 86400 + secs))"
  by (rule OPENSSL_gmtime_adj_iff)

end
