(* ===== verification/Asn1_Time.thy ===== *)
theory Asn1_Time
  imports Cbs Posix_Time
begin

text \<open>
  The UTCTime and GeneralizedTime parsers of \<open>crypto/bytestring/cbs.c\<close>, which read the
  digits, check the calendar and hand offsets to \<open>posix_time.c\<close>.  They are measured
  against the printed form of a time: the parser accepts exactly what printing the result
  gives back.
\<close>

section \<open>The parser\<close>

definition cbs_get_two_digits :: "cbs \<Rightarrow> int option \<times> cbs" where
  "cbs_get_two_digits c =
     (case CBS_get_u8 c of
        (None, c) \<Rightarrow> (None, c)
      | (Some first_digit, c) \<Rightarrow>
          if \<not> OPENSSL_isdigit first_digit then (None, c)
          else (case CBS_get_u8 c of
                  (None, c) \<Rightarrow> (None, c)
                | (Some second_digit, c) \<Rightarrow>
                    if \<not> OPENSSL_isdigit second_digit then (None, c)
                    else (Some ((uint first_digit - 0x30) * 10 + (uint second_digit - 0x30)), c)))"

definition is_valid_day :: "int \<Rightarrow> int \<Rightarrow> int \<Rightarrow> bool" where
  "is_valid_day year month day \<longleftrightarrow>
     (if day < 1 then False
      else if month = 1 \<or> month = 3 \<or> month = 5 \<or> month = 7 \<or> month = 8 \<or> month = 10 \<or> month = 12
        then day \<le> 31
      else if month = 4 \<or> month = 6 \<or> month = 9 \<or> month = 11 then day \<le> 30
      else if month = 2 then (if is_leap year then day \<le> 29 else day \<le> 28)
      else False)"

text \<open>A read whose failure makes the caller return 0.\<close>

definition or_fail :: "'a option \<times> cbs \<Rightarrow> ('a \<Rightarrow> cbs \<Rightarrow> 'b option) \<Rightarrow> 'b option" where
  "or_fail r k = (case r of (None, _) \<Rightarrow> None | (Some v, c) \<Rightarrow> k v c)"

text \<open>The result is the time and whether it was stored: the caller may pass no \<open>out_tm\<close>.\<close>

definition rfc5280_year :: "bool \<Rightarrow> cbs \<Rightarrow> int option \<times> cbs" where
  "rfc5280_year is_gentime c =
     (if is_gentime then
        (case cbs_get_two_digits c of
           (None, c) \<Rightarrow> (None, c)
         | (Some tmp, c) \<Rightarrow>
             let year = tmp * 100
             in case cbs_get_two_digits c of
                  (None, c) \<Rightarrow> (None, c)
                | (Some tmp, c) \<Rightarrow> (Some (year + tmp), c))
      else
        (case cbs_get_two_digits c of
           (None, c) \<Rightarrow> (None, c)
         | (Some tmp, c) \<Rightarrow>
             let year = 1900 + tmp;
                 year = (if year < 1950 then year + 100 else year)
             in if year \<ge> 2050 then (None, c) else (Some year, c)))"

definition rfc5280_offset :: "byte \<Rightarrow> bool \<Rightarrow> cbs \<Rightarrow> int option \<times> cbs" where
  "rfc5280_offset tz allow_timezone_offset c =
     (if tz \<noteq> 0x5a \<and> tz \<noteq> 0x2b \<and> tz \<noteq> 0x2d then (None, c)
      else
        let offset_sign = (if tz = 0x2b then 1 else if tz = 0x2d then - 1 else 0)
        in if offset_sign \<noteq> 0 then
             if \<not> allow_timezone_offset then (None, c)
             else
               (case cbs_get_two_digits c of
                  (None, c) \<Rightarrow> (None, c)
                | (Some offset_hours, c) \<Rightarrow>
                    if offset_hours > 23 then (None, c)
                    else (case cbs_get_two_digits c of
                            (None, c) \<Rightarrow> (None, c)
                          | (Some offset_minutes, c) \<Rightarrow>
                              if offset_minutes > 59 then (None, c)
                              else (Some (offset_sign * (offset_hours * 3600 + offset_minutes * 60)), c)))
           else (Some 0, c))"

text \<open>The last step: store the time and apply the offset.\<close>

definition rfc5280_finish :: "bool \<Rightarrow> tm \<Rightarrow> int \<Rightarrow> tm option option" where
  "rfc5280_finish want_tm t off =
     (if \<not> want_tm then Some None
      else if off \<noteq> 0 then (case OPENSSL_gmtime_adj t 0 off of None \<Rightarrow> None | Some t \<Rightarrow> Some (Some t))
      else Some (Some t))"

definition CBS_parse_rfc5280_time_internal :: "cbs \<Rightarrow> bool \<Rightarrow> bool \<Rightarrow> bool \<Rightarrow> tm option option" where
  "CBS_parse_rfc5280_time_internal c is_gentime allow_timezone_offset want_tm =
     or_fail (rfc5280_year is_gentime c)
     (\<lambda>year c. or_fail (cbs_get_two_digits c)
     (\<lambda>month c. if month < 1 \<or> month > 12 then None else or_fail (cbs_get_two_digits c)
     (\<lambda>day c. if \<not> is_valid_day year month day then None else or_fail (cbs_get_two_digits c)
     (\<lambda>hour c. if hour > 23 then None else or_fail (cbs_get_two_digits c)
     (\<lambda>mi c. if mi > 59 then None else or_fail (cbs_get_two_digits c)
     (\<lambda>sec c. if sec > 59 then None else or_fail (CBS_get_u8 c)
     (\<lambda>tz c. or_fail (rfc5280_offset tz allow_timezone_offset c)
     (\<lambda>offset_seconds c.
        if length c \<noteq> 0 then None
        else rfc5280_finish want_tm
               \<lparr>tm_year = year - 1900, tm_mon = month - 1, tm_mday = day,
                tm_hour = hour, tm_min = mi, tm_sec = sec\<rparr> offset_seconds))))))))"

definition CBS_parse_generalized_time :: "cbs \<Rightarrow> bool \<Rightarrow> bool \<Rightarrow> tm option option" where
  "CBS_parse_generalized_time c allow_timezone_offset want_tm =
     CBS_parse_rfc5280_time_internal c True allow_timezone_offset want_tm"

definition CBS_parse_utc_time :: "cbs \<Rightarrow> bool \<Rightarrow> bool \<Rightarrow> tm option option" where
  "CBS_parse_utc_time c allow_timezone_offset want_tm =
     CBS_parse_rfc5280_time_internal c False allow_timezone_offset want_tm"

section \<open>Two digits\<close>

definition two_digits :: "int \<Rightarrow> byte list" where
  "two_digits v = [0x30 + of_int (v div 10), 0x30 + of_int (v mod 10)]"

lemma digit_uint:
  assumes "OPENSSL_isdigit b"
  shows "0 \<le> uint b - 48" "uint b - 48 < 10" "b = 0x30 + of_int (uint b - 48)"
proof -
  show "0 \<le> uint b - 48" "uint b - 48 < 10"
    using assms by (simp_all add: OPENSSL_isdigit_def word_le_def)
  show "b = 0x30 + of_int (uint b - 48)" by simp
qed

lemma uint_digit: "0 \<le> k \<Longrightarrow> k < 10 \<Longrightarrow> uint (0x30 + of_int k :: byte) = 48 + k"
  by (simp add: uint_word_ariths unsigned_of_int take_bit_eq_mod)

lemma isdigit_of_int: "0 \<le> k \<Longrightarrow> k < 10 \<Longrightarrow> OPENSSL_isdigit (0x30 + of_int k)"
  using uint_digit [of k] by (simp add: OPENSSL_isdigit_def word_le_def)

interpretation two_digits: codec cbs_get_two_digits two_digits "\<lambda>v. 0 \<le> v \<and> v \<le> 99"
proof
  fix v :: int and t assume v: "0 \<le> v \<and> v \<le> 99"
  then have "0 \<le> v div 10" "v div 10 < 10" "0 \<le> v mod 10" "v mod 10 < 10" by auto
  then show "cbs_get_two_digits (two_digits v @ t) = (Some v, t)"
    by (simp add: cbs_get_two_digits_def two_digits_def isdigit_of_int uint_digit)
next
  fix s v s' assume a: "cbs_get_two_digits s = (Some v, s')"
  then obtain x y where s: "s = x # y # s'" and d: "OPENSSL_isdigit x" "OPENSSL_isdigit y"
    and v: "v = (uint x - 0x30) * 10 + (uint y - 0x30)"
    by (cases s; cases "tl s") (auto simp: cbs_get_two_digits_def split: if_splits)
  obtain i j where i: "0 \<le> i" "i < 10" "x = 0x30 + of_int i" and j: "0 \<le> j" "j < 10" "y = 0x30 + of_int j"
    using digit_uint [OF d(1)] digit_uint [OF d(2)] by blast
  then have "v = i * 10 + j" using v by (simp add: uint_digit)
  moreover from this i j have "v div 10 = i" "v mod 10 = j" by auto
  ultimately show "(0 \<le> v \<and> v \<le> 99) \<and> s = two_digits v @ s'"
    using i j s by (simp add: two_digits_def)
next
  fix s s' assume "cbs_get_two_digits s = (None, s')"
  then show "\<exists>p. s = p @ s'"
    by (cases s; cases "tl s") (auto simp: cbs_get_two_digits_def split: if_splits)
qed (simp add: two_digits_def)

section \<open>Printed times\<close>

definition year_bytes :: "bool \<Rightarrow> int \<Rightarrow> byte list" where
  "year_bytes is_gentime year =
     (if is_gentime then two_digits (year div 100) @ two_digits (year mod 100)
      else two_digits (year mod 100))"

definition year_ok :: "bool \<Rightarrow> int \<Rightarrow> bool" where
  "year_ok is_gentime year \<longleftrightarrow>
     (if is_gentime then 0 \<le> year \<and> year \<le> 9999 else 1950 \<le> year \<and> year \<le> 2049)"

text \<open>The zone: \<open>Z\<close>, or a signed offset where it is allowed, with the seconds the code adds.\<close>

definition zone_offset :: "bool \<Rightarrow> byte list \<Rightarrow> int \<Rightarrow> bool" where
  "zone_offset allow z off \<longleftrightarrow>
     z = [0x5a] \<and> off = 0 \<or>
     allow \<and> (\<exists>h m. 0 \<le> h \<and> h \<le> 23 \<and> 0 \<le> m \<and> m \<le> 59 \<and>
       (z = 0x2b # two_digits h @ two_digits m \<and> off = h * 3600 + m * 60 \<or>
        z = 0x2d # two_digits h @ two_digits m \<and> off = - (h * 3600 + m * 60)))"

definition time_bytes :: "bool \<Rightarrow> tm \<Rightarrow> byte list" where
  "time_bytes is_gentime t =
     year_bytes is_gentime (tm_year t + 1900) @ two_digits (tm_mon t + 1) @ two_digits (tm_mday t) @
     two_digits (tm_hour t) @ two_digits (tm_min t) @ two_digits (tm_sec t)"

lemma or_fail_iff: "or_fail r k = Some x \<longleftrightarrow> (\<exists>v c. r = (Some v, c) \<and> k v c = Some x)"
  by (cases r; cases "fst r") (auto simp: or_fail_def)

lemma gentime_year_iff:
  "rfc5280_year True c = (Some y, c') \<longleftrightarrow> year_ok True y \<and> c = year_bytes True y @ c'"
proof -
  have "rfc5280_year True c = (Some y, c') \<longleftrightarrow>
    (\<exists>a b d. y = a * 100 + b \<and> cbs_get_two_digits c = (Some a, d) \<and> cbs_get_two_digits d = (Some b, c'))"
    unfolding rfc5280_year_def by (auto simp: Let_def split: prod.splits option.splits)
  also have "\<dots> \<longleftrightarrow> year_ok True y \<and> c = year_bytes True y @ c'" (is "?l \<longleftrightarrow> ?r")
  proof
    assume ?l
    then obtain a b where r: "y = a * 100 + b" "0 \<le> a" "a \<le> 99" "0 \<le> b" "b \<le> 99"
      "c = two_digits a @ two_digits b @ c'" by (auto simp: two_digits.get_iff)
    moreover from r have "y div 100 = a" "y mod 100 = b" by simp_all
    ultimately show ?r by (simp add: year_ok_def year_bytes_def)
  next
    assume r: ?r
    then have "0 \<le> y" "y \<le> 9999" by (simp_all add: year_ok_def)
    then have "0 \<le> y div 100" "y div 100 \<le> 99" "0 \<le> y mod 100" "y mod 100 \<le> 99" by simp_all
    with r show ?l
      by (intro exI [of _ "y div 100"] exI [of _ "y mod 100"] exI [of _ "two_digits (y mod 100) @ c'"])
        (simp add: two_digits.get_iff year_bytes_def)
  qed
  finally show ?thesis .
qed

lemma utc_year_range:
  fixes y b :: int
  shows "year_ok False y \<and> b = y mod 100 \<longleftrightarrow>
    0 \<le> b \<and> b \<le> 99 \<and> y = (if b < 50 then 2000 + b else 1900 + b)"
proof -
  have "year_ok False y \<and> b = y mod 100 \<Longrightarrow> 0 \<le> b \<and> b \<le> 99 \<and> y = (if b < 50 then 2000 + b else 1900 + b)"
  proof -
    assume a: "year_ok False y \<and> b = y mod 100"
    then have y: "1950 \<le> y" "y \<le> 2049" by (simp_all add: year_ok_def)
    show ?thesis
    proof (cases "y < 2000")
      case True
      with y have "(y - 1900) mod 100 = y - 1900" by simp
      then have "b = y - 1900" using a mod_diff_right_eq [of y 1900 100] by simp
      with True y show ?thesis by simp
    next
      case False
      with y have "(y - 2000) mod 100 = y - 2000" by simp
      then have "b = y - 2000" using a mod_diff_right_eq [of y 2000 100] by simp
      with False y show ?thesis by simp
    qed
  qed
  moreover have "year_ok False y \<and> b = y mod 100"
    if "0 \<le> b \<and> b \<le> 99 \<and> y = (if b < 50 then 2000 + b else 1900 + b)"
    using that mod_add_right_eq [of b 2000 100] mod_add_right_eq [of b 1900 100]
    by (cases "b < 50") (simp_all add: year_ok_def add.commute)
  ultimately show ?thesis by blast
qed

lemma utc_year_iff:
  "rfc5280_year False c = (Some y, c') \<longleftrightarrow> year_ok False y \<and> c = year_bytes False y @ c'"
proof -
  have "rfc5280_year False c = (Some y, c') \<longleftrightarrow>
    (\<exists>b. y = (if b < 50 then 2000 + b else 1900 + b) \<and> y < 2050 \<and> cbs_get_two_digits c = (Some b, c'))"
  proof (cases "cbs_get_two_digits c")
    case (Pair r d)
    show ?thesis
    proof (cases r)
      case (Some b)
      with Pair show ?thesis by (cases "b < 50") (auto simp: rfc5280_year_def)
    qed (simp add: Pair rfc5280_year_def)
  qed
  also have "\<dots> \<longleftrightarrow> (\<exists>b. (0 \<le> b \<and> b \<le> 99 \<and> y = (if b < 50 then 2000 + b else 1900 + b)) \<and> c = two_digits b @ c')"
    unfolding two_digits.get_iff by (rule ex_cong1) (auto split: if_splits)
  also have "\<dots> \<longleftrightarrow> year_ok False y \<and> c = year_bytes False y @ c'"
    unfolding utc_year_range [symmetric] year_bytes_def by simp
  finally show ?thesis .
qed

lemma rfc5280_year_iff:
  "rfc5280_year g c = (Some y, c') \<longleftrightarrow> year_ok g y \<and> c = year_bytes g y @ c'"
  using gentime_year_iff utc_year_iff by (cases g) simp_all

lemma rfc5280_offset_iff:
  "rfc5280_offset tz allow c = (Some off, []) \<longleftrightarrow> zone_offset allow (tz # c) off"
proof (cases "tz = 0x2b \<or> tz = 0x2d")
  case True
  have "rfc5280_offset tz allow c = (Some off, []) \<longleftrightarrow>
    allow \<and> (\<exists>h m d. cbs_get_two_digits c = (Some h, d) \<and> h \<le> 23 \<and>
      cbs_get_two_digits d = (Some m, []) \<and> m \<le> 59 \<and>
      off = (if tz = 0x2b then 1 else - 1) * (h * 3600 + m * 60))"
    using True by (auto simp: rfc5280_offset_def Let_def split: prod.splits option.splits if_splits)
  also have "\<dots> \<longleftrightarrow> allow \<and> (\<exists>h m. 0 \<le> h \<and> h \<le> 23 \<and> 0 \<le> m \<and> m \<le> 59 \<and> c = two_digits h @ two_digits m \<and>
      off = (if tz = 0x2b then 1 else - 1) * (h * 3600 + m * 60))"
    by (auto simp: two_digits.get_iff)
  also have "\<dots> \<longleftrightarrow> zone_offset allow (tz # c) off"
    using True by (elim disjE) (simp_all add: zone_offset_def conj_ac)
  finally show ?thesis .
next
  case False
  then show ?thesis by (auto simp: rfc5280_offset_def zone_offset_def Let_def)
qed

section \<open>What the parser accepts\<close>

lemma if_None_iff: "(if b then None else e) = Some x \<longleftrightarrow> \<not> b \<and> e = Some x"
  by simp

lemma is_valid_day_date:
  "0 \<le> year \<Longrightarrow> year \<le> 9999 \<Longrightarrow> 1 \<le> month \<Longrightarrow> is_valid_day year month day = is_valid_date year month day"
  by (simp add: is_valid_day_def is_valid_date_def)

lemma is_valid_date_bounds:
  assumes "is_valid_date year month day"
  shows "0 \<le> year" "year \<le> 9999" "1 \<le> month" "month \<le> 12" "1 \<le> day" "day \<le> 31"
proof -
  have r: "0 \<le> year" "0 \<le> month" "0 \<le> day" "nat year \<le> 9999" "1 \<le> nat month" "nat month \<le> 12"
    "1 \<le> nat day" "nat day \<le> month_days (nat year) (nat month)"
    using assms unfolding is_valid_date_iff civil_valid_def by blast+
  then have "nat day \<le> 31" using month_days_le [of "nat year" "nat month"] by (metis order_trans)
  with r show "0 \<le> year" "year \<le> 9999" "1 \<le> month" "month \<le> 12" "1 \<le> day" "day \<le> 31"
    by (simp_all add: nat_le_iff le_nat_iff)
qed

lemma year_ok_bounds: "year_ok g y \<Longrightarrow> 0 \<le> y \<and> y \<le> 9999"
  by (auto simp: year_ok_def split: if_splits)

lemma parse_fields_iff:
  "CBS_parse_rfc5280_time_internal c g allow want = Some res \<longleftrightarrow>
     (\<exists>x z off. year_ok g (tm_year x + 1900) \<and> (\<exists>p. OPENSSL_tm_to_posix x = Some p) \<and>
        zone_offset allow z off \<and> c = time_bytes g x @ z \<and> rfc5280_finish want x off = Some res)"
  (is "?l \<longleftrightarrow> ?r")
proof -
  let ?t = "\<lambda>year month day hour mi sec. \<lparr>tm_year = year - 1900, tm_mon = month - 1, tm_mday = day,
                   tm_hour = hour, tm_min = mi, tm_sec = sec\<rparr>"
  have posix: "(\<exists>p. OPENSSL_tm_to_posix x = Some p) \<longleftrightarrow>
      is_valid_date (tm_year x + 1900) (tm_mon x + 1) (tm_mday x) \<and>
      is_valid_time (tm_hour x) (tm_min x) (tm_sec x)" for x
    by (auto simp: OPENSSL_tm_to_posix_def posix_time_from_utc_def Let_def)
  have nil: "\<not> length c \<noteq> 0 \<longleftrightarrow> c = []" for c :: cbs by simp
  show ?thesis
  proof
    assume ?l
    then obtain year c1 month c2 day c3 hour c4 mi c5 sec c6 tz c7 off where
      st: "rfc5280_year g c = (Some year, c1)" "cbs_get_two_digits c1 = (Some month, c2)"
        "cbs_get_two_digits c2 = (Some day, c3)" "cbs_get_two_digits c3 = (Some hour, c4)"
        "cbs_get_two_digits c4 = (Some mi, c5)" "cbs_get_two_digits c5 = (Some sec, c6)"
        "CBS_get_u8 c6 = (Some tz, c7)" "rfc5280_offset tz allow c7 = (Some off, [])"
      and ok: "\<not> (month < 1 \<or> month > 12)" "is_valid_day year month day" "\<not> hour > 23" "\<not> mi > 59" "\<not> sec > 59"
      and res: "rfc5280_finish want (?t year month day hour mi sec) off = Some res"
      unfolding CBS_parse_rfc5280_time_internal_def or_fail_iff if_None_iff nil by blast
    let ?x = "?t year month day hour mi sec"
    note r = st(1) [unfolded rfc5280_year_iff] st(2-6) [unfolded two_digits.get_iff]
      st(7) [unfolded u8.get_iff] st(8) [unfolded rfc5280_offset_iff]
    have "c = time_bytes g ?x @ (tz # c7)" using r by (simp add: time_bytes_def)
    moreover have "is_valid_date year month day" using r(1) ok(1,2) year_ok_bounds [of g year]
      by (simp add: is_valid_day_date not_less)
    moreover have "is_valid_time hour mi sec" using r ok by (simp add: is_valid_time_def)
    ultimately show ?r using r res posix [of ?x]
      by (intro exI [of _ ?x] exI [of _ "tz # c7"] exI [of _ off]) simp
  next
    assume ?r
    then obtain x z off where y: "year_ok g (tm_year x + 1900)" and v: "\<exists>p. OPENSSL_tm_to_posix x = Some p"
      and z: "zone_offset allow z off" and c: "c = time_bytes g x @ z"
      and res: "rfc5280_finish want x off = Some res" by blast
    have dv: "is_valid_date (tm_year x + 1900) (tm_mon x + 1) (tm_mday x)"
      and tv: "is_valid_time (tm_hour x) (tm_min x) (tm_sec x)" using v posix by blast+
    obtain tz c7 where zz: "z = tz # c7" using z by (auto simp: zone_offset_def)
    note b = is_valid_date_bounds [OF dv]
    have t: "0 \<le> tm_hour x" "tm_hour x \<le> 23" "0 \<le> tm_min x" "tm_min x \<le> 59" "0 \<le> tm_sec x" "tm_sec x \<le> 59"
      using tv by (simp_all add: is_valid_time_def split: if_splits)
    have dd: "is_valid_day (tm_year x + 1900) (tm_mon x + 1) (tm_mday x)"
      using dv b by (simp add: is_valid_day_date)
    have x: "?t (tm_year x + 1900) (tm_mon x + 1) (tm_mday x) (tm_hour x) (tm_min x) (tm_sec x) = x"
      by simp
    have off: "rfc5280_offset tz allow c7 = (Some off, [])" using z zz by (simp add: rfc5280_offset_iff)
    have year: "rfc5280_year g (year_bytes g (tm_year x + 1900) @ u) = (Some (tm_year x + 1900), u)" for u
      using y by (simp add: rfc5280_year_iff)
    have two: "cbs_get_two_digits (two_digits (tm_mon x + 1) @ u) = (Some (tm_mon x + 1), u)"
      "cbs_get_two_digits (two_digits (tm_mday x) @ u) = (Some (tm_mday x), u)"
      "cbs_get_two_digits (two_digits (tm_hour x) @ u) = (Some (tm_hour x), u)"
      "cbs_get_two_digits (two_digits (tm_min x) @ u) = (Some (tm_min x), u)"
      "cbs_get_two_digits (two_digits (tm_sec x) @ u) = (Some (tm_sec x), u)" for u
      using b t by (simp_all add: two_digits.get_put)
    have guards: "\<not> (tm_mon x + 1 < 1 \<or> tm_mon x + 1 > 12)" "\<not> tm_hour x > 23" "\<not> tm_min x > 59"
      "\<not> tm_sec x > 59" using b t by simp_all
    show ?l
      unfolding CBS_parse_rfc5280_time_internal_def c zz time_bytes_def append_assoc
      by (simp only: or_fail_def year two guards dd off res prod.case option.case CBS_get_u8_simps
          x nil if_False not_True_eq_False list.size(3) simp_thms)
  qed
qed

lemma finish_iff:
  assumes "OPENSSL_tm_to_posix x = Some p"
  shows "rfc5280_finish True x off = Some (Some t) \<longleftrightarrow> OPENSSL_tm_to_posix t = Some (p + off)"
proof (cases "off = 0")
  case True
  have "OPENSSL_tm_to_posix t = Some p \<longleftrightarrow> x = t"
    using assms unfolding tm_posix_iff [symmetric] by auto
  with True show ?thesis by (simp add: rfc5280_finish_def)
next
  case False
  have "rfc5280_finish True x off = Some (Some t) \<longleftrightarrow> OPENSSL_gmtime_adj x 0 off = Some t"
    using False by (simp add: rfc5280_finish_def split: option.splits)
  then show ?thesis using assms by (simp add: OPENSSL_gmtime_adj_iff)
qed

lemma tm_posix_year: "OPENSSL_tm_to_posix t = Some p \<Longrightarrow> year_ok True (tm_year t + 1900)"
proof -
  assume "OPENSSL_tm_to_posix t = Some p"
  then have "is_valid_date (tm_year t + 1900) (tm_mon t + 1) (tm_mday t)"
    by (cases "is_valid_date (tm_year t + 1900) (tm_mon t + 1) (tm_mday t)")
      (simp_all add: OPENSSL_tm_to_posix_def posix_time_from_utc_def)
  from is_valid_date_bounds(1,2) [OF this] show ?thesis by (simp add: year_ok_def)
qed

lemma zone_offset_strict: "zone_offset False z off \<longleftrightarrow> z = [0x5a] \<and> off = 0"
  by (auto simp: zone_offset_def)

section \<open>Properties\<close>

text \<open>C24. Without offsets the GeneralizedTime parser is the inverse of printing: it returns \<open>t\<close> exactly when
  the input is the fifteen bytes YYYYMMDDHHMMSSZ of \<open>t\<close>, and \<open>t\<close> is a time of the calendar.\<close>

theorem generalized_time_exact:
  "CBS_parse_generalized_time c False True = Some (Some t) \<longleftrightarrow>
     (\<exists>p. OPENSSL_tm_to_posix t = Some p) \<and> c = time_bytes True t @ [0x5a]"
proof -
  have "CBS_parse_generalized_time c False True = Some (Some t) \<longleftrightarrow>
      (\<exists>x. (\<exists>p. OPENSSL_tm_to_posix x = Some p) \<and> c = time_bytes True x @ [0x5a] \<and> x = t)"
    unfolding CBS_parse_generalized_time_def parse_fields_iff zone_offset_strict
    using tm_posix_year by (auto simp: rfc5280_finish_def)
  then show ?thesis by auto
qed

text \<open>C25. With offsets allowed, a time is accepted exactly when its input is a printed calendar time (of the
  years 1950 to 2049 for UTCTime) followed by a zone, and the result is the printed time with the zone's
  hours and minutes added for a plus sign and subtracted for a minus sign; a sum outside the years 0 to
  9999 is refused.\<close>

theorem time_offset_added:
  "CBS_parse_rfc5280_time_internal c g True True = Some (Some t) \<longleftrightarrow>
     (\<exists>x z off p. year_ok g (tm_year x + 1900) \<and> OPENSSL_tm_to_posix x = Some p \<and> zone_offset True z off \<and>
        c = time_bytes g x @ z \<and> OPENSSL_tm_to_posix t = Some (p + off))"
  unfolding parse_fields_iff using finish_iff by blast

end
