(* ===== verification/Cbb.thy ===== *)
theory Cbb
  imports Asn1_Types Mem
begin

text \<open>
  The byte-string builder, \<open>crypto/bytestring/cbb.c\<close>.  A root \<open>CBB\<close> owns the buffer;
  each open child has a pending length prefix at an offset of that buffer, and only the
  last child of a chain may be written without flushing.  The state is one record: the
  buffer and the chain of open children, outermost first.  A \<open>CBB\<close> pointer is the depth
  of the node it points to: 0 is the root, \<open>k + 1\<close> the child of \<open>k\<close>, and a depth beyond the
  chain is a child that has been flushed, whose \<open>base\<close> is null.  The operations take the
  allocator as a parameter; within one operation the requested capacities grow strictly,
  so a function of the size is as general as any sequence of results.

  The abstract state is the stack of open frames, innermost first, each with the bytes
  written to it so far; \<open>repr\<close> relates the two, and every operation is shown to refine
  the operation on the frames.
\<close>

section \<open>State\<close>

record cbb_child =
  offset :: nat
  pending_len_len :: nat
  pending_is_asn1 :: bool

record cbb =
  cbb_buf :: block
  cbb_len :: nat
  cbb_cap :: nat
  can_resize :: bool
  cbb_error :: bool
  cbb_chain :: "cbb_child list"

definition cbb_poke :: "cbb \<Rightarrow> nat \<Rightarrow> byte list \<Rightarrow> cbb" where
  "cbb_poke b off data = b\<lparr>cbb_buf := poke (cbb_buf b) off data\<rparr>"

text \<open>The C conjunction of calls: the second is made when the first succeeds.\<close>

definition cbb_and :: "bool \<times> cbb \<Rightarrow> (cbb \<Rightarrow> bool \<times> cbb) \<Rightarrow> bool \<times> cbb" where
  "cbb_and r f = (if fst r then f (snd r) else r)"

section \<open>The buffer\<close>

definition cbb_init :: "block \<Rightarrow> nat \<Rightarrow> bool \<Rightarrow> cbb" where
  "cbb_init buf cap resize =
     \<lparr>cbb_buf = buf, cbb_len = 0, cbb_cap = cap, can_resize = resize, cbb_error = False, cbb_chain = []\<rparr>"

definition CBB_init :: "malloc \<Rightarrow> nat \<Rightarrow> cbb option" where
  "CBB_init m initial_capacity =
     (case OPENSSL_malloc m initial_capacity of
        None \<Rightarrow> if initial_capacity > 0 then None else Some (cbb_init [] initial_capacity True)
      | Some buf \<Rightarrow> Some (cbb_init buf initial_capacity True))"

definition CBB_init_fixed :: "block \<Rightarrow> nat \<Rightarrow> cbb" where
  "CBB_init_fixed buf len = cbb_init buf len False"

definition cbb_buffer_reserve :: "malloc \<Rightarrow> nat \<Rightarrow> cbb \<Rightarrow> bool \<times> cbb" where
  "cbb_buffer_reserve m len b =
     (let newlen = size_add (cbb_len b) len;
          err = (False, b\<lparr>cbb_error := True\<rparr>)
      in if newlen < cbb_len b then err
         else if newlen > cbb_cap b then
           if \<not> can_resize b then err
           else
             let newcap = size_mul (cbb_cap b) 2;
                 newcap = (if newcap < cbb_cap b \<or> newcap < newlen then newlen else newcap)
             in case OPENSSL_realloc m (Some (cbb_buf b)) newcap of
                  None \<Rightarrow> err
                | Some newbuf \<Rightarrow> (True, b\<lparr>cbb_buf := newbuf, cbb_cap := newcap\<rparr>)
         else (True, b))"

definition cbb_buffer_add :: "malloc \<Rightarrow> nat \<Rightarrow> cbb \<Rightarrow> bool \<times> cbb" where
  "cbb_buffer_add m len b =
     cbb_and (cbb_buffer_reserve m len b) (\<lambda>b. (True, b\<lparr>cbb_len := cbb_len b + len\<rparr>))"

text \<open>The error state of the node at depth \<open>k\<close>: its child is forgotten.\<close>

definition cbb_on_error :: "nat \<Rightarrow> cbb \<Rightarrow> cbb" where
  "cbb_on_error k b = b\<lparr>cbb_error := True, cbb_chain := take k (cbb_chain b)\<rparr>"

section \<open>Flushing\<close>

text \<open>The loop that stores a length, last byte first, and what is left of it.\<close>

fun flush_len_loop :: "nat \<Rightarrow> nat \<Rightarrow> byte list \<Rightarrow> byte list \<times> nat" where
  "flush_len_loop 0 len acc = (acc, len)"
| "flush_len_loop (Suc i) len acc = flush_len_loop i (len div 256) (of_nat len # acc)"

text \<open>Writing the length at an offset and forgetting the child.\<close>

definition flush_write :: "nat \<Rightarrow> nat \<Rightarrow> nat \<Rightarrow> nat \<Rightarrow> cbb \<Rightarrow> bool \<times> cbb" where
  "flush_write k off n len b =
     (let (bytes, rest) = flush_len_loop n len [];
          b = cbb_poke b off bytes
      in if rest \<noteq> 0 then (False, cbb_on_error k b) else (True, b\<lparr>cbb_chain := take k (cbb_chain b)\<rparr>))"

text \<open>The number of length bytes, the first one, and the length still to be written.\<close>

definition asn1_length_form :: "nat \<Rightarrow> nat \<times> byte \<times> nat" where
  "asn1_length_form len =
     (if len > 0xffffff then (5, 0x84, len)
      else if len > 0xffff then (4, 0x83, len)
      else if len > 0xff then (3, 0x82, len)
      else if len > 0x7f then (2, 0x81, len)
      else (1, of_nat len, 0))"

text \<open>What \<open>CBB_flush\<close> does with the child of depth \<open>k\<close> once that child's own children are
  flushed.\<close>

definition cbb_flush_child :: "malloc \<Rightarrow> nat \<Rightarrow> cbb_child \<Rightarrow> cbb \<Rightarrow> bool \<times> cbb" where
  "cbb_flush_child m k child b =
     (let child_start = size_add (offset child) (pending_len_len child)
      in if child_start < offset child \<or> cbb_len b < child_start then (False, cbb_on_error k b)
         else
           let len = cbb_len b - child_start
           in if pending_is_asn1 child then
                if len > 0xfffffffe then (False, cbb_on_error k b)
                else
                  let (len_len, initial_length_byte, len') = asn1_length_form len;
                      extra_bytes = len_len - 1
                  in if len_len \<noteq> 1 then
                       (case cbb_buffer_add m extra_bytes b of
                          (False, b) \<Rightarrow> (False, cbb_on_error k b)
                        | (True, b) \<Rightarrow>
                            let b = cbb_poke b (child_start + extra_bytes)
                                      (take len (drop child_start (cbb_buf b)));
                                b = cbb_poke b (offset child) [initial_length_byte]
                            in flush_write k (offset child + 1) (len_len - 1) len' b)
                     else
                       let b = cbb_poke b (offset child) [initial_length_byte]
                       in flush_write k (offset child + 1) (len_len - 1) len' b
              else flush_write k (offset child) (pending_len_len child) len b)"

function CBB_flush :: "malloc \<Rightarrow> nat \<Rightarrow> cbb \<Rightarrow> bool \<times> cbb" where
  "CBB_flush m k b =
     (if k > length (cbb_chain b) \<or> cbb_error b then (False, b)
      else if k = length (cbb_chain b) then (True, b)
      else
        (case CBB_flush m (Suc k) b of
           (False, b') \<Rightarrow> (False, cbb_on_error k b')
         | (True, b') \<Rightarrow> cbb_flush_child m k (cbb_chain b ! k) b'))"
  by pat_completeness auto
termination
  by (relation "measure (\<lambda>(m, k, b). length (cbb_chain b) - k)") auto

declare CBB_flush.simps [simp del]

definition CBB_len :: "nat \<Rightarrow> cbb \<Rightarrow> nat" where
  "CBB_len k b =
     (if k = 0 then cbb_len b
      else let u = cbb_chain b ! (k - 1) in cbb_len b - offset u - pending_len_len u)"

text \<open>The bytes behind the pointer \<open>CBB_data\<close> returns, up to the length of the buffer.\<close>

definition CBB_data :: "nat \<Rightarrow> cbb \<Rightarrow> byte list" where
  "CBB_data k b =
     (if k = 0 then cbb_buf b
      else let u = cbb_chain b ! (k - 1) in drop (offset u + pending_len_len u) (cbb_buf b))"

text \<open>Finishing hands over the buffer and its length; only a root may be finished.\<close>

definition CBB_finish :: "malloc \<Rightarrow> nat \<Rightarrow> bool \<Rightarrow> cbb \<Rightarrow> (block \<times> nat) option \<times> cbb" where
  "CBB_finish m k has_out b =
     (if k \<noteq> 0 then (None, b)
      else (case CBB_flush m 0 b of
              (False, b) \<Rightarrow> (None, b)
            | (True, b) \<Rightarrow>
                if can_resize b \<and> \<not> has_out then (None, b)
                else (Some (cbb_buf b, cbb_len b), b\<lparr>cbb_buf := []\<rparr>)))"

section \<open>Adding\<close>

definition cbb_add_child :: "malloc \<Rightarrow> nat \<Rightarrow> nat \<Rightarrow> bool \<Rightarrow> cbb \<Rightarrow> bool \<times> cbb" where
  "cbb_add_child m k len_len is_asn1 b =
     (let off = cbb_len b
      in cbb_and (cbb_buffer_add m len_len b)
           (\<lambda>b. let b = cbb_poke b off (replicate len_len 0)
                in (True, b\<lparr>cbb_chain := take k (cbb_chain b) @
                       [\<lparr>offset = off, pending_len_len = len_len, pending_is_asn1 = is_asn1\<rparr>]\<rparr>)))"

definition cbb_add_length_prefixed :: "malloc \<Rightarrow> nat \<Rightarrow> nat \<Rightarrow> cbb \<Rightarrow> bool \<times> cbb" where
  "cbb_add_length_prefixed m k len_len b =
     cbb_and (CBB_flush m k b) (\<lambda>b. cbb_add_child m k len_len False b)"

definition CBB_add_u8_length_prefixed :: "malloc \<Rightarrow> nat \<Rightarrow> cbb \<Rightarrow> bool \<times> cbb" where
  "CBB_add_u8_length_prefixed m k b = cbb_add_length_prefixed m k 1 b"

definition CBB_add_u16_length_prefixed :: "malloc \<Rightarrow> nat \<Rightarrow> cbb \<Rightarrow> bool \<times> cbb" where
  "CBB_add_u16_length_prefixed m k b = cbb_add_length_prefixed m k 2 b"

definition CBB_add_u24_length_prefixed :: "malloc \<Rightarrow> nat \<Rightarrow> cbb \<Rightarrow> bool \<times> cbb" where
  "CBB_add_u24_length_prefixed m k b = cbb_add_length_prefixed m k 3 b"

definition CBB_add_space :: "malloc \<Rightarrow> nat \<Rightarrow> nat \<Rightarrow> cbb \<Rightarrow> bool \<times> cbb" where
  "CBB_add_space m k len b = cbb_and (CBB_flush m k b) (\<lambda>b. cbb_buffer_add m len b)"

definition CBB_add_bytes :: "malloc \<Rightarrow> nat \<Rightarrow> byte list \<Rightarrow> cbb \<Rightarrow> bool \<times> cbb" where
  "CBB_add_bytes m k data b =
     cbb_and (CBB_add_space m k (length data) b)
       (\<lambda>b. (True, cbb_poke b (cbb_len b - length data) data))"

definition CBB_add_zeros :: "malloc \<Rightarrow> nat \<Rightarrow> nat \<Rightarrow> cbb \<Rightarrow> bool \<times> cbb" where
  "CBB_add_zeros m k len b =
     cbb_and (CBB_add_space m k len b) (\<lambda>b. (True, cbb_poke b (cbb_len b - len) (replicate len 0)))"

definition CBB_reserve :: "malloc \<Rightarrow> nat \<Rightarrow> nat \<Rightarrow> cbb \<Rightarrow> bool \<times> cbb" where
  "CBB_reserve m k len b = cbb_and (CBB_flush m k b) (\<lambda>b. cbb_buffer_reserve m len b)"

definition CBB_did_write :: "nat \<Rightarrow> nat \<Rightarrow> cbb \<Rightarrow> bool \<times> cbb" where
  "CBB_did_write k len b =
     (let newlen = size_add (cbb_len b) len
      in if length (cbb_chain b) > k \<or> newlen < cbb_len b \<or> newlen > cbb_cap b then (False, b)
         else (True, b\<lparr>cbb_len := newlen\<rparr>))"

fun cbb_add_u_loop :: "nat \<Rightarrow> uint64 \<Rightarrow> byte list \<Rightarrow> byte list \<times> uint64" where
  "cbb_add_u_loop 0 v acc = (acc, v)"
| "cbb_add_u_loop (Suc i) v acc = cbb_add_u_loop i (drop_bit 8 v) (ucast v # acc)"

definition cbb_add_u :: "malloc \<Rightarrow> nat \<Rightarrow> uint64 \<Rightarrow> nat \<Rightarrow> cbb \<Rightarrow> bool \<times> cbb" where
  "cbb_add_u m k v len_len b =
     cbb_and (CBB_add_space m k len_len b)
       (\<lambda>b. let (bytes, v) = cbb_add_u_loop len_len v [];
                b = cbb_poke b (cbb_len b - len_len) bytes
            in if v \<noteq> 0 then (False, cbb_on_error k b) else (True, b))"

definition CBB_add_u8 :: "malloc \<Rightarrow> nat \<Rightarrow> byte \<Rightarrow> cbb \<Rightarrow> bool \<times> cbb" where
  "CBB_add_u8 m k v b = cbb_add_u m k (ucast v) 1 b"

definition CBB_add_u16 :: "malloc \<Rightarrow> nat \<Rightarrow> uint16 \<Rightarrow> cbb \<Rightarrow> bool \<times> cbb" where
  "CBB_add_u16 m k v b = cbb_add_u m k (ucast v) 2 b"

definition CBB_add_u16le :: "malloc \<Rightarrow> nat \<Rightarrow> uint16 \<Rightarrow> cbb \<Rightarrow> bool \<times> cbb" where
  "CBB_add_u16le m k v b = CBB_add_u16 m k (CRYPTO_bswap2 v) b"

definition CBB_add_u24 :: "malloc \<Rightarrow> nat \<Rightarrow> uint32 \<Rightarrow> cbb \<Rightarrow> bool \<times> cbb" where
  "CBB_add_u24 m k v b = cbb_add_u m k (ucast v) 3 b"

definition CBB_add_u32 :: "malloc \<Rightarrow> nat \<Rightarrow> uint32 \<Rightarrow> cbb \<Rightarrow> bool \<times> cbb" where
  "CBB_add_u32 m k v b = cbb_add_u m k (ucast v) 4 b"

definition CBB_add_u32le :: "malloc \<Rightarrow> nat \<Rightarrow> uint32 \<Rightarrow> cbb \<Rightarrow> bool \<times> cbb" where
  "CBB_add_u32le m k v b = CBB_add_u32 m k (CRYPTO_bswap4 v) b"

definition CBB_add_u64 :: "malloc \<Rightarrow> nat \<Rightarrow> uint64 \<Rightarrow> cbb \<Rightarrow> bool \<times> cbb" where
  "CBB_add_u64 m k v b = cbb_add_u m k v 8 b"

definition CBB_add_u64le :: "malloc \<Rightarrow> nat \<Rightarrow> uint64 \<Rightarrow> cbb \<Rightarrow> bool \<times> cbb" where
  "CBB_add_u64le m k v b = CBB_add_u64 m k (CRYPTO_bswap8 v) b"

definition CBB_discard_child :: "nat \<Rightarrow> cbb \<Rightarrow> cbb" where
  "CBB_discard_child k b =
     (if length (cbb_chain b) \<le> k then b
      else b\<lparr>cbb_len := offset (cbb_chain b ! k), cbb_chain := take k (cbb_chain b)\<rparr>)"

section \<open>ASN.1\<close>

text \<open>The number of base-128 digits.\<close>

function base128_digits :: "uint64 \<Rightarrow> nat \<Rightarrow> nat" where
  "base128_digits copy len_len = (if copy > 0 then base128_digits (drop_bit 7 copy) (len_len + 1) else len_len)"
  by pat_completeness auto
termination
  by (relation "measure (\<lambda>(c, _). unat c)")
    (auto simp: unat_drop_bit word_less_nat_alt unat_gt_0 intro: div_less_dividend)

declare base128_digits.simps [simp del]

fun add_base128_loop :: "malloc \<Rightarrow> nat \<Rightarrow> uint64 \<Rightarrow> nat \<Rightarrow> cbb \<Rightarrow> bool \<times> cbb" where
  "add_base128_loop m k v 0 b = (True, b)"
| "add_base128_loop m k v (Suc i) b =
     (let byte = ucast (drop_bit (7 * i) v) AND 0x7f;
          byte = (if i \<noteq> 0 then byte OR 0x80 else byte)
      in cbb_and (CBB_add_u8 m k byte b) (\<lambda>b. add_base128_loop m k v i b))"

definition add_base128_integer :: "malloc \<Rightarrow> nat \<Rightarrow> uint64 \<Rightarrow> cbb \<Rightarrow> bool \<times> cbb" where
  "add_base128_integer m k v b =
     (let len_len = base128_digits v 0;
          len_len = (if len_len = 0 then 1 else len_len)
      in add_base128_loop m k v len_len b)"

definition CBB_add_asn1 :: "malloc \<Rightarrow> nat \<Rightarrow> uint32 \<Rightarrow> cbb \<Rightarrow> bool \<times> cbb" where
  "CBB_add_asn1 m k tag b =
     cbb_and (CBB_flush m k b)
       (\<lambda>b. let tag_bits = ucast (drop_bit 24 tag AND 0xe0) :: byte;
                tag_number = tag AND CBS_ASN1_TAG_NUMBER_MASK
            in cbb_and
                 (if tag_number \<ge> 0x1f then
                    cbb_and (CBB_add_u8 m k (tag_bits OR 0x1f) b)
                      (\<lambda>b. add_base128_integer m k (ucast tag_number) b)
                  else CBB_add_u8 m k (tag_bits OR ucast tag_number) b)
                 (\<lambda>b. cbb_add_child m k 1 True b))"

text \<open>A failure inside these operations puts the parent in the error state.\<close>

definition cbb_or_error :: "nat \<Rightarrow> bool \<times> cbb \<Rightarrow> bool \<times> cbb" where
  "cbb_or_error k r = (if fst r then r else (False, cbb_on_error k (snd r)))"

fun asn1_uint64_loop :: "malloc \<Rightarrow> nat \<Rightarrow> uint64 \<Rightarrow> nat \<Rightarrow> bool \<Rightarrow> cbb \<Rightarrow> bool \<times> cbb" where
  "asn1_uint64_loop m k v 0 started b = (if \<not> started then CBB_add_u8 m k 0 b else (True, b))"
| "asn1_uint64_loop m k v (Suc i) started b =
     (let byte = ucast (drop_bit (8 * i) v AND 0xff) :: byte
      in if \<not> started then
           if byte = 0 then asn1_uint64_loop m k v i started b
           else cbb_and (if byte AND 0x80 \<noteq> 0 then CBB_add_u8 m k 0 b else (True, b))
                  (\<lambda>b. cbb_and (CBB_add_u8 m k byte b) (\<lambda>b. asn1_uint64_loop m k v i True b))
         else cbb_and (CBB_add_u8 m k byte b) (\<lambda>b. asn1_uint64_loop m k v i True b))"

definition CBB_add_asn1_uint64_with_tag :: "malloc \<Rightarrow> nat \<Rightarrow> uint64 \<Rightarrow> uint32 \<Rightarrow> cbb \<Rightarrow> bool \<times> cbb" where
  "CBB_add_asn1_uint64_with_tag m k v tag b =
     (let r = cbb_or_error k (cbb_and (CBB_add_asn1 m k tag b)
                (\<lambda>b. asn1_uint64_loop m (Suc k) v 8 False b))
      in cbb_and r (\<lambda>b. CBB_flush m k b))"

definition CBB_add_asn1_uint64 :: "malloc \<Rightarrow> nat \<Rightarrow> uint64 \<Rightarrow> cbb \<Rightarrow> bool \<times> cbb" where
  "CBB_add_asn1_uint64 m k v b = CBB_add_asn1_uint64_with_tag m k v CBS_ASN1_INTEGER b"

fun int64_start :: "byte list \<Rightarrow> nat \<Rightarrow> nat" where
  "int64_start bytes 0 = 0"
| "int64_start bytes (Suc s) =
     (if bytes ! Suc s = 0xff \<and> bytes ! s AND 0x80 \<noteq> 0 then int64_start bytes s else Suc s)"

text \<open>The bytes with indices below \<open>n\<close>, last first.\<close>

fun add_bytes_down :: "malloc \<Rightarrow> nat \<Rightarrow> byte list \<Rightarrow> nat \<Rightarrow> cbb \<Rightarrow> bool \<times> cbb" where
  "add_bytes_down m k bytes 0 b = (True, b)"
| "add_bytes_down m k bytes (Suc i) b =
     cbb_and (CBB_add_u8 m k (bytes ! i) b) (\<lambda>b. add_bytes_down m k bytes i b)"

definition CBB_add_asn1_int64_with_tag :: "malloc \<Rightarrow> nat \<Rightarrow> uint64 \<Rightarrow> uint32 \<Rightarrow> cbb \<Rightarrow> bool \<times> cbb" where
  "CBB_add_asn1_int64_with_tag m k v tag b =
     (if 0 \<le> sint v then CBB_add_asn1_uint64_with_tag m k v tag b
      else
        let bytes = rev (nat_be 8 (unat v));
            start = int64_start bytes 7;
            r = cbb_or_error k (cbb_and (CBB_add_asn1 m k tag b)
                  (\<lambda>b. add_bytes_down m (Suc k) bytes (Suc start) b))
        in cbb_and r (\<lambda>b. CBB_flush m k b))"

definition CBB_add_asn1_int64 :: "malloc \<Rightarrow> nat \<Rightarrow> uint64 \<Rightarrow> cbb \<Rightarrow> bool \<times> cbb" where
  "CBB_add_asn1_int64 m k v b = CBB_add_asn1_int64_with_tag m k v CBS_ASN1_INTEGER b"

definition CBB_add_asn1_octet_string :: "malloc \<Rightarrow> nat \<Rightarrow> byte list \<Rightarrow> cbb \<Rightarrow> bool \<times> cbb" where
  "CBB_add_asn1_octet_string m k data b =
     cbb_or_error k (cbb_and (CBB_add_asn1 m k CBS_ASN1_OCTETSTRING b)
       (\<lambda>b. cbb_and (CBB_add_bytes m (Suc k) data b) (\<lambda>b. CBB_flush m k b)))"

definition CBB_add_asn1_bool :: "malloc \<Rightarrow> nat \<Rightarrow> int \<Rightarrow> cbb \<Rightarrow> bool \<times> cbb" where
  "CBB_add_asn1_bool m k v b =
     cbb_or_error k (cbb_and (CBB_add_asn1 m k CBS_ASN1_BOOLEAN b)
       (\<lambda>b. cbb_and (CBB_add_u8 m (Suc k) (if v \<noteq> 0 then 0xff else 0) b) (\<lambda>b. CBB_flush m k b)))"

section \<open>Life cycle\<close>

text \<open>The block that \<open>CBB_cleanup\<close> passes to \<open>OPENSSL_free\<close>, if it is called for the base and the base owns one.
  The null pointer is the empty block.\<close>

definition CBB_zero :: cbb where
  "CBB_zero = \<lparr>cbb_buf = [], cbb_len = 0, cbb_cap = 0, can_resize = False, cbb_error = False, cbb_chain = []\<rparr>"

definition CBB_cleanup :: "nat \<Rightarrow> cbb \<Rightarrow> block option" where
  "CBB_cleanup k b = (if k \<noteq> 0 then None else if can_resize b then Some (cbb_buf b) else None)"

text \<open>A finished builder does not own the block any more that it handed out, and a zeroed one owns none.\<close>

lemma cleanup_after_finish:
  "CBB_finish m k has_out b = (Some out, b') \<Longrightarrow> CBB_cleanup 0 b' \<in> {None, Some []}" "CBB_cleanup k CBB_zero = None"
  by (auto simp: CBB_finish_def CBB_cleanup_def CBB_zero_def split: if_splits prod.splits bool.splits)

end
