(* ===== verification/Cbb_Frames.thy ===== *)
theory Cbb_Frames
  imports Cbb
begin

text \<open>
  The abstract builder and the refinement.  A frame is an open child with its kind of
  length prefix and the bytes written to it; the frames of a builder form a stack whose
  last element is the root.  \<open>repr b fs\<close> says that the state \<open>b\<close> of \<open>Cbb\<close> represents
  the frames \<open>fs\<close>, and \<open>implements\<close> that a call computes an operation on frames: it
  succeeds only with the right result, a failure leaves the error state, and it does
  succeed when the buffer has room for the result.
\<close>

section \<open>Frames\<close>

datatype frame_kind = Root | Prefixed nat | Asn1

type_synonym frames = "(frame_kind \<times> byte list) list"

fun reserved :: "frame_kind \<Rightarrow> nat" where
  "reserved Root = 0"
| "reserved (Prefixed n) = n"
| "reserved Asn1 = 1"

fun layout :: "frames \<Rightarrow> byte list" where
  "layout [] = []"
| "layout ((k, c) # fs) = layout fs @ replicate (reserved k) 0 @ c"

fun chain_of :: "frames \<Rightarrow> cbb_child list" where
  "chain_of [] = []"
| "chain_of [(k, c)] = []"
| "chain_of ((k, c) # f # fs) = chain_of (f # fs) @
     [\<lparr>offset = length (layout (f # fs)), pending_len_len = reserved k, pending_is_asn1 = (k = Asn1)\<rparr>]"

fun wf_frames :: "frames \<Rightarrow> bool" where
  "wf_frames [] = False"
| "wf_frames [(k, c)] = (k = Root)"
| "wf_frames ((k, c) # f # fs) = (k \<noteq> Root \<and> (\<forall>n. k = Prefixed n \<longrightarrow> 1 \<le> n \<and> n \<le> 3) \<and> wf_frames (f # fs))"

text \<open>Closing the innermost frames until depth \<open>d\<close> is the top.\<close>

fun close_frame :: "frame_kind \<Rightarrow> byte list \<Rightarrow> byte list option" where
  "close_frame Root c = None"
| "close_frame (Prefixed n) c = (if length c < 256 ^ n then Some (nat_be n (length c) @ c) else None)"
| "close_frame Asn1 c = (if length c \<le> 0xfffffffe then Some (der_len (length c) @ c) else None)"

fun close_to :: "nat \<Rightarrow> frames \<Rightarrow> frames option" where
  "close_to d [] = None"
| "close_to d [f] = (if d = 0 then Some [f] else None)"
| "close_to d ((k, c) # (k', c') # fs) =
     (if d = Suc (length fs) then Some ((k, c) # (k', c') # fs)
      else if d > Suc (length fs) then None
      else case close_frame k c of None \<Rightarrow> None | Some e \<Rightarrow> close_to d ((k', c' @ e) # fs))"

fun append_top :: "byte list \<Rightarrow> frames \<Rightarrow> frames" where
  "append_top data [] = []"
| "append_top data ((k, c) # fs) = (k, c @ data) # fs"

definition repr :: "cbb \<Rightarrow> frames \<Rightarrow> bool" where
  "repr b fs \<longleftrightarrow> \<not> cbb_error b \<and> length (cbb_buf b) = cbb_cap b \<and> cbb_len b \<le> cbb_cap b \<and>
     cbb_cap b \<le> SIZE_MAX \<and> wf_frames fs \<and> take (cbb_len b) (cbb_buf b) = layout fs \<and>
     cbb_chain b = chain_of fs"

text \<open>The buffer can hold \<open>n\<close> bytes: it has the capacity, or it may grow and the allocator
  never fails.\<close>

definition room :: "malloc \<Rightarrow> cbb \<Rightarrow> nat \<Rightarrow> bool" where
  "room m b n \<longleftrightarrow> n \<le> cbb_cap b \<or>
     can_resize b \<and> (\<forall>k. m k \<noteq> None) \<and> cbb_cap b \<le> 4611686018427387904 \<and> n \<le> 2305843009213693952"

definition implements :: "malloc \<Rightarrow> cbb \<Rightarrow> bool \<times> cbb \<Rightarrow> frames option \<Rightarrow> bool" where
  "implements m b res spec \<longleftrightarrow>
     (fst res \<longrightarrow> (\<exists>fs'. spec = Some fs' \<and> repr (snd res) fs')) \<and>
     (\<not> fst res \<longrightarrow> cbb_error (snd res)) \<and>
     (\<forall>fs'. spec = Some fs' \<and> room m b (length (layout fs')) \<longrightarrow> fst res) \<and>
     (\<forall>n. room m b n \<longrightarrow> room m (snd res) n)"

section \<open>Frames and depths\<close>

lemma length_chain_of: "wf_frames fs \<Longrightarrow> Suc (length (chain_of fs)) = length fs"
  by (induction fs rule: chain_of.induct) auto

lemma repr_len: "repr b fs \<Longrightarrow> cbb_len b = length (layout fs)"
  unfolding repr_def by (metis length_take min.absorb2)

lemma repr_depth: "repr b fs \<Longrightarrow> Suc (length (cbb_chain b)) = length fs"
  by (simp add: repr_def length_chain_of)

lemma close_to_length: "close_to d fs = Some fs' \<Longrightarrow> length fs' = Suc d"
  by (induction d fs rule: close_to.induct) (auto split: if_splits option.splits)

lemma der_len_length: "1 \<le> length (der_len n)"
  by (simp add: der_len_def)

lemma close_frame_length: "close_frame k c = Some e \<Longrightarrow> reserved k + length c \<le> length e"
  using der_len_length [of "length c"] by (cases k) (auto split: if_splits)

lemma close_to_layout:
  "close_to d fs = Some fs' \<Longrightarrow> length (layout fs) \<le> length (layout fs')"
proof (induction d fs rule: close_to.induct)
  case (3 d k c k' c' fs)
  show ?case
  proof (cases "d = Suc (length fs)")
    case False
    with "3.prems" obtain e where e: "close_frame k c = Some e" "close_to d ((k', c' @ e) # fs) = Some fs'"
      by (auto split: if_splits option.splits)
    with "3.prems" False have "length (layout ((k', c' @ e) # fs)) \<le> length (layout fs')"
      by (intro "3.IH") (auto split: if_splits)
    with close_frame_length [OF e(1)] show ?thesis by simp
  qed (use "3.prems" in simp)
qed (auto split: if_splits)

lemma wf_frames_top: "wf_frames ((k, c) # fs) = wf_frames ((k, c') # fs)"
  by (cases fs) auto

lemma close_to_wf: "close_to d fs = Some fs' \<Longrightarrow> wf_frames fs \<Longrightarrow> wf_frames fs'"
proof (induction d fs rule: close_to.induct)
  case (3 d k c k' c' fs)
  then show ?case using wf_frames_top [of k' c' fs] by (auto split: if_splits option.splits)
qed (auto split: if_splits)

text \<open>Closing one frame at a time.\<close>

lemma close_to_self: "Suc d = length fs \<Longrightarrow> close_to d fs = Some fs"
  by (induction d fs rule: close_to.induct) auto

lemma close_to_step:
  "Suc d < length fs \<Longrightarrow>
   close_to d fs = Option.bind (close_to (Suc d) fs) (\<lambda>gs. close_to d gs)"
proof (induction d fs rule: close_to.induct)
  case (3 d k c k' c' fs)
  show ?case
  proof (cases "d = length fs")
    case True
    then show ?thesis by simp
  next
    case False
    with "3.prems" have "d < length fs" by simp
    with "3.IH" show ?thesis by (auto split: option.splits)
  qed
qed auto

lemma close_to_le: "close_to d fs = Some fs' \<Longrightarrow> d < length fs"
  by (induction d fs rule: close_to.induct) (auto split: if_splits option.splits)

lemma close_to_close_to: "close_to d fs = Some gs \<Longrightarrow> close_to d gs = Some gs"
  using close_to_length close_to_self by metis

text \<open>Flushing deeper levels keeps the children that stay open.\<close>

lemma chain_of_take:
  "wf_frames ((k, c) # f # fs) \<Longrightarrow> chain_of (f # fs) = take (length fs) (chain_of ((k, c) # f # fs))"
  using length_chain_of [of "f # fs"] by simp

lemma chain_of_top: "chain_of ((k, c) # fs) = chain_of ((k, c') # fs)"
  by (cases fs) auto

lemma close_to_chain:
  "close_to d fs = Some gs \<Longrightarrow> wf_frames fs \<Longrightarrow> chain_of gs = take d (chain_of fs)"
proof (induction d fs rule: close_to.induct)
  case (3 d k c k' c' fs)
  have w: "wf_frames ((k', c') # fs)" using "3.prems" by simp
  have cut: "chain_of ((k', x) # fs) = take (length fs) (chain_of ((k, c) # (k', c') # fs))" for x
    using chain_of_take [of k c "(k', c')" fs] "3.prems"(2) chain_of_top [of k' x fs c'] by simp
  show ?case
  proof (cases "d = Suc (length fs)")
    case True
    then show ?thesis using "3.prems" length_chain_of [OF "3.prems"(2)] by auto
  next
    case False
    with "3.prems" obtain e where e: "close_frame k c = Some e" "close_to d ((k', c' @ e) # fs) = Some gs"
      by (auto split: if_splits option.splits)
    have "wf_frames ((k', c' @ e) # fs)" using w by (cases fs) auto
    with "3.IH" e False have "chain_of gs = take d (chain_of ((k', c' @ e) # fs))"
      using "3.prems" by (auto split: if_splits)
    also have "\<dots> = take d (chain_of ((k, c) # (k', c') # fs))"
      using False close_to_le [OF e(2)] by (simp only: cut take_take) simp
    finally show ?thesis .
  qed
qed (auto split: if_splits)

lemma flush_chain_nth:
  "repr b fs \<Longrightarrow> close_to (Suc k) fs = Some gs \<Longrightarrow> chain_of gs ! k = chain_of fs ! k"
  using close_to_chain [of "Suc k" fs gs] by (simp add: repr_def)

section \<open>Storing\<close>

lemma poke_append: "length p = off \<Longrightarrow> length x = length data \<Longrightarrow> poke (p @ x @ s) off data = p @ data @ s"
  by (simp add: poke_def)

lemma take_poke_inside:
  assumes "take n buf = p @ x @ s" "length p = off" "length x = length data" "n \<le> length buf"
  shows "take n (poke buf off data) = p @ data @ s"
proof -
  have n: "n = length (p @ x @ s)" using assms by (metis length_take min.absorb2)
  have "buf = p @ x @ s @ drop n buf" using assms(1) by (metis append.assoc append_take_drop_id)
  then have "poke buf off data = p @ data @ s @ drop n buf"
    using poke_append [OF assms(2,3), of "s @ drop n buf"] by simp
  then show ?thesis using n assms by simp
qed

lemma cbb_poke_simps [simp]:
  "cbb_len (cbb_poke b off d) = cbb_len b" "cbb_cap (cbb_poke b off d) = cbb_cap b"
  "can_resize (cbb_poke b off d) = can_resize b" "cbb_error (cbb_poke b off d) = cbb_error b"
  "cbb_chain (cbb_poke b off d) = cbb_chain b" "cbb_buf (cbb_poke b off d) = poke (cbb_buf b) off d"
  by (simp_all add: cbb_poke_def)

lemma cbb_on_error_simps [simp]:
  "cbb_error (cbb_on_error k b)" "cbb_cap (cbb_on_error k b) = cbb_cap b"
  "can_resize (cbb_on_error k b) = can_resize b"
  by (simp_all add: cbb_on_error_def)

lemma room_cong: "cbb_cap b' = cbb_cap b \<Longrightarrow> can_resize b' = can_resize b \<Longrightarrow> room m b' n = room m b n"
  by (simp add: room_def)

lemma room_mono: "room m b n \<Longrightarrow> k \<le> n \<Longrightarrow> room m b k"
  by (auto simp: room_def)

section \<open>Growing the buffer\<close>

lemma OPENSSL_malloc_total: "(\<And>k. m k \<noteq> None) \<Longrightarrow> n \<le> 9223372036854775808 \<Longrightarrow> OPENSSL_malloc m n \<noteq> None"
  by (auto simp: OPENSSL_malloc_def size_add_nowrap split: option.splits)

lemma cbb_buffer_reserve_cases:
  assumes b: "length (cbb_buf b) = cbb_cap b" "cbb_len b \<le> cbb_cap b" "cbb_cap b \<le> SIZE_MAX"
    and n: "n \<le> SIZE_MAX" and m: "malloc_ok m"
  shows "case cbb_buffer_reserve m n b of (r, b') \<Rightarrow>
     cbb_len b' = cbb_len b \<and> cbb_chain b' = cbb_chain b \<and> can_resize b' = can_resize b \<and>
     length (cbb_buf b') = cbb_cap b' \<and> cbb_cap b' \<le> SIZE_MAX \<and>
     take (cbb_len b) (cbb_buf b') = take (cbb_len b) (cbb_buf b) \<and>
     (r \<longrightarrow> cbb_len b + n \<le> cbb_cap b' \<and> cbb_error b' = cbb_error b) \<and> (\<not> r \<longrightarrow> cbb_error b') \<and>
     (room m b (cbb_len b + n) \<longrightarrow> r) \<and> (\<forall>k. room m b k \<longrightarrow> room m b' k)"
proof (cases "size_add (cbb_len b) n < cbb_len b")
  case True
  moreover have "\<not> room m b (cbb_len b + n)"
    using True b n size_add_overflow_iff [of "cbb_len b" n] by (auto simp: room_def)
  ultimately show ?thesis
    using b room_cong [of "b\<lparr>cbb_error := True\<rparr>" b] by (simp add: cbb_buffer_reserve_def Let_def)
next
  case False
  have nl: "size_add (cbb_len b) n = cbb_len b + n"
    using size_add_no_overflow [OF _ n False] b by simp
  have nb: "cbb_len b + n \<le> SIZE_MAX" using size_add_bound [of "cbb_len b" n] nl by simp
  show ?thesis
  proof (cases "cbb_len b + n > cbb_cap b \<and> can_resize b")
    case False
    then show ?thesis
      using b room_cong [of "b\<lparr>cbb_error := True\<rparr>" b] nl
      by (auto simp: cbb_buffer_reserve_def Let_def room_def)
  next
    case True
    define newcap where "newcap = (let c = size_mul (cbb_cap b) 2
       in if c < cbb_cap b \<or> c < cbb_len b + n then cbb_len b + n else c)"
    have nc: "cbb_len b + n \<le> newcap" "newcap \<le> SIZE_MAX" "cbb_cap b \<le> newcap"
      using nb True by (auto simp: newcap_def Let_def size_mul_def)
    have grow: "newcap \<le> 4611686018427387904"
      if "cbb_cap b \<le> 4611686018427387904" "cbb_len b + n \<le> 2305843009213693952"
      using that True by (auto simp: newcap_def Let_def size_mul_def)
    have res: "cbb_buffer_reserve m n b =
        (case OPENSSL_realloc m (Some (cbb_buf b)) newcap of
           None \<Rightarrow> (False, b\<lparr>cbb_error := True\<rparr>)
         | Some newbuf \<Rightarrow> (True, b\<lparr>cbb_buf := newbuf, cbb_cap := newcap\<rparr>))"
      using True False nl unfolding newcap_def Let_def by (simp add: cbb_buffer_reserve_def Let_def)
    show ?thesis
    proof (cases "OPENSSL_realloc m (Some (cbb_buf b)) newcap")
      case None
      have "\<not> room m b (cbb_len b + n)"
      proof
        assume "room m b (cbb_len b + n)"
        then have "\<forall>k. m k \<noteq> None" "newcap \<le> 4611686018427387904"
          using True grow by (auto simp: room_def)
        then have "OPENSSL_malloc m newcap \<noteq> None" by (intro OPENSSL_malloc_total) auto
        then show False using None by (auto simp: OPENSSL_realloc_def Let_def split: option.splits)
      qed
      then show ?thesis
        using None res b room_cong [of "b\<lparr>cbb_error := True\<rparr>" b] by simp
    next
      case (Some newbuf)
      have l: "length newbuf = newcap" and t: "take (cbb_cap b) newbuf = cbb_buf b"
        using OPENSSL_realloc_Some [OF m Some nc(2)] b nc(3) by simp_all
      have "take (cbb_len b) newbuf = take (cbb_len b) (take (cbb_cap b) newbuf)"
        using b(2) by (simp add: min_def)
      then have "take (cbb_len b) newbuf = take (cbb_len b) (cbb_buf b)" by (simp only: t)
      moreover have "room m (b\<lparr>cbb_buf := newbuf, cbb_cap := newcap\<rparr>) k" if "room m b k" for k
        using that nc grow by (auto simp: room_def newcap_def Let_def size_mul_def split: if_splits)
      ultimately show ?thesis using Some res l nc by simp
    qed
  qed
qed

definition sound :: "cbb \<Rightarrow> bool" where
  "sound b \<longleftrightarrow> length (cbb_buf b) = cbb_cap b \<and> cbb_len b \<le> cbb_cap b \<and> cbb_cap b \<le> SIZE_MAX"

lemma repr_sound: "repr b fs \<Longrightarrow> sound b"
  by (simp add: repr_def sound_def)

lemma buffer_add:
  assumes b: "sound b" and n: "n \<le> SIZE_MAX" and m: "malloc_ok m"
  obtains (fail) b' where "cbb_buffer_add m n b = (False, b')" "cbb_error b'"
      "\<not> room m b (cbb_len b + n)" "\<And>k. room m b k \<Longrightarrow> room m b' k"
  | (ok) b' junk where "cbb_buffer_add m n b = (True, b')" "sound b'" "cbb_len b' = cbb_len b + n"
      "cbb_chain b' = cbb_chain b" "cbb_error b' = cbb_error b"
      "take (cbb_len b + n) (cbb_buf b') = take (cbb_len b) (cbb_buf b) @ junk" "length junk = n"
      "\<And>k. room m b k \<Longrightarrow> room m b' k"
proof -
  obtain r c where rc: "cbb_buffer_reserve m n b = (r, c)" by fastforce
  have c: "cbb_len c = cbb_len b \<and> cbb_chain c = cbb_chain b \<and> can_resize c = can_resize b \<and>
     length (cbb_buf c) = cbb_cap c \<and> cbb_cap c \<le> SIZE_MAX \<and>
     take (cbb_len b) (cbb_buf c) = take (cbb_len b) (cbb_buf b) \<and>
     (r \<longrightarrow> cbb_len b + n \<le> cbb_cap c \<and> cbb_error c = cbb_error b) \<and> (\<not> r \<longrightarrow> cbb_error c) \<and>
     (room m b (cbb_len b + n) \<longrightarrow> r) \<and> (\<forall>k. room m b k \<longrightarrow> room m c k)"
    using cbb_buffer_reserve_cases [of b n m] assms rc by (simp add: sound_def)
  show ?thesis
  proof (cases r)
    case True
    let ?c = "c\<lparr>cbb_len := cbb_len c + n\<rparr>"
    have "room m ?c k" if "room m b k" for k using c that room_cong [of ?c c] by simp
    moreover have "take (cbb_len b + n) (cbb_buf c) =
        take (cbb_len b) (cbb_buf b) @ take n (drop (cbb_len b) (cbb_buf c))"
      using c by (simp add: take_add)
    ultimately show ?thesis
      using c True rc
      by (intro ok [of ?c "take n (drop (cbb_len b) (cbb_buf c))"])
        (simp_all add: cbb_buffer_add_def cbb_and_def sound_def min_def, linarith)
  next
    case False
    then show ?thesis using c rc by (intro fail [of c]) (auto simp: cbb_buffer_add_def cbb_and_def)
  qed
qed

section \<open>Flushing one child\<close>

lemma flush_len_loop_eq: "flush_len_loop n len acc = (nat_be n len @ acc, len div 256 ^ n)"
proof (induction n len acc rule: flush_len_loop.induct)
  case (2 i len acc)
  have "(of_nat len :: byte) = of_nat (len mod 256)" by (intro byte_eqI) (simp add: unat_of_nat)
  with 2 show ?case by (simp add: div_mult2_eq)
qed simp

lemma chain_of_last:
  "k \<noteq> Root \<Longrightarrow> chain_of ((k, c) # f # fs) = chain_of (f # fs) @
     [\<lparr>offset = length (layout (f # fs)), pending_len_len = reserved k, pending_is_asn1 = (k = Asn1)\<rparr>]"
  by (cases f) simp

text \<open>Writing the prefix over the reserved bytes.\<close>

lemma repr_close:
  assumes r: "repr b ((k, c) # (k', c') # fs)"
    and s: "sound b'" "\<not> cbb_error b'" "cbb_chain b' = take (length fs) (cbb_chain b)"
    and d: "take (cbb_len b') (cbb_buf b') = layout ((k', c') # fs) @ e"
  shows "repr b' ((k', c' @ e) # fs)"
proof -
  have "wf_frames ((k', c' @ e) # fs)" using r wf_frames_top [of k' c' fs] by (simp add: repr_def)
  moreover have "take (length fs) (cbb_chain b) = chain_of ((k', c' @ e) # fs)"
  proof -
    have w: "wf_frames ((k', c') # fs)" using r by (simp add: repr_def)
    have "cbb_chain b = chain_of ((k', c') # fs) @ [\<lparr>offset = length (layout ((k', c') # fs)),
        pending_len_len = reserved k, pending_is_asn1 = (k = Asn1)\<rparr>]"
      using r by (simp add: repr_def)
    then show ?thesis using length_chain_of [OF w] chain_of_top [of k' c' fs] by simp
  qed
  ultimately show ?thesis using s d by (simp add: repr_def sound_def)
qed

lemma flush_write_eq:
  "flush_write k off n len b =
     (if len < 256 ^ n then (True, (cbb_poke b off (nat_be n len))\<lparr>cbb_chain := take k (cbb_chain b)\<rparr>)
      else (False, cbb_on_error k (cbb_poke b off (nat_be n len))))"
  by (simp add: flush_write_def flush_len_loop_eq Let_def div_eq_0_iff)

lemma flush_prefixed:
  assumes r: "repr b ((Prefixed n, c) # (k', c') # fs)"
  shows "implements m b (flush_write (length fs) (length (layout ((k', c') # fs))) n (length c) b)
     (case close_frame (Prefixed n) c of None \<Rightarrow> None | Some e \<Rightarrow> Some ((k', c' @ e) # fs))"
proof (cases "length c < 256 ^ n")
  case True
  let ?p = "layout ((k', c') # fs)"
  let ?b = "(cbb_poke b (length ?p) (nat_be n (length c)))\<lparr>cbb_chain := take (length fs) (cbb_chain b)\<rparr>"
  have t: "take (cbb_len b) (cbb_buf b) = ?p @ replicate n 0 @ c" using r by (simp add: repr_def)
  have s: "sound b" using r by (rule repr_sound)
  then have "take (cbb_len b) (poke (cbb_buf b) (length ?p) (nat_be n (length c))) =
      ?p @ nat_be n (length c) @ c"
    using t by (intro take_poke_inside) (auto simp: sound_def)
  moreover have "length ?p + n \<le> cbb_len b" using repr_len [OF r] by simp
  ultimately have "repr ?b ((k', c' @ (nat_be n (length c) @ c)) # fs)"
    using s r by (intro repr_close [OF r]) (auto simp: sound_def repr_def)
  moreover have "room m ?b j = room m b j" for j by (rule room_cong) simp_all
  ultimately show ?thesis using True by (simp add: flush_write_eq implements_def)
next
  case False
  have "room m (cbb_on_error k b'') j = room m b j" if "cbb_cap b'' = cbb_cap b" "can_resize b'' = can_resize b" for j k b''
    using that by (intro room_cong) simp_all
  with False show ?thesis by (simp add: flush_write_eq implements_def)
qed

text \<open>The ASN.1 length: a byte was reserved, and the contents move when it is not enough.\<close>

definition asn1_len_len :: "nat \<Rightarrow> nat" where
  "asn1_len_len len =
     (if len > 0xffffff then 5 else if len > 0xffff then 4 else if len > 0xff then 3
      else if len > 0x7f then 2 else 1)"

lemma der_len_short: "asn1_len_len len = 1 \<Longrightarrow> der_len len = [of_nat len]"
  by (simp add: asn1_len_len_def der_len_def split: if_splits)

lemma length_der_len: "length (der_len len) = asn1_len_len len"
  by (simp add: asn1_len_len_def der_len_def)

lemma flush_short:
  assumes r: "repr b ((Asn1, c) # (k', c') # fs)" and l: "asn1_len_len (length c) = 1"
  defines "p \<equiv> layout ((k', c') # fs)"
  shows "\<exists>b''. flush_write (length fs) (length p + 1) 0 0 (cbb_poke b (length p) [of_nat (length c)]) =
      (True, b'') \<and> repr b'' ((k', c' @ der_len (length c) @ c) # fs) \<and>
      cbb_cap b'' = cbb_cap b \<and> can_resize b'' = can_resize b"
proof -
  let ?b = "(cbb_poke b (length p) (der_len (length c)))\<lparr>cbb_chain := take (length fs) (cbb_chain b)\<rparr>"
  have dl: "der_len (length c) = [of_nat (length c)]" using l by (rule der_len_short)
  have t: "take (cbb_len b) (cbb_buf b) = p @ [0] @ c" using r by (simp add: repr_def p_def)
  have s: "sound b" using r by (rule repr_sound)
  have len: "cbb_len b = length p + 1 + length c" using repr_len [OF r] by (simp add: p_def)
  have pk: "poke x (length p + 1) [] = x" for x by (simp add: poke_def)
  have e: "flush_write (length fs) (length p + 1) 0 0 (cbb_poke b (length p) [of_nat (length c)]) = (True, ?b)"
    using pk by (simp add: flush_write_eq dl cbb_poke_def)
  have "take (cbb_len b) (poke (cbb_buf b) (length p) (der_len (length c))) = p @ der_len (length c) @ c"
    using t s by (intro take_poke_inside) (auto simp: sound_def dl)
  then have "repr ?b ((k', c' @ der_len (length c) @ c) # fs)"
    using s r len by (intro repr_close [OF r]) (auto simp: sound_def repr_def p_def dl)
  with e show ?thesis by simp
qed

lemma der_len_prefix_long:
  assumes "asn1_len_len len \<noteq> 1" "len \<le> 0xfffffffe"
  shows "der_len len = (if len > 0xffffff then 0x84 else if len > 0xffff then 0x83
           else if len > 0xff then 0x82 else 0x81) # nat_be (asn1_len_len len - 1) len"
    and "len < 256 ^ (asn1_len_len len - 1)"
  using assms by (simp_all add: asn1_len_len_def der_len_def split: if_splits)

text \<open>Moving the contents along and writing the header in front of them.\<close>

lemma flush_long:
  assumes r: "repr b ((Asn1, c) # (k', c') # fs)" and b': "sound b'" "\<not> cbb_error b'"
    and len': "cbb_len b' = cbb_len b + extra" and ch: "cbb_chain b' = cbb_chain b"
    and buf: "take (cbb_len b + extra) (cbb_buf b') = take (cbb_len b) (cbb_buf b) @ junk" "length junk = extra"
    and x: "extra = asn1_len_len (length c) - 1" "asn1_len_len (length c) \<noteq> 1" "length c \<le> 0xfffffffe"
    and dl: "der_len (length c) = ib # nat_be extra (length c)"
  defines "p \<equiv> layout ((k', c') # fs)"
  shows "\<exists>b''. flush_write (length fs) (length p + 1) extra (length c)
      (cbb_poke (cbb_poke b' (length p + 1 + extra) (take (length c) (drop (length p + 1) (cbb_buf b'))))
        (length p) [ib]) = (True, b'') \<and> repr b'' ((k', c' @ der_len (length c) @ c) # fs) \<and>
      cbb_cap b'' = cbb_cap b' \<and> can_resize b'' = can_resize b'"
proof -
  let ?n = "cbb_len b + extra"
  have t: "take (cbb_len b) (cbb_buf b) = p @ [0] @ c" using r by (simp add: repr_def p_def)
  have l: "cbb_len b = length p + 1 + length c" using repr_len [OF r] by (simp add: p_def)
  have cap: "?n \<le> length (cbb_buf b')" using b'(1) len' by (simp add: sound_def)
  have buf': "take ?n (cbb_buf b') = (p @ [0] @ c) @ junk" using buf(1) t by simp
  have mv: "take (length c) (drop (length p + 1) (cbb_buf b')) = c"
  proof -
    have "take (length c) (drop (length p + 1) (cbb_buf b')) =
        take (length c) (drop (length p + 1) (take ?n (cbb_buf b')))"
      using l by (simp add: take_drop min_def)
    then show ?thesis by (simp add: buf')
  qed
  obtain u w where uw: "c @ junk = u @ w" "length u = extra" "length w = length c"
    using buf(2) by (metis add.commute append_eq_conv_conj append_take_drop_id length_append length_drop
        length_take min.absorb2 le_add1 diff_add_inverse)
  define buf1 where "buf1 = poke (cbb_buf b') (length p + 1 + extra) c"
  have b1: "take ?n buf1 = p @ [0] @ u @ c"
  proof -
    have "take ?n (cbb_buf b') = (p @ [0] @ u) @ w @ []" using buf' uw(1) by simp
    from take_poke_inside [OF this _ _ cap, of "length p + 1 + extra" c] uw(2,3)
    show ?thesis by (simp add: buf1_def)
  qed
  have l1: "length buf1 = length (cbb_buf b')" unfolding buf1_def using cap l by simp
  define buf2 where "buf2 = poke buf1 (length p) [ib]"
  have b2: "take ?n buf2 = p @ [ib] @ u @ c"
    unfolding buf2_def by (rule take_poke_inside [OF b1 refl _]) (use cap l1 in simp_all)
  have l2: "length buf2 = length (cbb_buf b')" unfolding buf2_def using cap l l1 by simp
  define buf3 where "buf3 = poke buf2 (length p + 1) (nat_be extra (length c))"
  have b3: "take ?n buf3 = p @ der_len (length c) @ c"
  proof -
    have "take ?n buf2 = (p @ [ib]) @ u @ c" using b2 by simp
    then have "take ?n buf3 = (p @ [ib]) @ nat_be extra (length c) @ c"
      unfolding buf3_def using uw(2) cap l2 by (intro take_poke_inside) simp_all
    then show ?thesis by (simp add: dl)
  qed
  have l3: "length buf3 = length (cbb_buf b')" unfolding buf3_def using cap l l2 by simp
  let ?b = "b'\<lparr>cbb_buf := buf3, cbb_chain := take (length fs) (cbb_chain b)\<rparr>"
  have "length c < 256 ^ extra" using der_len_prefix_long(2) [OF x(2,3)] x(1) by simp
  then have "flush_write (length fs) (length p + 1) extra (length c)
      (cbb_poke (cbb_poke b' (length p + 1 + extra) (take (length c) (drop (length p + 1) (cbb_buf b'))))
        (length p) [ib]) = (True, ?b)"
    unfolding mv by (simp add: flush_write_eq cbb_poke_def buf1_def buf2_def buf3_def ch)
  moreover have "repr ?b ((k', c' @ der_len (length c) @ c) # fs)"
    using b' b3 l3 len' by (intro repr_close [OF r]) (auto simp: sound_def p_def)
  ultimately show ?thesis by auto
qed

lemma implementsI:
  assumes "r \<Longrightarrow> \<exists>fs'. spec = Some fs' \<and> repr b' fs'" and "\<not> r \<Longrightarrow> cbb_error b'"
    and "\<And>fs'. spec = Some fs' \<Longrightarrow> room m b (length (layout fs')) \<Longrightarrow> r"
    and "\<And>n. room m b n \<Longrightarrow> room m b' n"
  shows "implements m b (r, b') spec"
  using assms by (auto simp: implements_def)

lemma asn1_length_form_eq:
  "asn1_length_form len =
     (if asn1_len_len len = 1 then (1, of_nat len, 0) else (asn1_len_len len, hd (der_len len), len))"
  by (simp add: asn1_length_form_def asn1_len_len_def der_len_def)

lemma flush_child_implements:
  assumes r: "repr b ((k, c) # (k', c') # fs)" and m: "malloc_ok m" and ch: "child = cbb_chain b ! length fs"
  shows "implements m b (cbb_flush_child m (length fs) child b)
     (case close_frame k c of None \<Rightarrow> None | Some e \<Rightarrow> Some ((k', c' @ e) # fs))"
proof -
  let ?p = "layout ((k', c') # fs)"
  have w: "wf_frames ((k', c') # fs)" "k \<noteq> Root" using r by (auto simp: repr_def)
  have s: "sound b" using r by (rule repr_sound)
  have c: "child = \<lparr>offset = length ?p, pending_len_len = reserved k, pending_is_asn1 = (k = Asn1)\<rparr>"
    using r length_chain_of [OF w(1)] by (simp add: ch repr_def nth_append)
  have l: "cbb_len b = length ?p + reserved k + length c" using repr_len [OF r] by simp
  have st: "size_add (length ?p) (reserved k) = length ?p + reserved k"
    using l s by (intro size_add_nowrap) (simp add: sound_def)
  have cl: "cbb_len b - (length ?p + reserved k) = length c" using l by simp
  show ?thesis
  proof (cases k)
    case (Prefixed n)
    then have "cbb_flush_child m (length fs) child b = flush_write (length fs) (length ?p) n (length c) b"
      using l st cl by (simp add: cbb_flush_child_def c)
    then show ?thesis using flush_prefixed [of b n c k' c' fs] r Prefixed by simp
  next
    case Asn1
    have rA: "repr b ((Asn1, c) # (k', c') # fs)" using r Asn1 by simp
    have fc: "cbb_flush_child m (length fs) child b =
      (if length c > 0xfffffffe then (False, cbb_on_error (length fs) b)
       else if asn1_len_len (length c) = 1 then
         flush_write (length fs) (length ?p + 1) 0 0 (cbb_poke b (length ?p) [of_nat (length c)])
       else (case cbb_buffer_add m (asn1_len_len (length c) - 1) b of
               (False, b) \<Rightarrow> (False, cbb_on_error (length fs) b)
             | (True, b) \<Rightarrow> flush_write (length fs) (length ?p + 1) (asn1_len_len (length c) - 1) (length c)
                 (cbb_poke (cbb_poke b (length ?p + 1 + (asn1_len_len (length c) - 1))
                    (take (length c) (drop (length ?p + 1) (cbb_buf b)))) (length ?p) [hd (der_len (length c))])))"
      using Asn1 l st cl unfolding cbb_flush_child_def c
      by (simp add: asn1_length_form_eq Let_def split: prod.split bool.split)
    consider "length c > 0xfffffffe" | "length c \<le> 0xfffffffe" "asn1_len_len (length c) = 1"
      | "length c \<le> 0xfffffffe" "asn1_len_len (length c) \<noteq> 1" by linarith
    then show ?thesis
    proof cases
      case 1
      then show ?thesis using Asn1 room_cong [of "cbb_on_error (length fs) b" b m]
        by (simp add: fc implements_def)
    next
      case 2
      from flush_short [of b c k' c' fs] r Asn1 2(2) obtain b'' where
        "cbb_flush_child m (length fs) child b = (True, b'')" "repr b'' ((k', c' @ der_len (length c) @ c) # fs)"
        "cbb_cap b'' = cbb_cap b" "can_resize b'' = can_resize b"
        using 2 by (auto simp: fc)
      then show ?thesis using Asn1 2 room_cong [of b'' b m] by (auto intro!: implementsI)
    next
      case 3
      let ?x = "asn1_len_len (length c) - 1"
      have x5: "?x \<le> SIZE_MAX" by (simp add: asn1_len_len_def)
      have dl: "der_len (length c) = hd (der_len (length c)) # nat_be ?x (length c)"
        using der_len_prefix_long(1) [OF 3(2,1)] by (metis list.sel(1))
      have lay: "length (layout ((k', c' @ der_len (length c) @ c) # fs)) = cbb_len b + ?x"
        using l Asn1 3(2) length_der_len [of "length c"] der_len_length [of "length c"] by simp
      from s x5 m show ?thesis
      proof (cases rule: buffer_add)
        case (fail b')
        then show ?thesis
          using Asn1 3 lay room_cong [of "cbb_on_error (length fs) b'" b' m]
          by (auto simp: fc intro!: implementsI)
      next
        case (ok b' junk)
        have "\<not> cbb_error b'" using ok(5) r by (simp add: repr_def)
        note long = flush_long [OF rA ok(2) this ok(3,4,6,7) refl 3(2,1) dl]
        have "\<exists>b''. cbb_flush_child m (length fs) child b = (True, b'') \<and>
            repr b'' ((k', c' @ der_len (length c) @ c) # fs) \<and>
            cbb_cap b'' = cbb_cap b' \<and> can_resize b'' = can_resize b'"
          using long 3 ok(1) by (simp add: fc)
        then obtain b'' where
          "cbb_flush_child m (length fs) child b = (True, b'')"
          "repr b'' ((k', c' @ der_len (length c) @ c) # fs)"
          "cbb_cap b'' = cbb_cap b'" "can_resize b'' = can_resize b'" by blast
        then show ?thesis using Asn1 3 ok(8) room_cong [of b'' b' m] by (auto intro!: implementsI)
      qed
    qed
  qed (use w in simp)
qed

section \<open>CBB_flush\<close>

lemma implements_error: "cbb_error b' \<Longrightarrow> spec = None \<or> \<not> room m b (length (layout (the spec))) \<Longrightarrow>
    (\<And>n. room m b n \<Longrightarrow> room m b' n) \<Longrightarrow> implements m b (False, b') spec"
  by (auto intro!: implementsI)

lemma flush_self:
  assumes "repr b fs" and "Suc k = length fs"
  shows "CBB_flush m k b = (True, b)"
proof -
  have "k = length (cbb_chain b)" "\<not> cbb_error b"
    using assms repr_depth [OF assms(1)] by (simp_all add: repr_def)
  then show ?thesis by (subst CBB_flush.simps) simp
qed

lemma flush_implements:
  "repr b fs \<Longrightarrow> malloc_ok m \<Longrightarrow> k < length fs \<Longrightarrow> implements m b (CBB_flush m k b) (close_to k fs)"
proof (induction "length fs - k" arbitrary: k)
  case 0
  then show ?case by simp
next
  case (Suc x)
  have d: "Suc (length (cbb_chain b)) = length fs" by (rule repr_depth [OF Suc.prems(1)])
  have ne: "\<not> cbb_error b" using Suc.prems(1) by (simp add: repr_def)
  show ?case
  proof (cases "Suc k = length fs")
    case True
    then have "CBB_flush m k b = (True, b)" by (rule flush_self [OF Suc.prems(1)])
    moreover have "close_to k fs = Some fs" using True by (rule close_to_self)
    ultimately show ?thesis using Suc.prems(1) by (simp add: implements_def)
  next
    case False
    then have k: "Suc k < length fs" using Suc.prems(3) by simp
    have IH: "implements m b (CBB_flush m (Suc k) b) (close_to (Suc k) fs)"
      using Suc.hyps Suc.prems k by simp
    have fl: "CBB_flush m k b = (case CBB_flush m (Suc k) b of
        (False, b') \<Rightarrow> (False, cbb_on_error k b') | (True, b') \<Rightarrow> cbb_flush_child m k (cbb_chain b ! k) b')"
      using k d ne by (subst CBB_flush.simps) simp
    have st: "close_to k fs = Option.bind (close_to (Suc k) fs) (\<lambda>gs. close_to k gs)"
      using k by (rule close_to_step)
    obtain r b1 where rb: "CBB_flush m (Suc k) b = (r, b1)" by fastforce
    have mono1: "\<And>n. room m b n \<Longrightarrow> room m b1 n" using IH rb by (simp add: implements_def)
    show ?thesis
    proof (cases r)
      case False
      have "\<not> room m b (length (layout fs'))" if cl: "close_to k fs = Some fs'" for fs'
      proof -
        obtain gs where gs: "close_to (Suc k) fs = Some gs" "close_to k gs = Some fs'"
          using cl by (cases "close_to (Suc k) fs") (simp_all add: st)
        then have "\<not> room m b (length (layout gs))" using IH rb False by (auto simp: implements_def)
        then show ?thesis using close_to_layout [OF gs(2)] room_mono by blast
      qed
      then show ?thesis
        using fl rb False mono1 room_cong [of "cbb_on_error k b1" b1 m] by (auto intro!: implementsI)
    next
      case True
      then obtain gs where gs: "close_to (Suc k) fs = Some gs" and r1: "repr b1 gs"
        using IH rb by (auto simp: implements_def)
      have lg: "length gs = Suc (Suc k)" using close_to_length [OF gs] .
      then obtain kk c k' c' hs where g: "gs = (kk, c) # (k', c') # hs" "length hs = k"
        by (cases gs; cases "tl gs") auto
      have "cbb_chain b ! k = cbb_chain b1 ! k"
        using flush_chain_nth [OF Suc.prems(1) gs] r1 Suc.prems(1) by (simp add: repr_def)
      then have "implements m b1 (cbb_flush_child m k (cbb_chain b ! k) b1)
          (case close_frame kk c of None \<Rightarrow> None | Some e \<Rightarrow> Some ((k', c' @ e) # hs))"
        using flush_child_implements [of b1 kk c k' c' hs m] r1 g Suc.prems(2) by simp
      moreover have "(case close_frame kk c of None \<Rightarrow> None | Some e \<Rightarrow> Some ((k', c' @ e) # hs)) = close_to k fs"
        using st gs g close_to_self [of k "(k', c' @ e) # hs" for e] by (simp split: option.splits)
      ultimately show ?thesis
        using fl rb True mono1 by (auto simp: implements_def)
    qed
  qed
qed

end
