(* ===== verification/Cbb_Ops.thy ===== *)
theory Cbb_Ops
  imports Cbb_Frames
begin

text \<open>
  Every writing operation of \<open>Cbb\<close> refines an operation on frames: appending bytes to the
  frame at the handle's depth, or opening a frame there, after closing what is deeper.
  The ASN.1 writers append exactly the encodings that the readers of \<open>Der\<close> and
  \<open>Asn1_Types\<close> accept.
\<close>

section \<open>Operations on frames\<close>

definition abs_append :: "nat \<Rightarrow> byte list \<Rightarrow> frames \<Rightarrow> frames option" where
  "abs_append d data fs = map_option (append_top data) (close_to d fs)"

definition abs_open :: "nat \<Rightarrow> frame_kind \<Rightarrow> frames \<Rightarrow> frames option" where
  "abs_open d k fs = map_option (\<lambda>gs. (k, []) # gs) (close_to d fs)"

lemma append_top_length [simp]: "length (append_top data fs) = length fs"
  by (cases fs) auto

lemma append_top_append: "append_top y (append_top x fs) = append_top (x @ y) fs"
  by (cases fs) auto

lemma append_top_Nil [simp]: "append_top [] fs = fs"
  by (cases fs) auto

lemma layout_append_top: "fs \<noteq> [] \<Longrightarrow> layout (append_top data fs) = layout fs @ data"
  by (cases fs) auto

lemma chain_of_append_top [simp]: "chain_of (append_top data fs) = chain_of fs"
  by (cases fs) (auto intro: chain_of_top)

lemma wf_append_top [simp]: "wf_frames (append_top data fs) = wf_frames fs"
proof (cases fs)
  case (Cons f gs)
  then show ?thesis using wf_frames_top [of "fst f" "snd f" gs "snd f @ data"] by (cases f) simp
qed simp

lemma close_to_append_top: "Suc d = length fs \<Longrightarrow> close_to d (append_top data fs) = Some (append_top data fs)"
  by (rule close_to_self) simp

lemma layout_append_grows: "length (layout fs) \<le> length (layout (append_top data fs))"
  by (cases fs) auto

text \<open>A second append at the same depth extends the first.\<close>

lemma abs_append_append:
  "Option.bind (abs_append d x fs) (abs_append d y) = abs_append d (x @ y) fs"
proof (cases "close_to d fs")
  case (Some gs)
  then have "close_to d (append_top x gs) = Some (append_top x gs)"
    using close_to_length [OF Some] by (intro close_to_append_top) simp
  with Some show ?thesis by (simp add: abs_append_def append_top_append)
qed (simp add: abs_append_def)

lemma abs_append_Nil: "abs_append d [] fs = close_to d fs"
  by (cases "close_to d fs") (simp_all add: abs_append_def)

text \<open>Opening a frame, filling it and closing it appends its encoding.\<close>

lemma abs_open_append_close:
  "Option.bind (Option.bind (abs_open d k fs) (abs_append (Suc d) data)) (close_to d) =
     (case close_frame k data of None \<Rightarrow> None | Some e \<Rightarrow> abs_append d e fs)"
proof (cases "close_to d fs")
  case None
  then show ?thesis by (simp add: abs_open_def abs_append_def split: option.split)
next
  case (Some gs)
  then have l: "length gs = Suc d" by (rule close_to_length)
  then obtain k' c' hs where gs: "gs = (k', c') # hs" "length hs = d" by (cases gs) auto
  have "close_to (Suc d) ((k, []) # gs) = Some ((k, []) # gs)" using l by (intro close_to_self) simp
  moreover have "close_to d ((k', c' @ e) # hs) = Some ((k', c' @ e) # hs)" for e
    using gs by (intro close_to_self) simp
  ultimately show ?thesis using Some gs by (auto simp: abs_open_def abs_append_def split: option.splits)
qed

section \<open>Chaining refinements\<close>

lemma cbb_and_simps [simp]: "cbb_and (True, b) f = f b" "cbb_and (False, b) f = (False, b)"
  by (simp_all add: cbb_and_def)

lemma cbb_and_assoc: "cbb_and (cbb_and r f) g = cbb_and r (\<lambda>b. cbb_and (f b) g)"
  by (cases r; cases "fst r") auto

lemma implements_Some: "repr b fs \<Longrightarrow> implements m b (True, b) (Some fs)"
  by (simp add: implements_def)

lemma implements_and:
  assumes s1: "implements m b res spec1"
    and s2: "\<And>b' fs'. repr b' fs' \<Longrightarrow> spec1 = Some fs' \<Longrightarrow> implements m b' (f b') (spec2 fs')"
    and grow: "\<And>fs' fs''. spec1 = Some fs' \<Longrightarrow> spec2 fs' = Some fs'' \<Longrightarrow> length (layout fs') \<le> length (layout fs'')"
  shows "implements m b (cbb_and res f) (Option.bind spec1 spec2)"
proof (cases res)
  case (Pair r b1)
  show ?thesis
  proof (cases r)
    case True
    then obtain fs' where fs': "spec1 = Some fs'" "repr b1 fs'" using s1 Pair by (auto simp: implements_def)
    have mono: "\<And>n. room m b n \<Longrightarrow> room m b1 n" using s1 Pair by (auto simp: implements_def)
    from s2 [OF fs'(2,1)] have "implements m b1 (f b1) (spec2 fs')" .
    with mono True Pair fs' show ?thesis by (auto simp: implements_def)
  next
    case False
    have "\<not> room m b (length (layout fs''))" if c: "Option.bind spec1 spec2 = Some fs''" for fs''
    proof -
      obtain fs' where fs': "spec1 = Some fs'" "spec2 fs' = Some fs''" using c by (cases spec1) auto
      then have "\<not> room m b (length (layout fs'))" using s1 Pair False by (auto simp: implements_def)
      with grow [OF fs'] show ?thesis using room_mono by blast
    qed
    with s1 Pair False show ?thesis by (auto simp: implements_def)
  qed
qed

lemma implements_or_error: "implements m b res spec \<Longrightarrow> implements m b (cbb_or_error k res) spec"
  using room_cong [of "cbb_on_error k (snd res)" "snd res" m] by (auto simp: implements_def cbb_or_error_def)

lemma abs_append_grows: "abs_append d data fs = Some fs' \<Longrightarrow> length (layout fs) \<le> length (layout fs')"
  using close_to_layout [of d fs] layout_append_grows order_trans
  by (fastforce simp: abs_append_def)

lemma abs_append_length: "abs_append d data fs = Some fs' \<Longrightarrow> length fs' = Suc d"
  using close_to_length by (auto simp: abs_append_def)

lemma abs_open_length: "abs_open d k fs = Some fs' \<Longrightarrow> length fs' = Suc (Suc d)"
  using close_to_length by (auto simp: abs_open_def)

section \<open>Appending\<close>

lemma add_top_implements:
  assumes r: "repr b fs" and m: "malloc_ok m" and n: "length data \<le> SIZE_MAX"
  shows "implements m b
    (cbb_and (cbb_buffer_add m (length data) b) (\<lambda>b. (True, cbb_poke b (cbb_len b - length data) data)))
    (Some (append_top data fs))"
proof -
  have s: "sound b" using r by (rule repr_sound)
  have ne: "fs \<noteq> []" using r by (auto simp: repr_def)
  have l: "length (layout (append_top data fs)) = cbb_len b + length data"
    using repr_len [OF r] ne by (simp add: layout_append_top)
  from s n m show ?thesis
  proof (cases rule: buffer_add)
    case (fail b')
    then show ?thesis using l by (auto simp: implements_def)
  next
    case (ok b' junk)
    let ?b = "cbb_poke b' (cbb_len b) data"
    have "take (cbb_len b + length data) (poke (cbb_buf b') (cbb_len b) data) = layout fs @ data @ []"
      using ok r s repr_len [OF r]
      by (intro take_poke_inside [where x = junk]) (auto simp: repr_def sound_def)
    then have "repr ?b (append_top data fs)"
      using ok r ne by (auto simp: repr_def sound_def layout_append_top)
    then show ?thesis using ok room_cong [of ?b b' m] by (auto intro!: implementsI)
  qed
qed

lemma CBB_add_bytes_implements:
  assumes "repr b fs" "malloc_ok m" "k < length fs" "length data \<le> SIZE_MAX"
  shows "implements m b (CBB_add_bytes m k data b) (abs_append k data fs)"
proof -
  have "abs_append k data fs = Option.bind (close_to k fs) (\<lambda>fs'. Some (append_top data fs'))"
    by (cases "close_to k fs") (simp_all add: abs_append_def)
  then show ?thesis
    unfolding CBB_add_bytes_def CBB_add_space_def cbb_and_assoc
    using assms layout_append_grows
    by (auto intro!: implements_and flush_implements add_top_implements)
qed

lemma CBB_add_zeros_eq: "CBB_add_zeros m k n b = CBB_add_bytes m k (replicate n 0) b"
  by (simp add: CBB_add_zeros_def CBB_add_bytes_def)

lemma cbb_add_u_loop_eq:
  "cbb_add_u_loop n v acc = (nat_be n (unat v) @ acc, drop_bit (8 * n) v)"
proof (induction n v acc rule: cbb_add_u_loop.induct)
  case (2 i v acc)
  have "(ucast v :: byte) = of_nat (unat v mod 256)"
    by (rule byte_eqI) (simp add: unat_ucast_mod)
  with 2 show ?case by (simp add: unat_drop_bit drop_bit_drop_bit add.commute)
qed simp

lemma drop_bit_eq_0_iff: "drop_bit k v = 0 \<longleftrightarrow> unat v < 2 ^ k" for v :: uint64
proof -
  have "drop_bit k v = 0 \<longleftrightarrow> unat (drop_bit k v) = 0" by (simp add: unat_eq_0)
  then show ?thesis by (simp only: unat_drop_bit) (simp add: div_eq_0_iff)
qed

lemma cbb_add_u_implements:
  assumes "repr b fs" "malloc_ok m" "k < length fs" "n \<le> 8"
  shows "implements m b (cbb_add_u m k v n b)
    (if unat v < 256 ^ n then abs_append k (nat_be n (unat v)) fs else None)"
proof -
  let ?d = "nat_be n (unat v)"
  have i: "implements m b (CBB_add_bytes m k ?d b) (abs_append k ?d fs)"
    using assms by (intro CBB_add_bytes_implements) simp_all
  have v: "drop_bit (8 * n) v = 0 \<longleftrightarrow> unat v < 256 ^ n" by (simp add: drop_bit_eq_0_iff power_mult)
  obtain r b1 where rb: "CBB_add_space m k n b = (r, b1)" by fastforce
  have e: "CBB_add_bytes m k ?d b = (if r then (True, cbb_poke b1 (cbb_len b1 - n) ?d) else (False, b1))"
    using rb by (simp add: CBB_add_bytes_def cbb_and_def)
  have u: "cbb_add_u m k v n b = (if r then if unat v < 256 ^ n
         then (True, cbb_poke b1 (cbb_len b1 - n) ?d)
         else (False, cbb_on_error k (cbb_poke b1 (cbb_len b1 - n) ?d)) else (False, b1))"
    using rb v by (simp add: cbb_add_u_def cbb_and_def cbb_add_u_loop_eq Let_def)
  show ?thesis
  proof (cases "unat v < 256 ^ n")
    case True
    then show ?thesis using i by (cases r) (simp_all add: u e)
  next
    case False
    then show ?thesis
      using i room_cong [of "cbb_on_error k (cbb_poke b1 (cbb_len b1 - n) ?d)" "cbb_poke b1 (cbb_len b1 - n) ?d" m]
      by (cases r) (auto simp: u e implements_def)
  qed
qed

lemma CBB_add_u8_implements:
  assumes "repr b fs" "malloc_ok m" "k < length fs"
  shows "implements m b (CBB_add_u8 m k v b) (abs_append k [v] fs)"
proof -
  have "unat (ucast v :: uint64) = unat v" by (simp add: unat_ucast_up)
  moreover have "nat_be 1 (unat v) = [v]" by (simp add: One_nat_def)
  ultimately show ?thesis using cbb_add_u_implements [OF assms, of 1 "ucast v"]
    unfolding CBB_add_u8_def by simp
qed

section \<open>Opening children\<close>

lemma add_child_implements:
  assumes r: "repr b fs" and m: "malloc_ok m" and d: "Suc k = length fs"
    and n: "n \<le> 3" "kind = (if asn1 then Asn1 else Prefixed n)" "1 \<le> n" "asn1 \<Longrightarrow> n = 1"
  shows "implements m b (cbb_add_child m k n asn1 b) (Some ((kind, []) # fs))"
proof -
  let ?z = "replicate n 0 :: byte list"
  have i: "implements m b (cbb_and (cbb_buffer_add m (length ?z) b)
      (\<lambda>b. (True, cbb_poke b (cbb_len b - length ?z) ?z))) (Some (append_top ?z fs))"
    using r m n(1) by (intro add_top_implements) simp_all
  obtain ok b1 where ob: "cbb_buffer_add m n b = (ok, b1)" by fastforce
  have ln: "cbb_len b1 = cbb_len b + n" if ok
    using ob that by (auto simp: cbb_buffer_add_def cbb_buffer_reserve_def cbb_and_def Let_def
        split: if_splits option.splits)
  have rs: "reserved kind = n" "kind \<noteq> Root" "(kind = Asn1) = asn1" using n by auto
  have ne: "fs \<noteq> []" using d by auto
  show ?thesis
  proof (cases ok)
    case False
    then show ?thesis using i ob by (auto simp: cbb_add_child_def implements_def rs layout_append_top ne)
  next
    case True
    let ?b = "cbb_poke b1 (cbb_len b) ?z"
    let ?c = "?b\<lparr>cbb_chain := take k (cbb_chain ?b) @
      [\<lparr>offset = cbb_len b, pending_len_len = n, pending_is_asn1 = asn1\<rparr>]\<rparr>"
    have r1: "repr ?b (append_top ?z fs)" using i ob True ln by (simp add: implements_def)
    have "cbb_chain ?b = chain_of fs" using r1 by (simp add: repr_def)
    moreover have "wf_frames fs" using r by (simp add: repr_def)
    ultimately have ch: "take k (cbb_chain ?b) = chain_of fs" using length_chain_of [of fs] d by simp
    have "chain_of ((kind, []) # fs) = chain_of fs @
        [\<lparr>offset = cbb_len b, pending_len_len = n, pending_is_asn1 = asn1\<rparr>]"
      using ne rs repr_len [OF r] by (cases fs) simp_all
    moreover have "wf_frames ((kind, []) # fs)" using \<open>wf_frames fs\<close> n ne by (cases fs) auto
    ultimately have "repr ?c ((kind, []) # fs)"
      using r1 ch ne rs unfolding repr_def by (simp add: layout_append_top)
    moreover have "implements m b (True, ?b) (Some (append_top ?z fs))" using i ob True ln by simp
    ultimately show ?thesis
      using ob True room_cong [of ?c ?b m]
      by (auto simp: cbb_add_child_def implements_def Let_def)
  qed
qed

lemma add_length_prefixed_implements:
  assumes "repr b fs" "malloc_ok m" "k < length fs" "1 \<le> n" "n \<le> 3"
  shows "implements m b (cbb_add_length_prefixed m k n b) (abs_open k (Prefixed n) fs)"
proof -
  have "abs_open k (Prefixed n) fs = Option.bind (close_to k fs) (\<lambda>gs. Some ((Prefixed n, []) # gs))"
    by (cases "close_to k fs") (simp_all add: abs_open_def)
  moreover have "implements m b (cbb_and (CBB_flush m k b) (\<lambda>b. cbb_add_child m k n False b))
      (Option.bind (close_to k fs) (\<lambda>gs. Some ((Prefixed n, []) # gs)))"
  proof (rule implements_and [OF flush_implements [OF assms(1-3)]])
    fix b' gs assume "repr b' gs" "close_to k fs = Some gs"
    then show "implements m b' (cbb_add_child m k n False b') (Some ((Prefixed n, []) # gs))"
      using assms close_to_length [of k fs gs] by (intro add_child_implements) simp_all
  qed auto
  ultimately show ?thesis by (simp add: cbb_add_length_prefixed_def)
qed

section \<open>Base-128 integers and tags\<close>

fun digit_count :: "nat \<Rightarrow> nat" where
  "digit_count n = (if n = 0 then 0 else Suc (digit_count (n div 128)))"

declare digit_count.simps [simp del]

lemma base128_digits_eq: "base128_digits v acc = acc + digit_count (unat v)"
proof (induction v acc rule: base128_digits.induct)
  case (1 v acc)
  have "unat (drop_bit 7 v) = unat v div 128" by (simp add: unat_drop_bit)
  with 1 show ?case
    by (subst base128_digits.simps, subst digit_count.simps) (auto simp: word_neq_0_conv unat_eq_0)
qed

lemma digit_count_bounds: "n < 128 ^ digit_count n \<and> (n \<noteq> 0 \<longrightarrow> 128 ^ (digit_count n - 1) \<le> n)"
proof (induction n rule: digit_count.induct)
  case (1 n)
  show ?case
  proof (cases "n = 0")
    case False
    note IH = 1 [OF False]
    let ?d = "digit_count (n div 128)"
    have d: "digit_count n = Suc ?d" using False by (subst digit_count.simps) simp
    have "n < 128 * 128 ^ ?d" using IH by (simp add: div_less_iff_less_mult mult.commute)
    moreover have "128 ^ ?d \<le> n"
    proof (cases "n div 128 = 0")
      case True
      then have "?d = 0" by (subst digit_count.simps) simp
      with False show ?thesis by simp
    next
      case 2: False
      then obtain e where e: "?d = Suc e" by (cases ?d) (auto simp: digit_count.simps [of "n div 128"])
      have "128 ^ e * 128 \<le> n div 128 * 128" using IH 2 e by (intro mult_le_mono1) simp
      also have "\<dots> \<le> n" by simp
      finally show ?thesis by (simp add: e mult.commute)
    qed
    ultimately show ?thesis by (simp add: d)
  qed (simp add: digit_count.simps)
qed

text \<open>The digits of the loop, most significant first.\<close>

lemma base128_high_digits:
  "m < 128 ^ i \<Longrightarrow> (m \<noteq> 0 \<longrightarrow> 128 ^ (i - 1) \<le> m) \<Longrightarrow> (m = 0 \<longrightarrow> i = 0) \<Longrightarrow>
   map (\<lambda>j. 0x80 + of_nat (m div 128 ^ j mod 128)) (rev [0..<i]) = base128_high m"
proof (induction i arbitrary: m)
  case (Suc i)
  have m0: "m \<noteq> 0" using Suc.prems(3) by simp
  have "[0..<Suc i] = 0 # map Suc [0..<i]" by (simp add: map_Suc_upt upt_conv_Cons del: upt_Suc)
  then have u: "rev [0..<Suc i] = map Suc (rev [0..<i]) @ [0]" by (simp add: rev_map)
  have IH: "map (\<lambda>j. 0x80 + of_nat (m div 128 div 128 ^ j mod 128)) (rev [0..<i]) = base128_high (m div 128)"
  proof (rule Suc.IH)
    show "m div 128 < 128 ^ i" using Suc.prems(1) by (simp add: div_less_iff_less_mult mult.commute)
    show "m div 128 \<noteq> 0 \<longrightarrow> 128 ^ (i - 1) \<le> m div 128"
    proof (cases i)
      case (Suc e)
      have "128 ^ i \<le> m" using Suc.prems(2) m0 by simp
      then show ?thesis using Suc by (simp add: less_eq_div_iff_mult_less_eq mult.commute)
    qed simp
    show "m div 128 = 0 \<longrightarrow> i = 0"
    proof
      assume "m div 128 = 0"
      then have "m < 128" by simp
      with Suc.prems(2) m0 have "(128::nat) ^ i < 128 ^ 1" by simp
      then show "i = 0" using power_less_imp_less_exp [of "128 :: nat" i 1] by simp
    qed
  qed
  have "base128_high m = base128_high (m div 128) @ [0x80 + of_nat (m mod 128)]"
    using m0 by (subst base128_high.simps) simp
  then show ?case unfolding u IH [symmetric] by (simp add: comp_def div_mult2_eq)
qed (simp add: base128_high.simps)

fun base128_tail :: "nat \<Rightarrow> nat \<Rightarrow> byte list" where
  "base128_tail n 0 = []"
| "base128_tail n (Suc i) =
     (if i = 0 then of_nat (n mod 128) else 0x80 + of_nat (n div 128 ^ i mod 128)) # base128_tail n i"

lemma base128_tail_eq:
  "base128_tail n (Suc i) =
     map (\<lambda>j. 0x80 + of_nat (n div 128 div 128 ^ j mod 128)) (rev [0..<i]) @ [of_nat (n mod 128)]"
  by (induction i) (simp_all add: div_mult2_eq)

lemma base128_tail_bytes:
  "base128_tail n (if digit_count n = 0 then 1 else digit_count n) = base128_bytes n"
proof (cases "digit_count n")
  case 0
  then have "n = 0" using digit_count_bounds [of n] by simp
  then show ?thesis using 0 by (simp add: base128_bytes_def One_nat_def)
next
  case (Suc i)
  have n0: "n \<noteq> 0" using Suc digit_count.simps [of 0] by (intro notI) simp
  have b: "n < 128 ^ Suc i" "128 ^ i \<le> n" using digit_count_bounds [of n] n0 Suc by simp_all
  have "map (\<lambda>j. 0x80 + of_nat (n div 128 div 128 ^ j mod 128)) (rev [0..<i]) = base128_high (n div 128)"
  proof (rule base128_high_digits)
    show "n div 128 < 128 ^ i" using b(1) by (simp add: div_less_iff_less_mult mult.commute)
    show "n div 128 \<noteq> 0 \<longrightarrow> 128 ^ (i - 1) \<le> n div 128"
    proof (cases i)
      case (Suc e)
      then show ?thesis using b(2) by (simp add: less_eq_div_iff_mult_less_eq mult.commute)
    qed simp
    show "n div 128 = 0 \<longrightarrow> i = 0"
    proof
      assume "n div 128 = 0"
      then have "n < 128" by simp
      with b(2) have "(128::nat) ^ i < 128 ^ 1" by simp
      then show "i = 0" using power_less_imp_less_exp [of "128 :: nat" i 1] by simp
    qed
  qed
  then show ?thesis using Suc base128_tail_eq [of n i] by (simp add: base128_bytes_def)
qed

lemma base128_byte:
  "ucast (drop_bit (7 * i) v) AND 0x7f = (of_nat (unat v div 128 ^ i mod 128) :: byte)"
  "(ucast (drop_bit (7 * i) v) AND 0x7f) OR 0x80 = (0x80 + of_nat (unat v div 128 ^ i mod 128) :: byte)"
  for v :: uint64
proof -
  let ?b = "ucast (drop_bit (7 * i) v) :: byte" and ?d = "unat v div 128 ^ i mod 128"
  have d: "?d < 128" by simp
  have "unat (?b AND 0x7f) = unat ?b mod 128" by (rule byte_and_7f)
  also have "unat ?b mod 128 = unat (drop_bit (7 * i) v) mod 256 mod 128" by (simp add: unat_ucast_mod)
  also have "\<dots> = unat (drop_bit (7 * i) v) mod 128" by (rule mod_mod_cancel) simp
  also have "unat (drop_bit (7 * i) v) = unat v div 128 ^ i" by (simp add: unat_drop_bit power_mult)
  finally have u: "unat (?b AND 0x7f) = ?d" .
  then show e: "?b AND 0x7f = of_nat ?d" using d by (intro byte_eqI) simp
  have "unat ((?b AND 0x7f) OR 0x80) = 128 + ?d"
    using unat_shift_or [of "?b AND 0x7f" 7 1] u d by (simp add: or.commute)
  then show "(?b AND 0x7f) OR 0x80 = 0x80 + of_nat ?d"
    using unat_high_byte [OF d] by (intro byte_eqI) simp
qed

lemma add_base128_loop_implements:
  "repr b fs \<Longrightarrow> malloc_ok m \<Longrightarrow> Suc k = length fs \<Longrightarrow>
   implements m b (add_base128_loop m k v i b) (abs_append k (base128_tail (unat v) i) fs)"
proof (induction i arbitrary: b fs)
  case 0
  then show ?case using implements_Some [of b fs m] by (simp add: abs_append_Nil close_to_self)
next
  case (Suc i)
  let ?byte = "if i = 0 then of_nat (unat v mod 128) else 0x80 + of_nat (unat v div 128 ^ i mod 128) :: byte"
  have byte: "(let byte = ucast (drop_bit (7 * i) v) AND 0x7f in if i \<noteq> 0 then byte OR 0x80 else byte) = ?byte"
    using base128_byte [of i v] by (cases "i = 0") (simp_all add: Let_def)
  have e: "add_base128_loop m k v (Suc i) b =
      cbb_and (CBB_add_u8 m k ?byte b) (\<lambda>b. add_base128_loop m k v i b)"
    unfolding byte [symmetric] by (simp add: Let_def)
  have "implements m b (cbb_and (CBB_add_u8 m k ?byte b) (\<lambda>b. add_base128_loop m k v i b))
      (Option.bind (abs_append k [?byte] fs) (abs_append k (base128_tail (unat v) i)))"
  proof (rule implements_and)
    show "implements m b (CBB_add_u8 m k ?byte b) (abs_append k [?byte] fs)"
      using Suc.prems by (intro CBB_add_u8_implements) simp_all
    fix b' gs assume "repr b' gs" "abs_append k [?byte] fs = Some gs"
    then show "implements m b' (add_base128_loop m k v i b') (abs_append k (base128_tail (unat v) i) gs)"
      using Suc.prems abs_append_length by (intro Suc.IH) simp_all
  qed (rule abs_append_grows)
  then show ?case unfolding e abs_append_append by simp
qed

lemma add_base128_integer_implements:
  assumes "repr b fs" "malloc_ok m" "Suc k = length fs"
  shows "implements m b (add_base128_integer m k v b) (abs_append k (base128_bytes (unat v)) fs)"
  using add_base128_loop_implements [OF assms, of v "if digit_count (unat v) = 0 then 1 else digit_count (unat v)"]
  unfolding base128_tail_bytes by (simp add: add_base128_integer_def base128_digits_eq Let_def)

definition abs_asn1 :: "nat \<Rightarrow> uint32 \<Rightarrow> frames \<Rightarrow> frames option" where
  "abs_asn1 k tag fs = Option.bind (abs_append k (tag_bytes tag) fs) (abs_open k Asn1)"

lemma abs_open_grows: "abs_open k kind fs = Some fs' \<Longrightarrow> length (layout fs) \<le> length (layout fs')"
  using close_to_layout by (fastforce simp: abs_open_def)

lemma abs_asn1_grows: "abs_asn1 k tag fs = Some fs' \<Longrightarrow> length (layout fs) \<le> length (layout fs')"
  using abs_append_grows abs_open_grows order_trans
  by (cases "abs_append k (tag_bytes tag) fs") (fastforce simp: abs_asn1_def)+

lemma abs_asn1_length: "abs_asn1 k tag fs = Some fs' \<Longrightarrow> length fs' = Suc (Suc k)"
  using abs_open_length by (cases "abs_append k (tag_bytes tag) fs") (auto simp: abs_asn1_def)

lemma CBB_add_asn1_implements:
  assumes r: "repr b fs" and m: "malloc_ok m" and k: "k < length fs"
  shows "implements m b (CBB_add_asn1 m k tag b) (abs_asn1 k tag fs)"
proof -
  let ?bits = "ucast (drop_bit 24 tag AND 0xe0) :: byte" and ?n = "tag AND CBS_ASN1_TAG_NUMBER_MASK"
  define body where "body = (\<lambda>b. if ?n \<ge> 0x1f then cbb_and (CBB_add_u8 m k (?bits OR 0x1f) b)
      (\<lambda>b. add_base128_integer m k (ucast ?n) b) else CBB_add_u8 m k (?bits OR ucast ?n) b)"
  have e: "CBB_add_asn1 m k tag b =
      cbb_and (cbb_and (CBB_flush m k b) body) (\<lambda>b. cbb_add_child m k 1 True b)"
    by (simp add: CBB_add_asn1_def cbb_and_assoc body_def Let_def)
  have body: "implements m b' (body b') (abs_append k (tag_bytes tag) gs)"
    if "repr b' gs" "Suc k = length gs" for b' gs
  proof (cases "?n \<ge> 0x1f")
    case True
    have t: "tag_bytes tag = [?bits OR 0x1f] @ base128_bytes (unat (ucast ?n :: uint64))"
      using True by (simp add: tag_bytes_def Let_def unat_ucast_up)
    have "implements m b' (cbb_and (CBB_add_u8 m k (?bits OR 0x1f) b') (\<lambda>b. add_base128_integer m k (ucast ?n) b))
        (Option.bind (abs_append k [?bits OR 0x1f] gs) (abs_append k (base128_bytes (unat (ucast ?n :: uint64)))))"
    proof (rule implements_and)
      show "implements m b' (CBB_add_u8 m k (?bits OR 0x1f) b') (abs_append k [?bits OR 0x1f] gs)"
        using that m by (intro CBB_add_u8_implements) simp_all
      fix b'' hs assume "repr b'' hs" "abs_append k [?bits OR 0x1f] gs = Some hs"
      then show "implements m b'' (add_base128_integer m k (ucast ?n) b'')
          (abs_append k (base128_bytes (unat (ucast ?n :: uint64))) hs)"
        using m abs_append_length by (intro add_base128_integer_implements) simp_all
    qed (rule abs_append_grows)
    then show ?thesis using True unfolding t abs_append_append by (simp add: body_def)
  next
    case False
    have "implements m b' (CBB_add_u8 m k (?bits OR ucast ?n) b') (abs_append k [?bits OR ucast ?n] gs)"
      using that m by (intro CBB_add_u8_implements) simp_all
    then show ?thesis using False by (simp add: body_def tag_bytes_def Let_def)
  qed
  have "implements m b (cbb_and (CBB_flush m k b) body)
      (Option.bind (close_to k fs) (abs_append k (tag_bytes tag)))"
    using r m k close_to_length abs_append_grows
    by (intro implements_and flush_implements) (auto intro!: body)
  moreover have "Option.bind (close_to k fs) (abs_append k (tag_bytes tag)) = abs_append k (tag_bytes tag) fs"
    using abs_append_append [of k "[]" fs "tag_bytes tag"] by (simp add: abs_append_Nil)
  ultimately have 1: "implements m b (cbb_and (CBB_flush m k b) body) (abs_append k (tag_bytes tag) fs)"
    by simp
  show ?thesis
    unfolding e abs_asn1_def
  proof (rule implements_and [OF 1])
    fix b' gs assume g: "repr b' gs" "abs_append k (tag_bytes tag) fs = Some gs"
    then have l: "Suc k = length gs" using abs_append_length by simp
    then have "abs_open k Asn1 gs = Some ((Asn1, []) # gs)" by (simp add: abs_open_def close_to_self)
    then show "implements m b' (cbb_add_child m k 1 True b') (abs_open k Asn1 gs)"
      using g(1) m l by (simp add: add_child_implements)
  qed (rule abs_open_grows)
qed

section \<open>The ASN.1 writers\<close>

text \<open>A complete element: open, write the contents, flush.\<close>

lemma tag_open_close:
  "Option.bind (Option.bind (abs_asn1 k tag fs) (abs_append (Suc k) c)) (close_to k) =
     (if length c \<le> 0xfffffffe then abs_append k (der_element (tag, c)) fs else None)"
proof (cases "abs_append k (tag_bytes tag) fs")
  case None
  then have "abs_append k x fs = None" for x by (simp add: abs_append_def)
  then show ?thesis by (simp add: abs_asn1_def)
next
  case (Some gs)
  have "abs_append k (der_element (tag, c)) fs = Option.bind (Some gs) (abs_append k (der_len (length c) @ c))"
    unfolding Some [symmetric] abs_append_append by (simp add: der_header_def)
  then show ?thesis using Some abs_open_append_close [of k Asn1 gs c] by (simp add: abs_asn1_def)
qed

lemma element_implements:
  assumes r: "repr b fs" and m: "malloc_ok m" and k: "k < length fs"
    and body: "\<And>b' gs. repr b' gs \<Longrightarrow> length gs = Suc (Suc k) \<Longrightarrow>
      implements m b' (body b') (abs_append (Suc k) c gs)"
  shows "implements m b (cbb_and (cbb_and (CBB_add_asn1 m k tag b) body) (\<lambda>b. CBB_flush m k b))
    (if length c \<le> 0xfffffffe then abs_append k (der_element (tag, c)) fs else None)"
proof -
  have 1: "implements m b (cbb_and (CBB_add_asn1 m k tag b) body)
      (Option.bind (abs_asn1 k tag fs) (abs_append (Suc k) c))"
    using abs_asn1_length abs_append_grows
    by (intro implements_and CBB_add_asn1_implements [OF r m k]) (auto intro!: body)
  show ?thesis
    unfolding tag_open_close [symmetric]
  proof (rule implements_and [OF 1])
    fix b' gs assume "repr b' gs" "Option.bind (abs_asn1 k tag fs) (abs_append (Suc k) c) = Some gs"
    then show "implements m b' (CBB_flush m k b') (close_to k gs)"
      using m abs_append_length [of "Suc k" c] by (cases "abs_asn1 k tag fs") (auto intro!: flush_implements)
  qed (rule close_to_layout)
qed

text \<open>Appending in pieces.\<close>

lemma implements_append:
  assumes "implements m b res (abs_append k x fs)"
    and "\<And>b' gs. repr b' gs \<Longrightarrow> length gs = Suc k \<Longrightarrow> implements m b' (f b') (abs_append k y gs)"
  shows "implements m b (cbb_and res f) (abs_append k (x @ y) fs)"
  unfolding abs_append_append [symmetric]
  using assms(2) abs_append_length abs_append_grows by (intro implements_and [OF assms(1)]) auto

fun uint64_loop_bytes :: "nat \<Rightarrow> nat \<Rightarrow> bool \<Rightarrow> byte list" where
  "uint64_loop_bytes v 0 started = (if started then [] else [0])"
| "uint64_loop_bytes v (Suc i) started =
     (let byte = of_nat (v div 256 ^ i mod 256)
      in if started then byte # uint64_loop_bytes v i True
         else if byte = 0 then uint64_loop_bytes v i False
         else (if 128 \<le> unat byte then [0] else []) @ byte # uint64_loop_bytes v i True)"

lemma uint64_loop_started: "uint64_loop_bytes v i True = nat_be i v"
proof (induction i)
  case (Suc i)
  then show ?case by (simp only: uint64_loop_bytes.simps nat_be_Suc if_True Let_def)
qed simp

lemma strip_Cons_nonzero: "b \<noteq> 0 \<Longrightarrow> unat b < 128 \<Longrightarrow> strip (b # r) = b # r"
  by (cases r) auto

lemma strip_zero_step:
  "strip (0 # b # r) = (if b = 0 then strip (0 # r) else (if 128 \<le> unat b then [0] else []) @ b # r)"
  using strip_Cons_nonzero [of b r] by auto

lemma uint64_loop_contents: "uint64_loop_bytes v i False = strip (0 # nat_be i v)"
proof (induction i)
  case (Suc i)
  then show ?case
    unfolding uint64_loop_bytes.simps nat_be_Suc uint64_loop_started Let_def strip_zero_step by simp
qed simp

lemma uint64_byte: "(ucast (drop_bit (8 * i) v AND 0xff) :: byte) = of_nat (unat v div 256 ^ i mod 256)"
  for v :: uint64
proof (rule byte_eqI)
  have "unat (drop_bit (8 * i) v AND 0xff) = unat v div 256 ^ i mod 256"
    using unat_and_mask [of "drop_bit (8 * i) v" 8] by (simp add: mask_eq_exp_minus_1 unat_drop_bit power_mult)
  then show "unat (ucast (drop_bit (8 * i) v AND 0xff) :: byte) = unat (of_nat (unat v div 256 ^ i mod 256) :: byte)"
    by (simp add: unat_ucast_mod)
qed

lemma asn1_uint64_loop_implements:
  "repr b fs \<Longrightarrow> malloc_ok m \<Longrightarrow> Suc k = length fs \<Longrightarrow>
   implements m b (asn1_uint64_loop m k v i started b) (abs_append k (uint64_loop_bytes (unat v) i started) fs)"
proof (induction i arbitrary: b fs started)
  case 0
  then show ?case
    using implements_Some [of b fs m] CBB_add_u8_implements [of b fs m k 0]
    by (auto simp: abs_append_Nil close_to_self)
next
  case (Suc i)
  let ?byte = "of_nat (unat v div 256 ^ i mod 256) :: byte"
  have step: "implements m b' (cbb_and (CBB_add_u8 m k ?byte b') (\<lambda>b. asn1_uint64_loop m k v i True b))
      (abs_append k (?byte # uint64_loop_bytes (unat v) i True) gs)"
    if "repr b' gs" "length gs = Suc k" for b' gs
    using implements_append [OF CBB_add_u8_implements [OF that(1) Suc.prems(2), of k ?byte],
        where f = "\<lambda>b. asn1_uint64_loop m k v i True b" and y = "uint64_loop_bytes (unat v) i True"]
      Suc.IH Suc.prems that by simp
  consider "started" | "\<not> started" "?byte = 0" | "\<not> started" "?byte \<noteq> 0" "128 \<le> unat ?byte"
    | "\<not> started" "?byte \<noteq> 0" "\<not> 128 \<le> unat ?byte" by blast
  then show ?case
  proof cases
    case 1
    then show ?thesis using step [OF Suc.prems(1)] Suc.prems(3) by (simp add: uint64_byte Let_def)
  next
    case 2
    then show ?thesis using Suc by (simp add: uint64_byte Let_def)
  next
    case 3
    have "asn1_uint64_loop m k v (Suc i) started b = cbb_and (CBB_add_u8 m k 0 b)
        (\<lambda>b. cbb_and (CBB_add_u8 m k ?byte b) (\<lambda>b. asn1_uint64_loop m k v i True b))"
      using 3 unfolding asn1_uint64_loop.simps uint64_byte Let_def by (simp only: byte_and_80 not_less if_True not_False_eq_True if_False)
    moreover have "uint64_loop_bytes (unat v) (Suc i) started = [0] @ ?byte # uint64_loop_bytes (unat v) i True"
      using 3 unfolding uint64_loop_bytes.simps Let_def by (simp only: if_True if_False)
    ultimately show ?thesis
      using implements_append [OF CBB_add_u8_implements [OF Suc.prems(1,2), of k 0]] step Suc.prems(3)
      by simp
  next
    case 4
    then show ?thesis
      using step [OF Suc.prems(1)] Suc.prems(3) by (simp add: uint64_byte byte_and_80 Let_def)
  qed
qed

lemma length_uint64_contents: "length (uint64_contents v) \<le> 0xfffffffe"
  using uint64_contents_props(4) [of v] by simp

text \<open>Calls that put the parent in the error state when the contents fail.\<close>

lemma or_error_flush:
  assumes "implements m b (cbb_and r (\<lambda>b. CBB_flush m k b)) spec"
  shows "implements m b (cbb_and (cbb_or_error k r) (\<lambda>b. CBB_flush m k b)) spec"
proof (cases r)
  case (Pair ok b1)
  show ?thesis
  proof (cases ok)
    case False
    then have "implements m b (cbb_or_error k (cbb_and r (\<lambda>b. CBB_flush m k b))) spec"
      using assms by (intro implements_or_error)
    then show ?thesis using False Pair by (simp add: cbb_or_error_def)
  qed (use assms Pair in \<open>simp add: cbb_or_error_def\<close>)
qed

lemma uint64_with_tag_implements:
  assumes "repr b fs" "malloc_ok m" "k < length fs"
  shows "implements m b (CBB_add_asn1_uint64_with_tag m k v tag b)
    (abs_append k (der_element (tag, uint64_contents v)) fs)"
proof -
  have "implements m b (cbb_and (cbb_and (CBB_add_asn1 m k tag b)
      (\<lambda>b. asn1_uint64_loop m (Suc k) v 8 False b)) (\<lambda>b. CBB_flush m k b))
    (if length (uint64_contents v) \<le> 0xfffffffe then abs_append k (der_element (tag, uint64_contents v)) fs else None)"
    using asn1_uint64_loop_implements [of _ _ m "Suc k" v 8 False] assms(2)
    by (intro element_implements [OF assms])
      (simp_all only: uint64_contents_def uint64_loop_contents)
  then show ?thesis
    using length_uint64_contents [of v]
    unfolding CBB_add_asn1_uint64_with_tag_def Let_def by (intro or_error_flush) (simp only: if_True)
qed

lemma int64_start_strip:
  "s < length bytes \<Longrightarrow> 128 \<le> unat (bytes ! s) \<Longrightarrow>
   strip (rev (take (Suc s) bytes)) = rev (take (Suc (int64_start bytes s)) bytes) \<and> int64_start bytes s \<le> s"
proof (induction s)
  case 0
  then show ?case by (cases bytes) auto
next
  case (Suc s)
  have t: "rev (take (Suc (Suc s)) bytes) = bytes ! Suc s # rev (take (Suc s) bytes)"
    using Suc.prems by (simp add: take_Suc_conv_app_nth)
  have t2: "rev (take (Suc s) bytes) = bytes ! s # rev (take s bytes)"
    using Suc.prems by (simp add: take_Suc_conv_app_nth)
  show ?case
  proof (cases "bytes ! Suc s = 0xff \<and> 128 \<le> unat (bytes ! s)")
    case True
    then show ?thesis using Suc by (simp add: t t2 byte_and_80)
  next
    case False
    then have "bytes ! Suc s \<noteq> 0" using Suc.prems by auto
    with False have "strip (bytes ! Suc s # bytes ! s # rev (take s bytes)) = bytes ! Suc s # bytes ! s # rev (take s bytes)"
      unfolding strip_fixed by blast
    moreover have "int64_start bytes (Suc s) = Suc s" using False by (auto simp: byte_and_80 not_less)
    ultimately show ?thesis by (simp only: t t2 le_refl simp_thms)
  qed
qed

lemma add_bytes_down_implements:
  "repr b fs \<Longrightarrow> malloc_ok m \<Longrightarrow> Suc k = length fs \<Longrightarrow> n \<le> length bytes \<Longrightarrow>
   implements m b (add_bytes_down m k bytes n b) (abs_append k (rev (take n bytes)) fs)"
proof (induction n arbitrary: b fs)
  case 0
  then show ?case using implements_Some [of b fs m] by (simp add: abs_append_Nil close_to_self)
next
  case (Suc n)
  have "rev (take (Suc n) bytes) = [bytes ! n] @ rev (take n bytes)"
    using Suc.prems(4) by (simp add: take_Suc_conv_app_nth)
  then show ?case
    using implements_append [OF CBB_add_u8_implements [OF Suc.prems(1,2), of k "bytes ! n"]] Suc by simp
qed

lemma int64_with_tag_implements:
  assumes "repr b fs" "malloc_ok m" "k < length fs"
  shows "implements m b (CBB_add_asn1_int64_with_tag m k v tag b)
    (abs_append k (der_element (tag, int64_contents v)) fs)"
proof -
  let ?n = "nat_be 8 (unat v)" and ?bytes = "rev (nat_be 8 (unat v))"
  have nb: "?n = of_nat (unat v div 256 ^ 7 mod 256) # nat_be 7 (unat v)"
    using nat_be_Suc [of 7 "unat v"] by simp
  have less: "unat v < 256 ^ 8" using unsigned_less [of v, where 'a = nat] by simp
  have hd: "unat (hd ?n) = unat v div 256 ^ 7" using less unfolding nb by simp
  have sign: "0 \<le> sint v \<longleftrightarrow> \<not> 128 \<le> unat (hd ?n)"
  proof -
    have "0 \<le> sint v \<longleftrightarrow> \<not> 2 ^ 63 \<le> unat v"
      using unsigned_less [of v, where 'a = int] by (auto simp: sint_unat_64)
    moreover have "2 ^ 63 \<le> unat v \<longleftrightarrow> 128 \<le> unat v div 256 ^ 7"
      by (simp add: less_eq_div_iff_mult_less_eq)
    ultimately show ?thesis unfolding hd by blast
  qed
  show ?thesis
  proof (cases "0 \<le> sint v")
    case True
    then have "uint64_contents v = int64_contents v"
      using sign nb unfolding uint64_contents_def int64_contents_def by simp
    with True show ?thesis
      using uint64_with_tag_implements [OF assms, of v tag] by (simp add: CBB_add_asn1_int64_with_tag_def)
  next
    case False
    let ?s = "int64_start ?bytes 7"
    have "?bytes ! 7 = hd ?n" by (simp add: rev_nth hd_conv_nth)
    then have st: "strip (rev (take (Suc 7) ?bytes)) = rev (take (Suc ?s) ?bytes)" "?s \<le> 7"
      using int64_start_strip [of 7 ?bytes] sign False by simp_all
    then have c: "int64_contents v = rev (take (Suc ?s) ?bytes)" by (simp add: int64_contents_def)
    have "implements m b (cbb_and (cbb_and (CBB_add_asn1 m k tag b)
        (\<lambda>b. add_bytes_down m (Suc k) ?bytes (Suc ?s) b)) (\<lambda>b. CBB_flush m k b))
      (if length (int64_contents v) \<le> 0xfffffffe then abs_append k (der_element (tag, int64_contents v)) fs else None)"
      using assms(2) st(2) unfolding c
      by (intro element_implements [OF assms] add_bytes_down_implements) simp_all
    moreover have "length (int64_contents v) \<le> 0xfffffffe" using int64_contents_props(3) [of v] by simp
    ultimately show ?thesis
      using False unfolding CBB_add_asn1_int64_with_tag_def Let_def
      by (simp only: if_False) (intro or_error_flush, simp only: if_True)
  qed
qed

lemma octet_string_implements:
  assumes "repr b fs" "malloc_ok m" "k < length fs" "length data \<le> SIZE_MAX"
  shows "implements m b (CBB_add_asn1_octet_string m k data b)
    (if length data \<le> 0xfffffffe then abs_append k (der_element (CBS_ASN1_OCTETSTRING, data)) fs else None)"
  unfolding CBB_add_asn1_octet_string_def cbb_and_assoc [symmetric]
  using assms(2,4)
  by (intro implements_or_error element_implements [OF assms(1-3)] CBB_add_bytes_implements) simp_all

lemma bool_implements:
  assumes "repr b fs" "malloc_ok m" "k < length fs"
  shows "implements m b (CBB_add_asn1_bool m k v b)
    (abs_append k (der_element (CBS_ASN1_BOOLEAN, bool_contents (v \<noteq> 0))) fs)"
proof -
  have "implements m b (cbb_and (cbb_and (CBB_add_asn1 m k CBS_ASN1_BOOLEAN b)
      (\<lambda>b. CBB_add_u8 m (Suc k) (if v \<noteq> 0 then 0xff else 0) b)) (\<lambda>b. CBB_flush m k b))
    (if length (bool_contents (v \<noteq> 0)) \<le> 0xfffffffe
     then abs_append k (der_element (CBS_ASN1_BOOLEAN, bool_contents (v \<noteq> 0))) fs else None)"
    using assms(2) unfolding bool_contents_def
    by (intro element_implements [OF assms] CBB_add_u8_implements) simp_all
  then show ?thesis
    unfolding CBB_add_asn1_bool_def cbb_and_assoc [symmetric]
    by (intro implements_or_error) (simp add: bool_contents_def del: der_element.simps)
qed

end
