(* ===== verification/Cbb_Writers.thy ===== *)
theory Cbb_Writers
  imports Cbb_Ops
begin

text \<open>
  The contract between a writer of \<open>cbb.c\<close> and the reader of \<open>cbs.c\<close> for the same
  encoding.  The locale \<open>writer\<close> extends \<open>codec\<close> by a builder operation that refines
  appending the encoding; inside it, building a message and parsing it back is proved once,
  and every pair of functions of the two files is an interpretation.
\<close>

section \<open>Calls that may fail without the error bit\<close>

text \<open>\<open>implements\<close> less its promise about failures: a call that rejects its argument before
  it touches the builder leaves the error bit alone.\<close>

definition yields :: "malloc \<Rightarrow> cbb \<Rightarrow> bool \<times> cbb \<Rightarrow> frames option \<Rightarrow> bool" where
  "yields m b res spec \<longleftrightarrow>
     (fst res \<longrightarrow> (\<exists>fs'. spec = Some fs' \<and> repr (snd res) fs')) \<and>
     (\<forall>fs'. spec = Some fs' \<and> room m b (length (layout fs')) \<longrightarrow> fst res) \<and>
     (\<forall>n. room m b n \<longrightarrow> room m (snd res) n)"

lemma implements_yields: "implements m b res spec \<Longrightarrow> yields m b res spec"
  by (simp add: implements_def yields_def)

lemma yields_None: "yields m b (False, b) None"
  by (simp add: yields_def)

lemma yields_and:
  assumes s1: "yields m b res spec1"
    and s2: "\<And>b' fs'. repr b' fs' \<Longrightarrow> spec1 = Some fs' \<Longrightarrow> yields m b' (f b') (spec2 fs')"
    and grow: "\<And>fs' fs''. spec1 = Some fs' \<Longrightarrow> spec2 fs' = Some fs'' \<Longrightarrow> length (layout fs') \<le> length (layout fs'')"
  shows "yields m b (cbb_and res f) (Option.bind spec1 spec2)"
proof (cases "fst res")
  case False
  then have "fst res = False" and "room m b (length (layout fs')) \<Longrightarrow> spec1 \<noteq> Some fs'" for fs'
    using s1 by (auto simp: yields_def)
  with s1 grow show ?thesis
    by (auto simp: yields_def cbb_and_def bind_eq_Some_conv intro: room_mono)
next
  case True
  then obtain fs' where "spec1 = Some fs'" "repr (snd res) fs'" using s1 by (auto simp: yields_def)
  then have "yields m (snd res) (f (snd res)) (spec2 fs')" using s2 by blast
  with True \<open>spec1 = Some fs'\<close> s1 show ?thesis by (auto simp: yields_def cbb_and_def)
qed

text \<open>Two appends in a row, the second with a result that depends on what is read.\<close>

lemma yields_append:
  assumes "yields m b res (abs_append k x fs)"
    and "\<And>b' gs. repr b' gs \<Longrightarrow> length gs = Suc k \<Longrightarrow> yields m b' (f b') (Option.bind r (\<lambda>y. abs_append k (g y) gs))"
  shows "yields m b (cbb_and res f) (Option.bind r (\<lambda>y. abs_append k (x @ g y) fs))"
proof -
  have "yields m b (cbb_and res f)
      (Option.bind (abs_append k x fs) (\<lambda>gs. Option.bind r (\<lambda>y. abs_append k (g y) gs)))"
    using assms(2) abs_append_length
    by (intro yields_and [OF assms(1)]) (auto simp: bind_eq_Some_conv dest: abs_append_grows)
  also have "Option.bind (abs_append k x fs) (\<lambda>gs. Option.bind r (\<lambda>y. abs_append k (g y) gs)) =
      Option.bind r (\<lambda>y. abs_append k (x @ g y) fs)"
    by (cases r; cases "abs_append k x fs") (simp_all flip: abs_append_append)
  finally show ?thesis .
qed

lemma yields_append1:
  assumes "yields m b res (abs_append k x fs)"
    and "\<And>b' gs. repr b' gs \<Longrightarrow> length gs = Suc k \<Longrightarrow> yields m b' (f b') (abs_append k y gs)"
  shows "yields m b (cbb_and res f) (abs_append k (x @ y) fs)"
  using yields_append [of m b res k x fs f "Some ()" "\<lambda>_. y"] assms by simp

section \<open>Building a message\<close>

type_synonym 'a emitter = "malloc \<Rightarrow> nat \<Rightarrow> 'a \<Rightarrow> cbb \<Rightarrow> bool \<times> cbb"

text \<open>One call after the other, stopping at the first failure.\<close>

fun emit_all :: "'a emitter \<Rightarrow> malloc \<Rightarrow> nat \<Rightarrow> 'a list \<Rightarrow> cbb \<Rightarrow> bool \<times> cbb" where
  "emit_all emit m k [] b = (True, b)"
| "emit_all emit m k (v # vs) b = cbb_and (emit m k v b) (\<lambda>b. emit_all emit m k vs b)"

lemma cbb_init_repr: "length buf = cap \<Longrightarrow> cap \<le> SIZE_MAX \<Longrightarrow> repr (cbb_init buf cap r) [(Root, [])]"
  by (simp add: repr_def cbb_init_def)

lemma CBB_init_repr:
  assumes "malloc_ok m" "cap \<le> SIZE_MAX" "CBB_init m cap = Some b"
  shows "repr b [(Root, [])]"
  using assms OPENSSL_malloc_length [OF assms(1) _ assms(2)]
  by (auto simp: CBB_init_def intro!: cbb_init_repr split: option.splits if_splits)

lemma CBB_finish_repr:
  assumes "repr b [(Root, c)]"
  shows "CBB_finish m 0 True b = (Some (cbb_buf b, cbb_len b), b\<lparr>cbb_buf := []\<rparr>)"
    and "take (cbb_len b) (cbb_buf b) = c"
  using assms flush_self [OF assms, of 0 m] by (simp_all add: CBB_finish_def repr_def)

locale writer = codec get "put" valid
  for get :: "'a parser" and "put" :: "'a \<Rightarrow> cbs" and valid :: "'a \<Rightarrow> bool" +
  fixes emit :: "'a emitter" and arg writable :: "'a \<Rightarrow> bool"
  assumes writable_valid: "writable v \<Longrightarrow> valid v"
    and emit_yields: "arg v \<Longrightarrow> repr b fs \<Longrightarrow> malloc_ok m \<Longrightarrow> k < length fs \<Longrightarrow>
      yields m b (emit m k v b) (if writable v then abs_append k (put v) fs else None)"
begin

lemma emit_all_yields:
  "list_all arg vs \<Longrightarrow> repr b fs \<Longrightarrow> malloc_ok m \<Longrightarrow> Suc k = length fs \<Longrightarrow>
   yields m b (emit_all emit m k vs b)
     (if list_all writable vs then abs_append k (concat (map put vs)) fs else None)"
proof (induction vs arbitrary: b fs)
  case Nil
  then show ?case using implements_Some [of b fs m] by (simp add: abs_append_Nil close_to_self implements_yields)
next
  case (Cons v vs)
  let ?rest = "\<lambda>gs. if list_all writable vs then abs_append k (concat (map put vs)) gs else None"
  have "yields m b (cbb_and (emit m k v b) (\<lambda>b. emit_all emit m k vs b))
      (Option.bind (if writable v then abs_append k (put v) fs else None) ?rest)"
  proof (rule yields_and)
    show "yields m b (emit m k v b) (if writable v then abs_append k (put v) fs else None)"
      using Cons.prems by (intro emit_yields) simp_all
    fix b' fs' assume "repr b' fs'" "(if writable v then abs_append k (put v) fs else None) = Some fs'"
    then show "yields m b' (emit_all emit m k vs b') (?rest fs')"
      using Cons.IH [of b' fs'] Cons.prems abs_append_length [of k "put v" fs fs'] by (simp split: if_splits)
  qed (auto split: if_splits dest: abs_append_grows)
  also have "Option.bind (if writable v then abs_append k (put v) fs else None) ?rest =
      (if list_all writable (v # vs) then abs_append k (concat (map put (v # vs))) fs else None)"
    by (simp flip: abs_append_append)
  finally show ?case by simp
qed

text \<open>What is built is read back.\<close>

lemma build_then_read:
  assumes a: "list_all arg vs" and m: "malloc_ok m" and b: "repr b [(Root, [])]"
    and w: "emit_all emit m 0 vs b = (True, b')" and f: "CBB_finish m 0 True b' = (Some (buf, n), b'')"
  shows "reads get (take n buf) vs \<and> take n buf = concat (map put vs)"
proof -
  have "yields m b (emit_all emit m 0 vs b)
      (if list_all writable vs then abs_append 0 (concat (map put vs)) [(Root, [])] else None)"
    using a b m by (intro emit_all_yields) simp_all
  with w have v: "list_all writable vs" and r: "repr b' [(Root, concat (map put vs))]"
    by (auto simp: yields_def abs_append_def split: if_splits)
  have "take n buf = concat (map put vs)" using CBB_finish_repr(1) [OF r, of m] CBB_finish_repr(2) [OF r] f by simp
  moreover have "list_all valid vs" using v by (auto simp: list_all_iff intro: writable_valid)
  ultimately show ?thesis using reads_concat by simp
qed

text \<open>With room for the encodings, building succeeds.\<close>

lemma build_succeeds:
  assumes a: "list_all arg vs" and m: "malloc_ok m" and b: "repr b [(Root, [])]" and v: "list_all writable vs"
    and room: "room m b (length (concat (map put vs)))"
  shows "\<exists>b' buf n b''. emit_all emit m 0 vs b = (True, b') \<and>
    CBB_finish m 0 True b' = (Some (buf, n), b'') \<and> take n buf = concat (map put vs)"
proof -
  have i: "yields m b (emit_all emit m 0 vs b) (Some [(Root, concat (map put vs))])"
    using emit_all_yields [OF a b m, of 0] v by (simp add: abs_append_def)
  obtain r b' where w: "emit_all emit m 0 vs b = (r, b')" by fastforce
  have r: "r" using i room w by (simp add: yields_def)
  then have b': "repr b' [(Root, concat (map put vs))]" using i w by (simp add: yields_def)
  show ?thesis using CBB_finish_repr(1) [OF b', of m] CBB_finish_repr(2) [OF b'] w r by simp
qed

end

section \<open>The writers\<close>

lemma CBB_add_asn1_bool_implements:
  "repr b fs \<Longrightarrow> malloc_ok m \<Longrightarrow> k < length fs \<Longrightarrow>
   implements m b (CBB_add_asn1_bool m k (if v then 1 else 0) b)
     (abs_append k (der_element (CBS_ASN1_BOOLEAN, bool_contents v)) fs)"
  using bool_implements [of b fs m k "if v then 1 else 0"] by (cases v) simp_all

lemma CBB_add_u16_implements:
  "repr b fs \<Longrightarrow> malloc_ok m \<Longrightarrow> k < length fs \<Longrightarrow>
   implements m b (CBB_add_u16 m k v b) (abs_append k (nat_be 2 (unat v)) fs)"
  using cbb_add_u_implements [of b fs m k 2 "ucast v"] unsigned_less [of v, where 'a = nat]
  by (simp add: CBB_add_u16_def unat_ucast_up)

lemma CBB_add_u24_implements:
  "repr b fs \<Longrightarrow> malloc_ok m \<Longrightarrow> k < length fs \<Longrightarrow>
   implements m b (CBB_add_u24 m k v b) (if unat v < 256 ^ 3 then abs_append k (nat_be 3 (unat v)) fs else None)"
  using cbb_add_u_implements [of b fs m k 3 "ucast v"]
  by (cases "unat v < 256 ^ 3") (simp_all add: CBB_add_u24_def unat_ucast_up)

lemma CBB_add_u32_implements:
  "repr b fs \<Longrightarrow> malloc_ok m \<Longrightarrow> k < length fs \<Longrightarrow>
   implements m b (CBB_add_u32 m k v b) (abs_append k (nat_be 4 (unat v)) fs)"
  using cbb_add_u_implements [of b fs m k 4 "ucast v"] unsigned_less [of v, where 'a = nat]
  by (simp add: CBB_add_u32_def unat_ucast_up)

lemma CBB_add_u64_implements:
  "repr b fs \<Longrightarrow> malloc_ok m \<Longrightarrow> k < length fs \<Longrightarrow>
   implements m b (CBB_add_u64 m k v b) (abs_append k (nat_be 8 (unat v)) fs)"
  using cbb_add_u_implements [of b fs m k 8 "v"] unsigned_less [of v, where 'a = nat]
  by (simp add: CBB_add_u64_def)

interpretation write_u8: writer CBS_get_u8 "\<lambda>b. [b]" "\<lambda>_. True" CBB_add_u8 "\<lambda>_. True" "\<lambda>_. True"
  by unfold_locales (simp_all add: implements_yields CBB_add_u8_implements)

interpretation write_u16: writer CBS_get_u16 "\<lambda>v. nat_be 2 (unat v)" "\<lambda>v. unat v < 256 ^ 2"
    CBB_add_u16 "\<lambda>_. True" "\<lambda>v. unat v < 256 ^ 2"
  using unsigned_less [where 'a = nat and 'b = 16] by unfold_locales (simp_all add: implements_yields CBB_add_u16_implements)

interpretation write_u24: writer CBS_get_u24 "\<lambda>v. nat_be 3 (unat v)" "\<lambda>v. unat v < 256 ^ 3"
    CBB_add_u24 "\<lambda>_. True" "\<lambda>v. unat v < 256 ^ 3"
  by unfold_locales (blast intro: implements_yields CBB_add_u24_implements)+

interpretation write_u32: writer CBS_get_u32 "\<lambda>v. nat_be 4 (unat v)" "\<lambda>v. unat v < 256 ^ 4"
    CBB_add_u32 "\<lambda>_. True" "\<lambda>v. unat v < 256 ^ 4"
  using unsigned_less [where 'a = nat and 'b = 32] by unfold_locales (simp_all add: implements_yields CBB_add_u32_implements)

interpretation write_u64: writer CBS_get_u64 "\<lambda>v. nat_be 8 (unat v)" "\<lambda>v. unat v < 256 ^ 8"
    CBB_add_u64 "\<lambda>_. True" "\<lambda>v. unat v < 256 ^ 8"
  using unsigned_less [where 'a = nat and 'b = 64] by unfold_locales (simp_all add: implements_yields CBB_add_u64_implements)

interpretation write_u16le: writer CBS_get_u16le "\<lambda>v. rev (nat_be 2 (unat v))" "\<lambda>_. True"
    CBB_add_u16le "\<lambda>_. True" "\<lambda>_. True"
  by unfold_locales (simp_all add: implements_yields CBB_add_u16le_def CBB_add_u16_implements flip: nat_be_bswap2)

interpretation write_u32le: writer CBS_get_u32le "\<lambda>v. rev (nat_be 4 (unat v))" "\<lambda>_. True"
    CBB_add_u32le "\<lambda>_. True" "\<lambda>_. True"
  by unfold_locales (simp_all add: implements_yields CBB_add_u32le_def CBB_add_u32_implements flip: nat_be_bswap4)

interpretation write_u64le: writer CBS_get_u64le "\<lambda>v. rev (nat_be 8 (unat v))" "\<lambda>_. True"
    CBB_add_u64le "\<lambda>_. True" "\<lambda>_. True"
  by unfold_locales (simp_all add: implements_yields CBB_add_u64le_def CBB_add_u64_implements flip: nat_be_bswap8)

interpretation write_uint64: writer CBS_get_asn1_uint64
    "\<lambda>v. der_element (CBS_ASN1_INTEGER, uint64_contents v)" "\<lambda>_. True" CBB_add_asn1_uint64 "\<lambda>_. True" "\<lambda>_. True"
  by unfold_locales (simp_all add: implements_yields CBB_add_asn1_uint64_def uint64_with_tag_implements del: der_element.simps)

interpretation write_int64: writer CBS_get_asn1_int64
    "\<lambda>v. der_element (CBS_ASN1_INTEGER, int64_contents v)" "\<lambda>_. True" CBB_add_asn1_int64 "\<lambda>_. True" "\<lambda>_. True"
  by unfold_locales (simp_all add: implements_yields CBB_add_asn1_int64_def int64_with_tag_implements del: der_element.simps)

interpretation write_bool: writer CBS_get_asn1_bool
    "\<lambda>v. der_element (CBS_ASN1_BOOLEAN, bool_contents v)" "\<lambda>_. True"
    "\<lambda>m k v. CBB_add_asn1_bool m k (if v then 1 else 0)" "\<lambda>_. True" "\<lambda>_. True"
  by unfold_locales (simp_all add: implements_yields CBB_add_asn1_bool_implements del: der_element.simps)

text \<open>A length-prefixed child, filled and closed.\<close>

definition add_u24_prefixed :: "byte list emitter" where
  "add_u24_prefixed m k data b =
     cbb_and (cbb_and (CBB_add_u24_length_prefixed m k b) (\<lambda>b. CBB_add_bytes m (Suc k) data b))
       (\<lambda>b. CBB_flush m k b)"

lemma add_u24_prefixed_implements:
  assumes "length data \<le> SIZE_MAX" "repr b fs" "malloc_ok m" "k < length fs"
  shows "implements m b (add_u24_prefixed m k data b)
    (if length data < 256 ^ 3 then abs_append k (nat_be 3 (length data) @ data) fs else None)"
proof -
  have "implements m b (add_u24_prefixed m k data b)
      (Option.bind (Option.bind (abs_open k (Prefixed 3) fs) (abs_append (Suc k) data)) (close_to k))"
    unfolding add_u24_prefixed_def CBB_add_u24_length_prefixed_def
    using assms abs_open_length [of k "Prefixed 3" fs] abs_append_length
    by (intro implements_and add_length_prefixed_implements CBB_add_bytes_implements flush_implements)
      (auto dest: abs_append_grows close_to_layout simp: bind_eq_Some_conv)
  then show ?thesis unfolding abs_open_append_close by (auto split: if_splits)
qed

interpretation write_u24_prefixed: writer CBS_get_u24_length_prefixed
    "\<lambda>s. nat_be 3 (length s) @ s" "\<lambda>s. length s < 256 ^ 3"
    add_u24_prefixed "\<lambda>s. length s \<le> SIZE_MAX" "\<lambda>s. length s < 256 ^ 3"
  by unfold_locales (blast intro: implements_yields add_u24_prefixed_implements)+

section \<open>Discarding\<close>

lemma inner_frames:
  assumes "gs \<noteq> []" "fs \<noteq> []" "wf_frames (fs @ gs)"
  shows "\<exists>c more. chain_of (fs @ gs) = chain_of gs @ c # more \<and> offset c = length (layout gs) \<and>
    wf_frames gs \<and> (\<exists>d. layout (fs @ gs) = layout gs @ d)"
  using assms
proof (induction fs)
  case (Cons f fs)
  obtain k c where f: "f = (k, c)" by (cases f)
  obtain g hs where g: "gs = g # hs" using Cons.prems by (cases gs) auto
  show ?case
  proof (cases fs)
    case Nil
    then show ?thesis using Cons.prems f g by simp
  next
    case (Cons f' fs')
    then show ?thesis using Cons.prems Cons.IH f g by auto
  qed
qed simp

section \<open>The properties of the builder\<close>

text \<open>C2. Whatever sequence of int64 values is written with \<open>CBB_add_asn1_int64\<close>, the finished
  buffer parses with \<open>CBS_get_asn1_int64\<close> as exactly that sequence, with nothing left over.\<close>

theorem asn1_int64_roundtrip:
  assumes "malloc_ok m" and "cap \<le> SIZE_MAX" and "CBB_init m cap = Some b"
    and "emit_all CBB_add_asn1_int64 m 0 vs b = (True, b')"
    and "CBB_finish m 0 True b' = (Some (buf, n), b'')"
  shows "reads CBS_get_asn1_int64 (take n buf) vs"
  by (rule write_int64.build_then_read [OF _ assms(1) CBB_init_repr [OF assms(1-3)] assms(4,5), THEN conjunct1])
    (simp add: list_all_iff)

text \<open>The same for strings with a 24-bit length prefix, each written by opening a child, filling
  it and flushing.\<close>

theorem u24_prefixed_roundtrip:
  assumes "malloc_ok m" and "cap \<le> SIZE_MAX" and "CBB_init m cap = Some b"
    and "list_all (\<lambda>v. length v \<le> SIZE_MAX) vs"
    and "emit_all add_u24_prefixed m 0 vs b = (True, b')"
    and "CBB_finish m 0 True b' = (Some (buf, n), b'')"
  shows "reads CBS_get_u24_length_prefixed (take n buf) vs"
  by (rule write_u24_prefixed.build_then_read [OF assms(4,1) CBB_init_repr [OF assms(1-3)] assms(5,6), THEN conjunct1])

text \<open>C26. Writing integers into a fixed buffer that holds their DER encodings succeeds, and the
  buffer then starts with exactly these encodings.\<close>

theorem fixed_buffer_suffices:
  assumes "malloc_ok m" and "length buf = len" and "len \<le> SIZE_MAX"
    and "length (concat (map (\<lambda>v. der_element (CBS_ASN1_INTEGER, uint64_contents v)) vs)) \<le> len"
  shows "\<exists>b' out n b''. emit_all CBB_add_asn1_uint64 m 0 vs (CBB_init_fixed buf len) = (True, b') \<and>
    CBB_finish m 0 True b' = (Some (out, n), b'') \<and>
    take n out = concat (map (\<lambda>v. der_element (CBS_ASN1_INTEGER, uint64_contents v)) vs)"
proof (rule write_uint64.build_succeeds [OF _ assms(1)])
  show "repr (CBB_init_fixed buf len) [(Root, [])]"
    using assms(2,3) by (simp add: CBB_init_fixed_def cbb_init_repr)
  show "room m (CBB_init_fixed buf len) (length (concat (map (\<lambda>v. der_element (CBS_ASN1_INTEGER, uint64_contents v)) vs)))"
    using assms(4) by (simp add: room_def CBB_init_fixed_def cbb_init_def)
qed (simp_all add: list_all_iff)


text \<open>C33. Discarding a child undoes everything written to it and to its own children since it was
  opened: the builder represents again the frames below it.\<close>

theorem discard_child_undoes:
  assumes "repr b (fs @ gs)" and "fs \<noteq> []" and "length gs = Suc k"
  shows "repr (CBB_discard_child k b) gs"
proof -
  have w: "wf_frames (fs @ gs)" and gs: "gs \<noteq> []" using assms by (auto simp: repr_def)
  then obtain c more d where c: "cbb_chain b = chain_of gs @ c # more" "offset c = length (layout gs)"
    "wf_frames gs" "layout (fs @ gs) = layout gs @ d"
    using inner_frames [OF gs assms(2) w] assms(1) by (auto simp: repr_def)
  then have k: "length (chain_of gs) = k" using assms(3) length_chain_of [of gs] by simp
  have l: "take (cbb_len b) (cbb_buf b) = layout gs @ d" "cbb_len b = length (layout gs) + length d"
    using repr_len [OF assms(1)] assms(1) c(4) by (simp_all add: repr_def)
  then have "take (length (layout gs)) (cbb_buf b) = layout gs"
    by (metis append_eq_conv_conj min.absorb1 le_add1 take_take)
  moreover have "CBB_discard_child k b = b\<lparr>cbb_len := length (layout gs), cbb_chain := chain_of gs\<rparr>"
    using c(2) k unfolding CBB_discard_child_def c(1) by (auto simp: nth_append)
  ultimately show ?thesis using assms(1) c(3) l(2) by (simp add: repr_def)
qed

section \<open>Concrete runs\<close>

text \<open>An allocator that never fails.\<close>

definition zero_malloc :: malloc where
  "zero_malloc n = Some (replicate n 0)"

lemma zero_malloc_ok [simp]: "malloc_ok zero_malloc"
  by (simp add: malloc_ok_def zero_malloc_def)

definition small_builder :: cbb where
  "small_builder = the (CBB_init zero_malloc 2)"

lemma small_builder: "CBB_init zero_malloc 2 = Some small_builder"
proof -
  have "CBB_init zero_malloc 2 \<noteq> None" by code_simp
  then show ?thesis by (auto simp: small_builder_def)
qed

lemma pair_eqs: "fst p = x \<Longrightarrow> p = (x, snd p)"
  by (cases p) simp

theorem asn1_int64_roundtrip_witness:
  "reads CBS_get_asn1_int64 [2, 1, 5, 2, 1, 0xff] [5, -1]"
proof -
  let ?e = "emit_all CBB_add_asn1_int64 zero_malloc 0 [5, -1] small_builder"
  have "fst ?e = True" by code_simp
  moreover have "fst (CBB_finish zero_malloc 0 True (snd ?e)) = Some ([2, 1, 5, 2, 1, 0xff, 0, 0], 6)" by code_simp
  ultimately have "reads CBS_get_asn1_int64 (take 6 [2, 1, 5, 2, 1, 0xff, 0, 0]) [5, -1]"
    by (intro asn1_int64_roundtrip [OF zero_malloc_ok _ small_builder pair_eqs pair_eqs]) simp_all
  then show ?thesis by simp
qed

theorem u24_prefixed_roundtrip_witness:
  "reads CBS_get_u24_length_prefixed [0, 0, 2, 7, 8, 0, 0, 0] [[7, 8], []]"
proof -
  let ?e = "emit_all add_u24_prefixed zero_malloc 0 [[7, 8], []] small_builder"
  have "fst ?e = True" by code_simp
  moreover have "fst (CBB_finish zero_malloc 0 True (snd ?e)) = Some ([0, 0, 2, 7, 8, 0, 0, 0], 8)" by code_simp
  ultimately have "reads CBS_get_u24_length_prefixed (take 8 [0, 0, 2, 7, 8, 0, 0, 0]) [[7, 8], []]"
    by (intro u24_prefixed_roundtrip [OF zero_malloc_ok _ small_builder _ pair_eqs pair_eqs]) simp_all
  then show ?thesis by simp
qed

theorem fixed_buffer_suffices_witness:
  "\<exists>b' out n b''. emit_all CBB_add_asn1_uint64 zero_malloc 0 [5] (CBB_init_fixed [0, 0, 0, 9] 4) = (True, b') \<and>
    CBB_finish zero_malloc 0 True b' = (Some (out, n), b'') \<and>
    take n out = concat (map (\<lambda>v. der_element (CBS_ASN1_INTEGER, uint64_contents v)) [5])"
proof -
  have "uint64_contents 5 = [5]" and "der_element (CBS_ASN1_INTEGER, [5]) = [2, 1, 5]" by code_simp+
  then have "length (concat (map (\<lambda>v. der_element (CBS_ASN1_INTEGER, uint64_contents v)) [5])) \<le> 4"
    by (simp del: der_element.simps)
  from fixed_buffer_suffices [OF zero_malloc_ok _ _ this, of "[0, 0, 0, 9]"] show ?thesis by simp
qed


theorem discard_child_undoes_witness:
  "repr (CBB_discard_child 0 (snd (CBB_add_u24_length_prefixed zero_malloc 0 small_builder))) [(Root, [])]"
proof (rule discard_child_undoes)
  have e: "fst (CBB_add_u24_length_prefixed zero_malloc 0 small_builder) = True" by code_simp
  have "repr small_builder [(Root, [])]" by (rule CBB_init_repr [OF zero_malloc_ok _ small_builder]) simp
  then have "implements zero_malloc small_builder (CBB_add_u24_length_prefixed zero_malloc 0 small_builder)
      (abs_open 0 (Prefixed 3) [(Root, [])])"
    unfolding CBB_add_u24_length_prefixed_def by (intro add_length_prefixed_implements) simp_all
  with e show "repr (snd (CBB_add_u24_length_prefixed zero_malloc 0 small_builder)) ([(Prefixed 3, [])] @ [(Root, [])])"
    by (simp add: implements_def abs_open_def)
qed simp_all

end
