(* ===== verification/Compare.thy ===== *)
theory Compare
  imports Prelude
begin

text \<open>
  The interface of C comparison functions, as \<open>qsort\<close>, the sorting of \<open>STACK_OF(T)\<close> and
  the binary searches rely on it: the sign of the result is a total preorder.  The lemmas
  about sorted sequences are proved once inside the locale and used by every client.
\<close>

type_synonym 'a cmp = "'a \<Rightarrow> 'a \<Rightarrow> int"

text \<open>Sequences in ascending order of a comparison function.\<close>

abbreviation sorted_by :: "'a cmp \<Rightarrow> 'a list \<Rightarrow> bool" where
  "sorted_by cmp \<equiv> sorted_wrt (\<lambda>a b. cmp a b \<le> 0)"

text \<open>The C library's sort: some ascending rearrangement of the array.\<close>

fun insort_by :: "'a cmp \<Rightarrow> 'a \<Rightarrow> 'a list \<Rightarrow> 'a list" where
  "insort_by cmp x [] = [x]"
| "insort_by cmp x (y # ys) = (if cmp x y \<le> 0 then x # y # ys else y # insort_by cmp x ys)"

fun qsort :: "'a cmp \<Rightarrow> 'a list \<Rightarrow> 'a list" where
  "qsort cmp [] = []"
| "qsort cmp (x # xs) = insort_by cmp x (qsort cmp xs)"

lemma mset_insort_by [simp]: "mset (insort_by cmp x xs) = add_mset x (mset xs)"
  by (induction xs) auto

lemma mset_qsort [simp]: "mset (qsort cmp xs) = mset xs"
  by (induction xs) auto

lemma set_insort_by [simp]: "set (insort_by cmp x xs) = insert x (set xs)"
  by (induction xs) auto

lemma set_qsort [simp]: "set (qsort cmp xs) = set xs"
  by (induction xs) auto

lemma length_qsort [simp]: "length (qsort cmp xs) = length xs"
  by (metis mset_qsort size_mset)

lemma qsort_map_concat: "length (concat (qsort cmp xs)) = length (concat xs)"
proof -
  have "sum_list (map length (qsort cmp xs)) = sum_list (map length xs)"
    by (metis mset_map mset_qsort sum_mset_sum_list)
  then show ?thesis by (simp add: length_concat)
qed

locale comparator =
  fixes cmp :: "'a cmp"
  assumes cmp_sign: "cmp a b < 0 \<longleftrightarrow> 0 < cmp b a"
    and cmp_trans: "cmp a b \<le> 0 \<Longrightarrow> cmp b c \<le> 0 \<Longrightarrow> cmp a c \<le> 0"
begin

lemma cmp_refl [simp]: "cmp a a = 0"
  using cmp_sign [of a a] by linarith

lemma cmp_total: "\<not> cmp a b \<le> 0 \<Longrightarrow> cmp b a < 0"
  using cmp_sign [of b a] by simp

lemma cmp_eq_sym: "cmp a b = 0 \<longleftrightarrow> cmp b a = 0"
  using cmp_sign [of a b] cmp_sign [of b a] by linarith

lemma cmp_less_trans: "cmp a b < 0 \<Longrightarrow> cmp b c \<le> 0 \<Longrightarrow> cmp a c < 0"
proof (rule ccontr)
  assume a: "cmp a b < 0" "cmp b c \<le> 0" "\<not> cmp a c < 0"
  then have "cmp c a \<le> 0" using cmp_sign [of a c] cmp_sign [of c a] by linarith
  then have "cmp b a \<le> 0" using a(2) cmp_trans by blast
  then show False using a(1) cmp_sign [of a b] by simp
qed

lemma cmp_less_trans': "cmp a b \<le> 0 \<Longrightarrow> cmp b c < 0 \<Longrightarrow> cmp a c < 0"
proof (rule ccontr)
  assume a: "cmp a b \<le> 0" "cmp b c < 0" "\<not> cmp a c < 0"
  then have "cmp c a \<le> 0" using cmp_sign [of a c] cmp_sign [of c a] by linarith
  then have "cmp c b \<le> 0" using a(1) cmp_trans by blast
  then show False using a(2) cmp_sign [of b c] by simp
qed

lemma sorted_insort_by: "sorted_by cmp xs \<Longrightarrow> sorted_by cmp (insort_by cmp x xs)"
proof (induction xs)
  case (Cons y ys)
  show ?case
  proof (cases "cmp x y \<le> 0")
    case True
    with Cons.prems show ?thesis by (auto intro: cmp_trans)
  next
    case False
    with Cons cmp_total [OF False] show ?thesis by auto
  qed
qed simp

lemma sorted_qsort: "sorted_by cmp (qsort cmp xs)"
  by (induction xs) (simp_all add: sorted_insort_by)

end

end
