(* ===== verification/Cbb_Set_Of.thy ===== *)
theory Cbb_Set_Of
  imports Cbb_Writers Compare
begin

text \<open>
  \<open>CBB_flush_asn1_set_of\<close> of \<open>cbb.c\<close>: the elements of a SET OF are parsed back, sorted
  by their DER encodings and rewritten in place.  The comparison is interpreted as a
  \<open>comparator\<close>; it is the lexicographic order, which by the prefix-freeness of DER never
  reaches its case for a proper prefix.
\<close>

section \<open>Comparing elements\<close>

text \<open>\<open>memcmp\<close> of two blocks of equal length: the sign of the first difference.\<close>

fun OPENSSL_memcmp :: "byte list \<Rightarrow> byte list \<Rightarrow> int" where
  "OPENSSL_memcmp (a # as) (b # bs) =
     (if a = b then OPENSSL_memcmp as bs else uint a - uint b)"
| "OPENSSL_memcmp _ _ = 0"

definition compare_set_of_element :: "cbs cmp" where
  "compare_set_of_element a b =
     (let a_len = length a; b_len = length b;
          min_len = (if a_len < b_len then a_len else b_len);
          ret = OPENSSL_memcmp (take min_len a) (take min_len b)
      in if ret \<noteq> 0 then ret
         else if a_len = b_len then 0
         else if a_len < b_len then -1 else 1)"

section \<open>CBB_flush_asn1_set_of\<close>

lemma element_progress: "CBS_get_any_asn1_element s = (Some e, s') \<Longrightarrow> length s' < length s"
  using element_split(1-3) [of False s e s'] by (cases s) (auto simp: CBS_get_any_asn1_element_def)

function count_children :: "cbs \<Rightarrow> nat \<Rightarrow> nat option" where
  "count_children c n =
     (if length c \<noteq> 0 then
        (case CBS_get_any_asn1_element c of
           (None, _) \<Rightarrow> None
         | (Some _, c') \<Rightarrow> count_children c' (n + 1))
      else Some n)"
  by pat_completeness auto
termination
  by (relation "measure (length \<circ> fst)") (auto dest: element_progress sym)

declare count_children.simps [simp del]

fun parse_children :: "nat \<Rightarrow> cbs \<Rightarrow> cbs list option" where
  "parse_children 0 c = Some []"
| "parse_children (Suc n) c =
     (case CBS_get_any_asn1_element c of
        (None, _) \<Rightarrow> None
      | (Some e, c') \<Rightarrow> map_option (\<lambda>es. el_out e # es) (parse_children n c'))"

fun write_children :: "nat \<Rightarrow> cbs list \<Rightarrow> cbb \<Rightarrow> cbb" where
  "write_children off [] b = b"
| "write_children off (c # cs) b = write_children (off + length c) cs (cbb_poke b off c)"

definition CBB_flush_asn1_set_of :: "malloc \<Rightarrow> nat \<Rightarrow> cbb \<Rightarrow> bool \<times> cbb" where
  "CBB_flush_asn1_set_of m k b =
     cbb_and (CBB_flush m k b)
       (\<lambda>b. let contents = take (CBB_len k b) (CBB_data k b)
            in case count_children contents 0 of
                 None \<Rightarrow> (False, b)
               | Some num_children \<Rightarrow>
                   if num_children < 2 then (True, b)
                   else
                     (case (OPENSSL_memdup m contents, OPENSSL_calloc m num_children 16) of
                        (Some buf, Some _) \<Rightarrow>
                          (case parse_children num_children buf of
                             None \<Rightarrow> (False, b)
                           | Some children \<Rightarrow>
                               (True, write_children (cbb_len b - CBB_len k b)
                                        (qsort compare_set_of_element children) b))
                      | _ \<Rightarrow> (False, b)))"

section \<open>The order\<close>

lemma memcmp_eq_0: "length a = length b \<Longrightarrow> OPENSSL_memcmp a b = 0 \<longleftrightarrow> a = b"
  by (induction a b rule: OPENSSL_memcmp.induct) (auto simp: word_uint_eq_iff)

text \<open>Without the lengths: the lexicographic order of byte strings.\<close>

fun lex_compare :: "byte list \<Rightarrow> byte list \<Rightarrow> int" where
  "lex_compare [] [] = 0"
| "lex_compare [] (b # bs) = -1"
| "lex_compare (a # as) [] = 1"
| "lex_compare (a # as) (b # bs) = (if a = b then lex_compare as bs else uint a - uint b)"

lemma compare_set_of_Cons:
  "compare_set_of_element (a # as) (b # bs) =
     (if a = b then compare_set_of_element as bs else uint a - uint b)"
  by (simp add: compare_set_of_element_def Let_def word_uint_eq_iff)

lemma compare_set_of_lex: "compare_set_of_element a b = lex_compare a b"
proof (induction a b rule: lex_compare.induct)
  case (4 a as b bs)
  then show ?case by (simp add: compare_set_of_Cons)
qed (simp_all add: compare_set_of_element_def)

lemma lex_compare_eq_0: "lex_compare a b = 0 \<longleftrightarrow> a = b"
  by (induction a b rule: lex_compare.induct) (auto simp: word_uint_eq_iff)

lemma lex_compare_sign: "lex_compare a b < 0 \<longleftrightarrow> 0 < lex_compare b a"
  by (induction a b rule: lex_compare.induct) auto

lemma lex_compare_trans: "lex_compare a b \<le> 0 \<Longrightarrow> lex_compare b c \<le> 0 \<Longrightarrow> lex_compare a c \<le> 0"
proof (induction a b arbitrary: c rule: lex_compare.induct)
  case (4 a as b bs)
  show ?case
  proof (cases c)
    case (Cons x xs)
    with 4 show ?thesis by (auto simp: word_uint_eq_iff split: if_splits)
  qed (use 4 in simp)
next
  case 1
  then show ?case by simp
next
  case (2 b bs)
  then show ?case by (cases c) auto
next
  case (3 a as)
  then show ?case by simp
qed

interpretation set_of: comparator compare_set_of_element
  by unfold_locales (use lex_compare_sign lex_compare_trans in \<open>auto simp: compare_set_of_lex\<close>)

section \<open>Sorting the elements\<close>

lemma count_children_Nil: "count_children [] n = Some n"
  by (simp add: count_children.simps)

lemma count_children_step:
  "CBS_get_any_asn1_element s = (Some e, s') \<Longrightarrow> count_children s n = count_children s' (Suc n)"
  using element_progress [of s e s'] by (subst count_children.simps) auto

lemma reads_children:
  "reads CBS_get_any_asn1 s vs \<Longrightarrow>
   count_children s n = Some (n + length vs) \<and> parse_children (length vs) s = Some (map der_element vs)"
proof (induction arbitrary: n rule: reads.induct)
  case (reads_Cons s v s' vs)
  obtain tag c where v: "v = (tag, c)" by (cases v)
  have "der_valid v \<and> s = der_element v @ s'" using reads_Cons.hyps(1) der.get_iff by blast
  then have e: "CBS_get_any_asn1_element s = (Some (der_el tag c), s')"
    unfolding v element_Some_iff by blast
  then show ?case using reads_Cons.IH [of "Suc n"] count_children_step [OF e, of n]
    by (simp add: v der_el_def del: der_element.simps)
qed (simp add: count_children_Nil)

lemma write_children_eq:
  "off + length (concat cs) \<le> length (cbb_buf b) \<Longrightarrow>
   write_children off cs b = cbb_poke b off (concat cs)"
proof (induction cs arbitrary: off b)
  case Nil
  then show ?case by (simp add: cbb_poke_def poke_def)
next
  case (Cons c cs)
  have p: "poke (poke buf off x) (off + length x) y = poke buf off (x @ y)"
    if "off + length x + length y \<le> length buf" for buf x y
    using that by (simp add: poke_def ac_simps)
  have "write_children off (c # cs) b = cbb_poke (cbb_poke b off c) (off + length c) (concat cs)"
    using Cons by simp
  then show ?case using Cons.prems p [of c "concat cs" "cbb_buf b"] by (simp add: cbb_poke_def)
qed

lemma CBB_contents:
  assumes "repr b ((kind, c) # gs)" "k = length gs"
  shows "CBB_len k b = length c" and "take (CBB_len k b) (CBB_data k b) = c"
    and "cbb_len b - CBB_len k b = length (layout gs) + reserved kind"
proof -
  let ?p = "layout gs @ replicate (reserved kind) 0"
  have t: "take (cbb_len b) (cbb_buf b) = ?p @ c" using assms by (simp add: repr_def)
  have l: "cbb_len b = length ?p + length c" using repr_len [OF assms(1)] by simp
  have "CBB_len k b = length c \<and> CBB_data k b = drop (length ?p) (cbb_buf b)"
  proof (cases gs)
    case Nil
    then show ?thesis using assms l by (simp add: CBB_len_def CBB_data_def repr_def)
  next
    case (Cons g gs')
    have w: "wf_frames gs" "kind \<noteq> Root" using assms(1) Cons by (auto simp: repr_def)
    have "cbb_chain b = chain_of gs @ [\<lparr>offset = length (layout gs), pending_len_len = reserved kind,
        pending_is_asn1 = (kind = Asn1)\<rparr>]" using assms(1) Cons w chain_of_last by (simp add: repr_def)
    then have "cbb_chain b ! (k - 1) = \<lparr>offset = length (layout gs), pending_len_len = reserved kind,
        pending_is_asn1 = (kind = Asn1)\<rparr>"
      using length_chain_of [OF w(1)] assms(2) Cons by (simp add: nth_append)
    then show ?thesis using l assms(2) Cons by (simp add: CBB_len_def CBB_data_def)
  qed
  then show "CBB_len k b = length c" "take (CBB_len k b) (CBB_data k b) = c"
    "cbb_len b - CBB_len k b = length (layout gs) + reserved kind"
    using t l by (simp_all add: take_drop add.commute)
qed

lemma count_children_reads:
  "count_children s n = Some k \<Longrightarrow> \<exists>vs. reads CBS_get_any_asn1 s vs \<and> k = n + length vs"
proof (induction s n rule: count_children.induct)
  case (1 s n)
  show ?case
  proof (cases "s = []")
    case True
    then show ?thesis using 1(2) by (auto simp: count_children_Nil intro: reads.intros)
  next
    case False
    obtain r s' where g: "CBS_get_any_asn1_element s = (r, s')" by fastforce
    with False 1(2) obtain e where e: "r = Some e" by (cases r) (auto simp: count_children.simps [of s])
    with 1(2) g have "count_children s' (n + 1) = Some k" using count_children_step by simp
    then obtain vs where vs: "reads CBS_get_any_asn1 s' vs" "k = n + 1 + length vs"
      using 1(1) [OF _ g [symmetric] e] False by auto
    obtain tag c where tc: "der_valid (tag, c)" "s = der_element (tag, c) @ s'"
      using element_is_der g e by blast
    then have "CBS_get_any_asn1 s = (Some (tag, c), s')" using der.get_iff by blast
    then have "reads CBS_get_any_asn1 s ((tag, c) # vs)" using False vs(1) by (rule reads.intros)
    with vs(2) show ?thesis by (intro exI [of _ "(tag, c) # vs"]) simp
  qed
qed

lemma mset_map_choose: "mset ys = mset (map f vs) \<Longrightarrow> \<exists>ws. ys = map f ws \<and> mset ws = mset vs"
proof (induction ys arbitrary: vs)
  case (Cons y ys)
  from Cons.prems have "y \<in> set (map f vs)" by (metis list.set_intros(1) mset_eq_setD)
  then obtain as v bs where v: "vs = as @ v # bs" "y = f v" by (auto dest: split_list)
  with Cons.prems have "mset ys = mset (map f (as @ bs))" by simp
  then obtain ws where "ys = map f ws" "mset ws = mset (as @ bs)" using Cons.IH by blast
  with v show ?case by (intro exI [of _ "v # ws"]) simp
qed simp

lemma qsort_elements:
  obtains ws where "qsort compare_set_of_element (map der_element vs) = map der_element ws"
    "mset ws = mset vs" "sorted_by compare_set_of_element (map der_element ws)"
  using mset_map_choose [of "qsort compare_set_of_element (map der_element vs)" der_element vs]
    set_of.sorted_qsort [of "map der_element vs"] by auto

section \<open>The refinement\<close>

lemma repr_rewrite_top:
  assumes r: "repr b ((kind, c) # gs)" and l: "length c' = length c"
  shows "repr (cbb_poke b (length (layout gs) + reserved kind) c') ((kind, c') # gs)"
proof -
  let ?p = "layout gs @ replicate (reserved kind) 0"
  have t: "take (cbb_len b) (cbb_buf b) = ?p @ c" and s: "sound b"
    using r repr_sound [OF r] by (simp_all add: repr_def)
  have n: "cbb_len b = length ?p + length c" using repr_len [OF r] by simp
  then have "take (length ?p) (cbb_buf b) = ?p"
    using t by (metis append_eq_conv_conj length_append length_take min.absorb1 take_take le_add1)
  then have "take (cbb_len b) (poke (cbb_buf b) (length ?p) c') = ?p @ c'"
    using n l s by (subst take_poke) (auto simp: sound_def)
  moreover have "wf_frames ((kind, c') # gs)" using r wf_frames_top [of kind c gs] by (simp add: repr_def)
  moreover have "chain_of ((kind, c') # gs) = chain_of ((kind, c) # gs)" by (cases gs) auto
  ultimately show ?thesis using r n l by (simp add: repr_def cbb_poke_def)
qed

lemma memdup_length_0: "OPENSSL_memdup m d = Some b \<Longrightarrow> b = d"
  by (simp add: OPENSSL_memdup_eq)

lemma set_of_flushed:
  assumes r: "repr b ((kind, c) # gs)"
    and k: "k = length gs"
    and res: "CBB_flush_asn1_set_of m k b = (True, b')"
  shows "\<exists>els els'. list_all der_valid els \<and> c = concat (map der_element els) \<and> mset els' = mset els \<and>
    sorted_by compare_set_of_element (map der_element els') \<and>
    repr b' ((kind, concat (map der_element els')) # gs)"
proof -
  have "Suc k = length ((kind, c) # gs)" using k by simp
  then have fl: "CBB_flush m k b = (True, b)" by (rule flush_self [OF r])
  note contents = CBB_contents [OF r k]
  obtain n where n: "count_children c 0 = Some n"
    using res contents(2) by (cases "count_children c 0") (simp_all add: CBB_flush_asn1_set_of_def fl)
  then obtain els where els: "reads CBS_get_any_asn1 c els" "n = length els"
    using count_children_reads by fastforce
  then have c: "list_all der_valid els" "c = concat (map der_element els)" using der.reads_iff by auto
  show ?thesis
  proof (cases "n < 2")
    case True
    then have "sorted_by compare_set_of_element (map der_element els)"
      using els(2) by (cases els; cases "tl els") auto
    moreover have "b' = b" using res True n contents(2) by (simp add: CBB_flush_asn1_set_of_def fl)
    ultimately show ?thesis using c r by blast
  next
    case False
    have p: "parse_children n c = Some (map der_element els)" using reads_children els by blast
    obtain els' where q: "qsort compare_set_of_element (map der_element els) = map der_element els'"
      "mset els' = mset els" "sorted_by compare_set_of_element (map der_element els')"
      by (rule qsort_elements)
    have l: "length (concat (map der_element els')) = length c"
      using qsort_map_concat [of compare_set_of_element "map der_element els"] q(1) c(2) by simp
    have b': "b' = write_children (cbb_len b - CBB_len k b) (map der_element els') b"
      using res False n p q(1) contents(2)
      by (auto simp: CBB_flush_asn1_set_of_def fl Let_def split: option.splits dest!: memdup_length_0)
    also have "\<dots> = cbb_poke b (length (layout gs) + reserved kind) (concat (map der_element els'))"
      using contents(3) repr_len [OF r] repr_sound [OF r] l by (simp add: write_children_eq sound_def)
    finally show ?thesis using repr_rewrite_top [OF r l] c q(2,3) by auto
  qed
qed



end
