(* ===== verification/Oid.thy ===== *)
theory Oid
  imports Cbb_Writers
begin

text \<open>
  Object identifiers: the validity check and the conversion to text of \<open>cbs.c\<close>, and the
  conversion from text of \<open>cbb.c\<close>.  Both conversions run a reader and the builder in step;
  they are related to the list of components that \<open>read_all\<close> gives, and shown to be
  inverse to each other.  Text is a byte string; a conversion that fails half-way leaves
  the builder without the error bit, so its contract is \<open>yields\<close>.
\<close>

section \<open>The code\<close>

fun CBS_is_valid_asn1_oid_loop :: "byte \<Rightarrow> cbs \<Rightarrow> bool" where
  "CBS_is_valid_asn1_oid_loop prev [] \<longleftrightarrow> prev AND 0x80 = 0"
| "CBS_is_valid_asn1_oid_loop prev (v # copy) \<longleftrightarrow>
     (if prev AND 0x80 = 0 \<and> v = 0x80 then False else CBS_is_valid_asn1_oid_loop v copy)"

definition CBS_is_valid_asn1_oid :: "cbs \<Rightarrow> bool" where
  "CBS_is_valid_asn1_oid c \<longleftrightarrow> (if length c = 0 then False else CBS_is_valid_asn1_oid_loop 0 c)"

text \<open>What \<open>snprintf\<close> prints for a 64-bit number are its \<open>dec_digits\<close>.\<close>

definition add_decimal :: "malloc \<Rightarrow> uint64 \<Rightarrow> cbb \<Rightarrow> bool \<times> cbb" where
  "add_decimal m v out = CBB_add_bytes m 0 (dec_digits (unat v)) out"

function oid_to_text_loop :: "malloc \<Rightarrow> cbs \<Rightarrow> cbb \<Rightarrow> bool \<times> cbb" where
  "oid_to_text_loop m copy b =
     (if length copy \<noteq> 0 then
        (case parse_base128_integer copy of
           (None, _) \<Rightarrow> (False, b)
         | (Some v, copy) \<Rightarrow>
             cbb_and (CBB_add_u8 m 0 0x2e b)
               (\<lambda>b. cbb_and (add_decimal m v b) (\<lambda>b. oid_to_text_loop m copy b)))
      else (True, b))"
  by pat_completeness auto
termination
  by (relation "measure (\<lambda>(m, copy, b). length copy)") (auto dest: base128.get_progress sym)

declare oid_to_text_loop.simps [simp del]

definition oid_to_text :: "malloc \<Rightarrow> cbs \<Rightarrow> cbb \<Rightarrow> bool \<times> cbb" where
  "oid_to_text m c b =
     (case parse_base128_integer c of
        (None, _) \<Rightarrow> (False, b)
      | (Some v, copy) \<Rightarrow>
          cbb_and
            (if v \<ge> 80 then
               cbb_and (CBB_add_bytes m 0 [0x32, 0x2e] b) (\<lambda>b. add_decimal m (v - 80) b)
             else
               cbb_and (add_decimal m (v div 40) b)
                 (\<lambda>b. cbb_and (CBB_add_u8 m 0 0x2e b) (\<lambda>b. add_decimal m (v mod 40) b)))
            (\<lambda>b. oid_to_text_loop m copy b))"

text \<open>The result is the buffer that holds the NUL-terminated text.\<close>

definition CBS_asn1_oid_to_text :: "malloc \<Rightarrow> cbs \<Rightarrow> block option" where
  "CBS_asn1_oid_to_text m c =
     (case CBB_init m 32 of
        None \<Rightarrow> None
      | Some b \<Rightarrow>
          (case cbb_and (oid_to_text m c b) (\<lambda>b. CBB_add_u8 m 0 0 b) of
             (False, _) \<Rightarrow> None
           | (True, b) \<Rightarrow> map_option fst (fst (CBB_finish m 0 True b))))"

definition parse_dotted_decimal :: "cbs \<Rightarrow> uint64 option \<times> cbs" where
  "parse_dotted_decimal c =
     (case CBS_get_u64_decimal c of
        (None, c) \<Rightarrow> (None, c)
      | (Some out, c) \<Rightarrow>
          (case CBS_get_u8 c of
             (None, c) \<Rightarrow> (Some out, c)
           | (Some dot, c) \<Rightarrow> (if dot = 0x2e \<and> length c > 0 then Some out else None, c)))"

lemma CBS_get_u8_Cons: "CBS_get_u8 [] = (None, [])" "CBS_get_u8 (x # xs) = (Some x, xs)"
  by (simp_all add: CBS_get_u8_def cbs_get_def)

text \<open>The first component ends at the end of the input or at a dot with something after it.\<close>

lemma parse_dotted_decimal_iff:
  "parse_dotted_decimal c = (Some v, c') \<longleftrightarrow>
     c = dec_digits (unat v) @ (if c' = [] then [] else 0x2e # c')"
proof
  assume p: "parse_dotted_decimal c = (Some v, c')"
  then obtain d where d: "CBS_get_u64_decimal c = (Some v, d)"
    by (auto simp: parse_dotted_decimal_def split: prod.splits option.splits if_splits)
  then have "c = dec_digits (unat v) @ d" by (simp add: CBS_get_u64_decimal_iff)
  with p d show "c = dec_digits (unat v) @ (if c' = [] then [] else 0x2e # c')"
    by (cases d) (auto simp: parse_dotted_decimal_def CBS_get_u8_Cons split: if_splits)
next
  assume c: "c = dec_digits (unat v) @ (if c' = [] then [] else 0x2e # c')"
  have dot: "\<not> OPENSSL_isdigit 0x2e" by code_simp
  have "CBS_get_u64_decimal c = (Some v, if c' = [] then [] else 0x2e # c')"
    unfolding CBS_get_u64_decimal_iff using c dot by simp
  then show "parse_dotted_decimal c = (Some v, c')"
    by (simp add: parse_dotted_decimal_def CBS_get_u8_Cons)
qed

lemma parse_dotted_progress: "parse_dotted_decimal c = (Some v, c') \<Longrightarrow> length c' < length c"
  by (cases "dec_digits (unat v)") (auto simp: parse_dotted_decimal_iff)

function oid_from_text_loop :: "malloc \<Rightarrow> nat \<Rightarrow> cbs \<Rightarrow> cbb \<Rightarrow> bool \<times> cbb" where
  "oid_from_text_loop m k c b =
     (if length c > 0 then
        (case parse_dotted_decimal c of
           (None, _) \<Rightarrow> (False, b)
         | (Some a, c) \<Rightarrow> cbb_and (add_base128_integer m k a b) (\<lambda>b. oid_from_text_loop m k c b))
      else (True, b))"
  by pat_completeness auto
termination
  by (relation "measure (\<lambda>(m, k, c, b). length c)") (auto dest: parse_dotted_progress sym)

declare oid_from_text_loop.simps [simp del]

definition CBB_add_asn1_oid_from_text :: "malloc \<Rightarrow> nat \<Rightarrow> byte list \<Rightarrow> cbb \<Rightarrow> bool \<times> cbb" where
  "CBB_add_asn1_oid_from_text m k text b =
     cbb_and (CBB_flush m k b)
       (\<lambda>b. case parse_dotted_decimal text of
              (None, _) \<Rightarrow> (False, b)
            | (Some a, c) \<Rightarrow>
                (case parse_dotted_decimal c of
                   (None, _) \<Rightarrow> (False, b)
                 | (Some b1, c) \<Rightarrow>
                     if a > 2 \<or> a < 2 \<and> b1 > 39 \<or> b1 > UINT64_MAX - 80 then (False, b)
                     else cbb_and (add_base128_integer m k (40 * a + b1) b)
                            (\<lambda>b. oid_from_text_loop m k c b)))"

section \<open>Validity\<close>

definition oid_bytes :: "nat list \<Rightarrow> byte list" where
  "oid_bytes ns = concat (map base128_bytes ns)"

lemma oid_bytes_simps [simp]: "oid_bytes [] = []" "oid_bytes (n # ns) = base128_bytes n @ oid_bytes ns"
  by (simp_all add: oid_bytes_def)

declare CBS_is_valid_asn1_oid_loop.simps [simp del]

lemma oid_loop_Nil: "CBS_is_valid_asn1_oid_loop prev [] \<longleftrightarrow> unat prev < 128"
  by (simp add: CBS_is_valid_asn1_oid_loop.simps byte_and_80)

lemma oid_loop_Cons:
  "CBS_is_valid_asn1_oid_loop prev (v # c) \<longleftrightarrow>
     \<not> (unat prev < 128 \<and> v = 0x80) \<and> CBS_is_valid_asn1_oid_loop v c"
  by (simp add: CBS_is_valid_asn1_oid_loop.simps byte_and_80)

text \<open>Only the high bit of the previous byte matters.\<close>

lemma oid_loop_prev:
  "unat a < 128 \<longleftrightarrow> unat b < 128 \<Longrightarrow> CBS_is_valid_asn1_oid_loop a c \<longleftrightarrow> CBS_is_valid_asn1_oid_loop b c"
  by (cases c) (simp_all add: oid_loop_Nil oid_loop_Cons)

lemma oid_loop_high:
  "CBS_is_valid_asn1_oid_loop 0 (base128_high n @ t) =
     CBS_is_valid_asn1_oid_loop (if n = 0 then 0 else 0x80) t"
proof (induction n arbitrary: t rule: base128_high.induct)
  case (1 n)
  show ?case
  proof (cases "n = 0")
    case False
    let ?b = "0x80 + of_nat (n mod 128) :: byte"
    have b: "unat ?b = 128 + n mod 128" by (rule unat_high_byte) simp
    then have "n div 128 = 0 \<Longrightarrow> ?b \<noteq> 0x80" using False by (auto simp: word_unat_eq_iff div_eq_0_iff)
    moreover have "CBS_is_valid_asn1_oid_loop ?b t = CBS_is_valid_asn1_oid_loop 0x80 t"
      using b by (intro oid_loop_prev) simp
    ultimately show ?thesis
      using False 1 [OF False, of "?b # t"] by (simp add: base128_high.simps [of n] oid_loop_Cons)
  qed simp
qed

lemma oid_loop_bytes: "CBS_is_valid_asn1_oid_loop 0 (base128_bytes n @ t) = CBS_is_valid_asn1_oid_loop 0 t"
proof -
  have b: "unat (of_nat (n mod 128) :: byte) < 128" by simp
  then have "CBS_is_valid_asn1_oid_loop (of_nat (n mod 128)) t = CBS_is_valid_asn1_oid_loop 0 t"
    by (intro oid_loop_prev) simp
  moreover have "(of_nat (n mod 128) :: byte) \<noteq> 0x80" using b by (auto simp: word_unat_eq_iff)
  ultimately show ?thesis
    using oid_loop_high [of "n div 128" "of_nat (n mod 128) # t"] by (simp add: base128_bytes_def oid_loop_Cons)
qed

lemma oid_loop_oid_bytes: "CBS_is_valid_asn1_oid_loop 0 (oid_bytes ns)"
  by (induction ns) (simp_all add: oid_loop_Nil oid_loop_bytes)

text \<open>The loop, at the start of a component and inside the component whose digits so far are \<open>n\<close>.\<close>

lemma oid_loop_components:
  "CBS_is_valid_asn1_oid_loop prev c \<Longrightarrow>
   (unat prev < 128 \<longrightarrow> (\<exists>ns. c = oid_bytes ns)) \<and>
   (\<not> unat prev < 128 \<longrightarrow> 0 < n \<longrightarrow> (\<exists>ns. base128_high n @ c = oid_bytes ns))"
proof (induction c arbitrary: prev n)
  case Nil
  then show ?case by (auto simp: oid_loop_Nil intro: exI [of _ "[]"])
next
  case (Cons v c)
  have v: "CBS_is_valid_asn1_oid_loop v c" and z: "unat prev < 128 \<Longrightarrow> v \<noteq> 0x80"
    using Cons.prems by (auto simp: oid_loop_Cons)
  have step: "\<exists>ns. base128_high k @ v # c = oid_bytes ns" if k: "k = 0 \<Longrightarrow> v \<noteq> 0x80" for k
  proof (cases "unat v < 128")
    case True
    then obtain ns where "c = oid_bytes ns" using Cons.IH [OF v] by blast
    moreover have "base128_bytes (128 * k + unat v) = base128_high k @ [v]"
      using True by (simp add: base128_bytes_def)
    ultimately have "base128_high k @ v # c = oid_bytes ((128 * k + unat v) # ns)" by simp
    then show ?thesis by blast
  next
    case False
    let ?d = "unat v - 128"
    have "?d < 128" using unat_byte_less [of v] by linarith
    moreover have "v = 0x80 + of_nat ?d"
      using False calculation unat_high_byte [of ?d] by (intro byte_eqI) simp
    moreover have pos: "0 < 128 * k + ?d"
      using k False by (cases "k = 0") (auto simp: word_unat_eq_iff)
    ultimately have "base128_high (128 * k + ?d) = base128_high k @ [v]"
      using base128_high_snoc by metis
    moreover obtain ns where "base128_high (128 * k + ?d) @ c = oid_bytes ns"
      using Cons.IH [OF v, of "128 * k + ?d"] False pos by blast
    ultimately show ?thesis by auto
  qed
  show ?case using step [of 0] step [of n] z by auto
qed

section \<open>Conversion to text\<close>

fun dotted :: "nat list \<Rightarrow> byte list" where
  "dotted [] = []"
| "dotted (n # ns) = dec_digits n @ (if ns = [] then [] else 0x2e # dotted ns)"

lemma dotted_Nil_iff [simp]: "dotted ns = [] \<longleftrightarrow> ns = []"
  by (cases ns) simp_all

text \<open>The components a list of base-128 integers stands for: the first integer holds two.\<close>

fun oid_arcs :: "nat list \<Rightarrow> nat list" where
  "oid_arcs [] = []"
| "oid_arcs (v # vs) = (if v \<ge> 80 then [2, v - 80] else [v div 40, v mod 40]) @ vs"

definition dotted_tail :: "nat list \<Rightarrow> byte list" where
  "dotted_tail ns = concat (map (\<lambda>n. 0x2e # dec_digits n) ns)"

lemma dotted_append_tail: "ns \<noteq> [] \<Longrightarrow> dotted (ns @ ms) = dotted ns @ dotted_tail ms"
proof (induction ns)
  case (Cons n ns)
  have "dotted ms' = (if ms' = [] then [] else dec_digits (hd ms') @ dotted_tail (tl ms'))" for ms'
    by (induction ms') (auto simp: dotted_tail_def neq_Nil_conv)
  then show ?case using Cons by (cases ns; cases ms) (auto simp: dotted_tail_def)
qed simp

lemma length_dec_digits: "n < 10 ^ k \<Longrightarrow> 0 < k \<Longrightarrow> length (dec_digits n) \<le> k"
proof (induction k arbitrary: n)
  case (Suc k)
  show ?case
  proof (cases "n < 10")
    case True
    then show ?thesis by (simp add: dec_digits_small)
  next
    case False
    then have "0 < k" using Suc.prems by (cases k) auto
    moreover have "n div 10 < 10 ^ k" using Suc.prems by (simp add: less_mult_imp_div_less mult.commute)
    ultimately have "length (dec_digits (n div 10)) \<le> k" using Suc.IH [of "n div 10"] by simp
    then show ?thesis using False by (simp add: dec_digits.simps [of n])
  qed
qed simp

lemma length_dec_digits_uint64: "length (dec_digits (unat (v :: uint64))) \<le> 20"
proof (rule length_dec_digits)
  have "unat v < 2 ^ 64" using unsigned_less [of v, where 'a = nat] by simp
  also have "(2::nat) ^ 64 \<le> 10 ^ 20" by simp
  finally show "unat v < 10 ^ 20" .
qed simp

lemma add_decimal_yields:
  "repr b fs \<Longrightarrow> malloc_ok m \<Longrightarrow> yields m b (add_decimal m v b) (abs_append 0 (dec_digits (unat v)) fs)"
  unfolding add_decimal_def using length_dec_digits_uint64 [of v]
  by (intro implements_yields CBB_add_bytes_implements) (auto simp: repr_def)

lemma add_bytes_yields:
  "repr b fs \<Longrightarrow> malloc_ok m \<Longrightarrow> length data \<le> SIZE_MAX \<Longrightarrow>
   yields m b (CBB_add_bytes m 0 data b) (abs_append 0 data fs)"
  by (intro implements_yields CBB_add_bytes_implements) (auto simp: repr_def)

lemma add_u8_yields:
  "repr b fs \<Longrightarrow> malloc_ok m \<Longrightarrow> yields m b (CBB_add_u8 m 0 v b) (abs_append 0 [v] fs)"
  by (intro implements_yields CBB_add_u8_implements) (auto simp: repr_def)

lemma to_text_loop_yields:
  "repr b fs \<Longrightarrow> malloc_ok m \<Longrightarrow> length fs = 1 \<Longrightarrow>
   yields m b (oid_to_text_loop m c b)
     (Option.bind (read_all parse_base128_integer c) (\<lambda>vs. abs_append 0 (dotted_tail (map unat vs)) fs))"
proof (induction c arbitrary: b fs rule: measure_induct_rule [of length])
  case (less c)
  show ?case
  proof (cases "c = []")
    case True
    then show ?thesis using less.prems implements_Some [of b fs m]
      by (simp add: oid_to_text_loop.simps [of m "[]"] dotted_tail_def abs_append_Nil close_to_self implements_yields)
  next
    case False
    obtain r c' where g: "parse_base128_integer c = (r, c')" by fastforce
    show ?thesis
    proof (cases r)
      case None
      then show ?thesis using g False
        by (simp add: oid_to_text_loop.simps [of m c] read_all_None yields_None)
    next
      case (Some v)
      with g have l: "length c' < length c" by (auto dest: base128.get_progress)
      have "yields m b (cbb_and (CBB_add_u8 m 0 0x2e b)
            (\<lambda>b. cbb_and (add_decimal m v b) (\<lambda>b. oid_to_text_loop m c' b)))
          (Option.bind (read_all parse_base128_integer c')
            (\<lambda>vs. abs_append 0 ([0x2e] @ dec_digits (unat v) @ dotted_tail (map unat vs)) fs))"
        using less.prems l
        by (intro yields_append add_u8_yields add_decimal_yields less.IH) simp_all
      moreover have "read_all parse_base128_integer c = map_option ((#) v) (read_all parse_base128_integer c')"
        using g Some l by (simp add: read_all_Some)
      ultimately show ?thesis using g Some False
        by (cases "read_all parse_base128_integer c'")
          (simp_all add: oid_to_text_loop.simps [of m c] dotted_tail_def)
    qed
  qed
qed

lemma to_text_yields:
  assumes b: "repr b fs" and m: "malloc_ok m" and l: "length fs = 1"
  shows "yields m b (oid_to_text m c b)
    (Option.bind (read_all parse_base128_integer c)
      (\<lambda>vs. if vs = [] then None else abs_append 0 (dotted (oid_arcs (map unat vs))) fs))"
proof -
  obtain r c' where g: "parse_base128_integer c = (r, c')" by fastforce
  show ?thesis
  proof (cases r)
    case None
    have "read_all parse_base128_integer c = (if c = [] then Some [] else None)"
      using g None by (simp add: read_all_None)
    then show ?thesis using g None by (simp add: oid_to_text_def yields_None)
  next
    case (Some v)
    with g have p: "length c' < length c" by (auto dest: base128.get_progress)
    define first where "first = (if unat v \<ge> 80 then [2, unat v - 80] else [unat v div 40, unat v mod 40])"
    have le: "v \<ge> 80 \<longleftrightarrow> unat v \<ge> 80" by (simp add: word_le_nat_alt)
    have two: "dec_digits 2 = [0x32]" by (simp add: dec_digits_small)
    have "yields m b
        (if v \<ge> 80 then cbb_and (CBB_add_bytes m 0 [0x32, 0x2e] b) (\<lambda>b. add_decimal m (v - 80) b)
         else cbb_and (add_decimal m (v div 40) b)
                (\<lambda>b. cbb_and (CBB_add_u8 m 0 0x2e b) (\<lambda>b. add_decimal m (v mod 40) b)))
        (abs_append 0 (dotted first) fs)"
    proof (cases "v \<ge> 80")
      case True
      then have u: "unat (v - 80) = unat v - 80" by (simp add: unat_sub)
      have "yields m b (cbb_and (CBB_add_bytes m 0 [0x32, 0x2e] b) (\<lambda>b. add_decimal m (v - 80) b))
          (abs_append 0 ([0x32, 0x2e] @ dec_digits (unat (v - 80))) fs)"
        using b m by (intro yields_append1 add_bytes_yields add_decimal_yields) simp_all
      then show ?thesis using True le u two by (simp add: first_def)
    next
      case False
      have "yields m b (cbb_and (add_decimal m (v div 40) b)
            (\<lambda>b. cbb_and (CBB_add_u8 m 0 0x2e b) (\<lambda>b. add_decimal m (v mod 40) b)))
          (abs_append 0 (dec_digits (unat (v div 40)) @ [0x2e] @ dec_digits (unat (v mod 40))) fs)"
        using b m by (intro yields_append1 add_u8_yields add_decimal_yields) simp_all
      then show ?thesis using False le by (simp add: first_def unat_div unat_mod)
    qed
    then have "yields m b (oid_to_text m c b)
        (Option.bind (read_all parse_base128_integer c')
          (\<lambda>vs. abs_append 0 (dotted first @ dotted_tail (map unat vs)) fs))"
      unfolding oid_to_text_def using g Some m l
      by (simp only: prod.case option.case) (intro yields_append to_text_loop_yields, simp_all)
    moreover have "read_all parse_base128_integer c = map_option ((#) v) (read_all parse_base128_integer c')"
      using g Some p by (simp add: read_all_Some)
    ultimately show ?thesis
      using dotted_append_tail [of first]
      by (cases "read_all parse_base128_integer c'") (simp_all add: first_def)
  qed
qed

text \<open>A C string is what comes before the first zero byte.\<close>

abbreviation (input) c_string :: "block \<Rightarrow> byte list" where
  "c_string str \<equiv> takeWhile (\<lambda>b. b \<noteq> 0) str"

lemma dec_digits_nonzero: "0 \<notin> set (dec_digits n)"
  using dec_digits_isdigit [of 0 n] by (auto simp: OPENSSL_isdigit_def)

lemma dotted_nonzero: "0 \<notin> set (dotted ns)"
  by (induction ns) (auto simp: dec_digits_nonzero)

lemma base128_read_all_iff: "read_all parse_base128_integer c = Some vs \<longleftrightarrow> reads parse_base128_integer c vs"
  by (rule read_all_iff) (rule base128.get_progress)

lemma oid_to_text_Some:
  assumes m: "malloc_ok m" and t: "CBS_asn1_oid_to_text m c = Some str"
  shows "\<exists>vs. vs \<noteq> [] \<and> reads parse_base128_integer c vs \<and> c_string str = dotted (oid_arcs (map unat vs))"
proof -
  obtain b where b: "CBB_init m 32 = Some b"
    using t by (cases "CBB_init m 32") (simp_all add: CBS_asn1_oid_to_text_def)
  have r: "repr b [(Root, [])]" by (rule CBB_init_repr [OF m _ b]) simp
  let ?o = "oid_to_text m c b"
  let ?z = "cbb_and ?o (\<lambda>b. CBB_add_u8 m 0 0 b)"
  have z: "fst ?z" and f: "map_option fst (fst (CBB_finish m 0 True (snd ?z))) = Some str"
    using t b by (cases ?z; cases "fst ?z"; simp add: CBS_asn1_oid_to_text_def)+
  let ?spec = "Option.bind (read_all parse_base128_integer c)
      (\<lambda>vs. if vs = [] then None else abs_append 0 (dotted (oid_arcs (map unat vs))) [(Root, [])])"
  have "yields m b ?z (Option.bind ?spec (abs_append 0 [0]))"
    using r m to_text_yields [OF r m, of c] by (intro yields_and add_u8_yields) (auto dest: abs_append_grows)
  then obtain vs where vs: "vs \<noteq> []" "reads parse_base128_integer c vs"
    "repr (snd ?z) [(Root, dotted (oid_arcs (map unat vs)) @ [0])]"
    using z by (auto simp: yields_def bind_eq_Some_conv abs_append_def base128_read_all_iff split: if_splits)
  then have "str = cbb_buf (snd ?z)" and take: "take (cbb_len (snd ?z)) str = dotted (oid_arcs (map unat vs)) @ [0]"
    using CBB_finish_repr(1) [OF vs(3), of m] CBB_finish_repr(2) [OF vs(3)] f by auto
  then have "str = dotted (oid_arcs (map unat vs)) @ 0 # drop (cbb_len (snd ?z)) str"
    by (metis append_Cons append_Nil append_assoc append_take_drop_id)
  then have "c_string str = dotted (oid_arcs (map unat vs))"
    using dotted_nonzero by (metis (mono_tags, lifting) takeWhile_append2 takeWhile.simps(2) append_Nil2)
  with vs show ?thesis by blast
qed

section \<open>Conversion from text\<close>

lemma from_text_loop_yields:
  "repr b fs \<Longrightarrow> malloc_ok m \<Longrightarrow> length fs = Suc k \<Longrightarrow>
   yields m b (oid_from_text_loop m k c b)
     (Option.bind (read_all parse_dotted_decimal c) (\<lambda>vs. abs_append k (oid_bytes (map unat vs)) fs))"
proof (induction c arbitrary: b fs rule: measure_induct_rule [of length])
  case (less c)
  show ?case
  proof (cases "c = []")
    case True
    then show ?thesis using less.prems implements_Some [of b fs m]
      by (simp add: oid_from_text_loop.simps [of m k "[]"] abs_append_Nil close_to_self implements_yields)
  next
    case False
    obtain r c' where g: "parse_dotted_decimal c = (r, c')" by fastforce
    show ?thesis
    proof (cases r)
      case None
      then show ?thesis using g False
        by (simp add: oid_from_text_loop.simps [of m k c] read_all_None yields_None)
    next
      case (Some v)
      with g have l: "length c' < length c" by (auto dest: parse_dotted_progress)
      have "yields m b (cbb_and (add_base128_integer m k v b) (\<lambda>b. oid_from_text_loop m k c' b))
          (Option.bind (read_all parse_dotted_decimal c')
            (\<lambda>vs. abs_append k (base128_bytes (unat v) @ oid_bytes (map unat vs)) fs))"
        using less.prems l
        by (intro yields_append implements_yields [OF add_base128_integer_implements] less.IH) simp_all
      moreover have "read_all parse_dotted_decimal c = map_option ((#) v) (read_all parse_dotted_decimal c')"
        using g Some l by (simp add: read_all_Some)
      ultimately show ?thesis using g Some False
        by (cases "read_all parse_dotted_decimal c'") (simp_all add: oid_from_text_loop.simps [of m k c])
    qed
  qed
qed

text \<open>The first two components in one integer, when they fit.\<close>

definition oid_join :: "nat list \<Rightarrow> nat list option" where
  "oid_join ns =
     (case ns of
        a # b # ms \<Rightarrow>
          if a > 2 \<or> a < 2 \<and> b > 39 \<or> b > 18446744073709551535 then None else Some ((40 * a + b) # ms)
      | _ \<Rightarrow> None)"

lemma oid_join_arcs: "vs \<noteq> [] \<Longrightarrow> hd vs \<le> 18446744073709551615 \<Longrightarrow> oid_join (oid_arcs vs) = Some vs"
  by (cases vs) (auto simp: oid_join_def)

lemma reads_dotted_iff: "reads parse_dotted_decimal c vs \<longleftrightarrow> c = dotted (map unat vs)"
proof (induction vs arbitrary: c)
  case Nil
  then show ?case by (auto simp: reads_empty_iff)
next
  case (Cons v vs)
  have "reads parse_dotted_decimal c (v # vs) \<longleftrightarrow>
      (\<exists>c'. parse_dotted_decimal c = (Some v, c') \<and> c \<noteq> [] \<and> reads parse_dotted_decimal c' vs)"
    by (auto elim: reads_ConsE intro: reads_Cons)
  then show ?case by (auto simp: Cons.IH parse_dotted_decimal_iff dec_digits_nonempty [THEN not_sym])
qed

lemma dotted_read_all_iff: "read_all parse_dotted_decimal c = Some vs \<longleftrightarrow> c = dotted (map unat vs)"
  unfolding reads_dotted_iff [symmetric] by (rule read_all_iff) (rule parse_dotted_progress)

lemma dotted_read_all_Some:
  "parse_dotted_decimal c = (Some v, d) \<Longrightarrow>
   read_all parse_dotted_decimal c = map_option ((#) v) (read_all parse_dotted_decimal d)"
  by (blast intro: read_all_Some parse_dotted_progress)

lemma join_guard:
  fixes a b :: uint64
  shows "(a > 2 \<or> a < 2 \<and> b > 39 \<or> b > UINT64_MAX - 80) \<longleftrightarrow>
      (unat a > 2 \<or> unat a < 2 \<and> unat b > 39 \<or> unat b > 18446744073709551535)"
    and "\<not> (a > 2 \<or> a < 2 \<and> b > 39 \<or> b > UINT64_MAX - 80) \<Longrightarrow> unat (40 * a + b) = 40 * unat a + unat b"
proof -
  show eq: "(a > 2 \<or> a < 2 \<and> b > 39 \<or> b > UINT64_MAX - 80) \<longleftrightarrow>
      (unat a > 2 \<or> unat a < 2 \<and> unat b > 39 \<or> unat b > 18446744073709551535)"
    by (simp add: word_less_nat_alt)
  assume "\<not> (a > 2 \<or> a < 2 \<and> b > 39 \<or> b > UINT64_MAX - 80)"
  with eq have "unat a \<le> 2" "unat b \<le> 18446744073709551535" by simp_all
  then show "unat (40 * a + b) = 40 * unat a + unat b" by (simp add: unat_word_ariths mod_simps)
qed

lemma from_text_yields:
  assumes r: "repr b fs" and m: "malloc_ok m" and k: "k < length fs"
  shows "yields m b (CBB_add_asn1_oid_from_text m k text b)
    (Option.bind (read_all parse_dotted_decimal text)
      (\<lambda>vs. Option.bind (oid_join (map unat vs)) (\<lambda>ns. abs_append k (oid_bytes ns) fs)))"
proof -
  define body where "body = (\<lambda>b. case parse_dotted_decimal text of
      (None, _) \<Rightarrow> (False, b)
    | (Some a, c) \<Rightarrow>
        (case parse_dotted_decimal c of
           (None, _) \<Rightarrow> (False, b)
         | (Some b1, c) \<Rightarrow>
             if a > 2 \<or> a < 2 \<and> b1 > 39 \<or> b1 > UINT64_MAX - 80 then (False, b)
             else cbb_and (add_base128_integer m k (40 * a + b1) b) (\<lambda>b. oid_from_text_loop m k c b)))"
  let ?vs = "read_all parse_dotted_decimal text"
  let ?spec = "\<lambda>gs. Option.bind ?vs (\<lambda>vs. Option.bind (oid_join (map unat vs)) (\<lambda>ns. abs_append k (oid_bytes ns) gs))"
  have body: "yields m b' (body b') (?spec gs)" if b': "repr b' gs" "length gs = Suc k" for b' gs
  proof -
    obtain r c where pt: "parse_dotted_decimal text = (r, c)" by fastforce
    show ?thesis
    proof (cases r)
      case None
      then have "?vs = (if text = [] then Some [] else None)" using pt by (simp add: read_all_None)
      then show ?thesis using pt None by (simp add: body_def oid_join_def yields_None)
    next
      case (Some a)
      then have vs: "?vs = map_option ((#) a) (read_all parse_dotted_decimal c)"
        using pt dotted_read_all_Some by simp
      obtain r1 d where c: "parse_dotted_decimal c = (r1, d)" by fastforce
      show ?thesis
      proof (cases r1)
        case None
        then have "read_all parse_dotted_decimal c = (if c = [] then Some [] else None)"
          using c by (simp add: read_all_None)
        then show ?thesis using pt Some c None vs by (simp add: body_def oid_join_def yields_None)
      next
        case (Some b1)
        then have ds: "read_all parse_dotted_decimal c = map_option ((#) b1) (read_all parse_dotted_decimal d)"
          using c dotted_read_all_Some by simp
        note cond = join_guard [of a b1]
        show ?thesis
        proof (cases "a > 2 \<or> a < 2 \<and> b1 > 39 \<or> b1 > UINT64_MAX - 80")
          case True
          then have "body b' = (False, b')" using pt \<open>r = Some a\<close> c Some by (simp add: body_def)
          moreover have "oid_join (map unat (a # b1 # xs)) = None" for xs :: "uint64 list"
            using True cond(1) by (simp add: oid_join_def)
          ultimately show ?thesis
            using vs ds by (cases "read_all parse_dotted_decimal d") (simp_all add: yields_None)
        next
          case False
          then have j: "oid_join (map unat (a # b1 # xs)) = Some (unat (40 * a + b1) # map unat xs)" for xs :: "uint64 list"
            using False [unfolded cond(1)] by (simp add: oid_join_def cond(2) [OF False])
          have "yields m b' (cbb_and (add_base128_integer m k (40 * a + b1) b') (\<lambda>b. oid_from_text_loop m k d b))
              (Option.bind (read_all parse_dotted_decimal d)
                (\<lambda>vs. abs_append k (base128_bytes (unat (40 * a + b1)) @ oid_bytes (map unat vs)) gs))"
            using b' m
            by (intro yields_append implements_yields [OF add_base128_integer_implements] from_text_loop_yields) simp_all
          moreover have "body b' = cbb_and (add_base128_integer m k (40 * a + b1) b') (\<lambda>b. oid_from_text_loop m k d b)"
            using pt \<open>r = Some a\<close> c Some if_not_P [OF False] by (simp only: body_def prod.case option.case)
          ultimately show ?thesis
            using vs ds j by (cases "read_all parse_dotted_decimal d") simp_all
        qed
      qed
    qed
  qed
  have "yields m b (cbb_and (CBB_flush m k b) body) (Option.bind (close_to k fs) ?spec)"
    using body close_to_length r m k
    by (intro yields_and implements_yields [OF flush_implements])
      (auto dest: abs_append_grows simp: bind_eq_Some_conv)
  moreover have "Option.bind (close_to k fs) (abs_append k x) = abs_append k x fs" for x
    using abs_append_append [of k "[]" fs x] by (simp add: abs_append_Nil)
  then have "Option.bind (close_to k fs) ?spec = ?spec fs"
    by (cases ?vs; cases "close_to k fs") (auto simp: abs_append_def split: bind_split)
  ultimately show ?thesis unfolding CBB_add_asn1_oid_from_text_def body_def by simp
qed

section \<open>The properties\<close>

text \<open>C28. An object identifier is valid exactly when it is a non-empty sequence of minimally encoded
  base-128 integers of any size: the one-pass check on the high bits decides this without
  decoding.\<close>

theorem valid_oid_iff:
  "CBS_is_valid_asn1_oid c \<longleftrightarrow> (\<exists>ns. ns \<noteq> [] \<and> c = concat (map base128_bytes ns))"
proof -
  have "CBS_is_valid_asn1_oid_loop 0 c \<longleftrightarrow> (\<exists>ns. c = oid_bytes ns)"
    using oid_loop_components [of 0 c 1] oid_loop_oid_bytes by auto
  moreover have "oid_bytes ns = [] \<longleftrightarrow> ns = []" for ns by (cases ns) simp_all
  ultimately show ?thesis
    unfolding CBS_is_valid_asn1_oid_def oid_bytes_def [symmetric] by (metis length_0_conv)
qed

text \<open>C13. The text of an object identifier is converted back to the same bytes: if
  \<open>CBS_asn1_oid_to_text\<close> returns a string for \<open>c\<close>, then adding that string to a builder, whatever is
  open in it, can only append \<open>c\<close>, and it does succeed when the builder has room for the result.\<close>

theorem oid_text_roundtrip:
  assumes m: "malloc_ok m" and t: "CBS_asn1_oid_to_text m c = Some str"
    and r: "repr b fs" and k: "k < length fs"
  shows "yields m b (CBB_add_asn1_oid_from_text m k (takeWhile (\<lambda>b. b \<noteq> 0) str) b) (abs_append k c fs)"
proof -
  obtain vs where vs: "vs \<noteq> []" "reads parse_base128_integer c vs"
    and str: "c_string str = dotted (oid_arcs (map unat vs))"
    using oid_to_text_Some [OF m t] by blast
  have c: "c = oid_bytes (map unat vs)" using vs(2) by (simp add: base128.reads_iff oid_bytes_def comp_def)
  obtain v ws where v: "vs = v # ws" using vs(1) by (cases vs) auto
  define us :: "uint64 list" where "us = (if unat v \<ge> 80 then [2, v - 80] else [v div 40, v mod 40]) @ ws"
  have us: "map unat us = oid_arcs (map unat vs)"
    by (simp add: us_def v unat_sub word_le_nat_alt unat_div unat_mod)
  have "unat v \<le> 18446744073709551615" using unsigned_less [of v, where 'a = nat] by simp
  then have "oid_join (map unat us) = Some (map unat vs)" unfolding us by (intro oid_join_arcs) (simp_all add: v)
  moreover have "read_all parse_dotted_decimal (c_string str) = Some us"
    unfolding dotted_read_all_iff us str ..
  ultimately show ?thesis using from_text_yields [OF r m k, of "c_string str"] c by simp
qed

text \<open>C29. Only the dotted notation of an identifier is accepted: when the conversion succeeds, the text
  lists at least two components, the first two are in range, and what is appended is the
  base-128 encoding of the components with the first two joined.\<close>

theorem oid_from_text_exact:
  assumes m: "malloc_ok m" and r: "repr b fs" and k: "k < length fs"
    and s: "CBB_add_asn1_oid_from_text m k str b = (True, b')"
  shows "\<exists>x y zs. str = dotted (x # y # zs) \<and> x \<le> 2 \<and> (x < 2 \<longrightarrow> y \<le> 39) \<and>
    (\<exists>gs. abs_append k (concat (map base128_bytes ((40 * x + y) # zs))) fs = Some gs \<and> repr b' gs)"
proof -
  obtain vs ns gs where vs: "read_all parse_dotted_decimal str = Some vs" and j: "oid_join (map unat vs) = Some ns"
    and gs: "abs_append k (oid_bytes ns) fs = Some gs" "repr b' gs"
    using from_text_yields [OF r m k, of str] s by (auto simp: yields_def bind_eq_Some_conv)
  obtain x y zs where "map unat vs = x # y # zs" "ns = (40 * x + y) # zs" "x \<le> 2" "x < 2 \<longrightarrow> y \<le> 39"
    using j by (auto simp: oid_join_def split: list.splits if_splits)
  moreover from this have "str = dotted (x # y # zs)" using vs by (simp only: dotted_read_all_iff)
  ultimately show ?thesis using gs unfolding oid_bytes_def by blast
qed

section \<open>Concrete runs\<close>

lemma small_builder_repr: "repr small_builder [(Root, [])]"
  by (rule CBB_init_repr [OF zero_malloc_ok _ small_builder]) simp

theorem oid_text_roundtrip_witness:
  "yields zero_malloc small_builder
     (CBB_add_asn1_oid_from_text zero_malloc 0
       (takeWhile (\<lambda>b. b \<noteq> 0) (the (CBS_asn1_oid_to_text zero_malloc [0x2a, 0x86, 0x48]))) small_builder)
     (abs_append 0 [0x2a, 0x86, 0x48] [(Root, [])])"
proof (rule oid_text_roundtrip [OF zero_malloc_ok _ small_builder_repr])
  have "CBS_asn1_oid_to_text zero_malloc [0x2a, 0x86, 0x48] \<noteq> None" by code_simp
  then show "CBS_asn1_oid_to_text zero_malloc [0x2a, 0x86, 0x48] =
      Some (the (CBS_asn1_oid_to_text zero_malloc [0x2a, 0x86, 0x48]))" by auto
qed simp

theorem oid_from_text_exact_witness:
  "\<exists>x y zs. [0x31, 0x2e, 0x32] = dotted (x # y # zs) \<and> x \<le> 2 \<and> (x < 2 \<longrightarrow> y \<le> 39) \<and>
    (\<exists>gs. abs_append 0 (concat (map base128_bytes ((40 * x + y) # zs))) [(Root, [])] = Some gs \<and>
      repr (snd (CBB_add_asn1_oid_from_text zero_malloc 0 [0x31, 0x2e, 0x32] small_builder)) gs)"
proof (rule oid_from_text_exact [OF zero_malloc_ok small_builder_repr])
  have "fst (CBB_add_asn1_oid_from_text zero_malloc 0 [0x31, 0x2e, 0x32] small_builder) = True" by code_simp
  then show "CBB_add_asn1_oid_from_text zero_malloc 0 [0x31, 0x2e, 0x32] small_builder =
      (True, snd (CBB_add_asn1_oid_from_text zero_malloc 0 [0x31, 0x2e, 0x32] small_builder))"
    by (rule pair_eqs)
qed simp

end
