(* ===== verification/Unicode.thy ===== *)
theory Unicode
  imports Cbb_Writers
begin

text \<open>
  Unicode strings, \<open>crypto/bytestring/unicode.c\<close>: one character at a time in UTF-8,
  Latin-1, UCS-2 and UTF-32.  Each reader and its writer are interpretations of \<open>writer\<close>
  for the reference encoding of code points as numbers: a reader accepts exactly the
  shortest encoding of a valid code point, which its writer produces.
\<close>

section \<open>The code\<close>

definition is_valid_code_point :: "uint32 \<Rightarrow> bool" where
  "is_valid_code_point v \<longleftrightarrow>
     \<not> (v > 0x10ffff \<or> v AND 0xfffe = 0xfffe \<or> (v \<ge> 0xfdd0 \<and> v \<le> 0xfdef) \<or> (v \<ge> 0xd800 \<and> v \<le> 0xdfff))"

text \<open>Bytes with the bottom, or the top, \<open>n\<close> bits set.\<close>

definition BOTTOM_BITS :: "nat \<Rightarrow> byte" where
  "BOTTOM_BITS n = mask n"

definition TOP_BITS :: "nat \<Rightarrow> byte" where
  "TOP_BITS n = NOT (BOTTOM_BITS (8 - n))"

fun CBS_get_utf8_loop :: "nat \<Rightarrow> uint32 \<Rightarrow> cbs \<Rightarrow> uint32 option \<times> cbs" where
  "CBS_get_utf8_loop 0 v s = (Some v, s)"
| "CBS_get_utf8_loop (Suc i) v s =
     (case CBS_get_u8 s of
        (None, s) \<Rightarrow> (None, s)
      | (Some c, s) \<Rightarrow>
          if c AND TOP_BITS 2 \<noteq> TOP_BITS 1 then (None, s)
          else CBS_get_utf8_loop i (push_bit 6 v OR ucast (c AND BOTTOM_BITS 6)) s)"

definition CBS_get_utf8 :: "cbs \<Rightarrow> uint32 option \<times> cbs" where
  "CBS_get_utf8 s =
     (case CBS_get_u8 s of
        (None, s) \<Rightarrow> (None, s)
      | (Some c, s) \<Rightarrow>
          if c \<le> 0x7f then (Some (ucast c), s)
          else
            (case (if c AND TOP_BITS 3 = TOP_BITS 2 then Some (c AND BOTTOM_BITS 5, 1, 0x80)
                   else if c AND TOP_BITS 4 = TOP_BITS 3 then Some (c AND BOTTOM_BITS 4, 2, 0x800)
                   else if c AND TOP_BITS 5 = TOP_BITS 4 then Some (c AND BOTTOM_BITS 3, 3, 0x10000)
                   else None) of
               None \<Rightarrow> (None, s)
             | Some (v, len, lower_bound) \<Rightarrow>
                 (case CBS_get_utf8_loop len (ucast v) s of
                    (None, s) \<Rightarrow> (None, s)
                  | (Some v, s) \<Rightarrow>
                      if \<not> is_valid_code_point v \<or> v < lower_bound then (None, s) else (Some v, s))))"

definition CBS_get_latin1 :: "cbs \<Rightarrow> uint32 option \<times> cbs" where
  "CBS_get_latin1 s = (case CBS_get_u8 s of (None, s) \<Rightarrow> (None, s) | (Some c, s) \<Rightarrow> (Some (ucast c), s))"

definition CBS_get_ucs2_be :: "cbs \<Rightarrow> uint32 option \<times> cbs" where
  "CBS_get_ucs2_be s =
     (case CBS_get_u16 s of
        (None, s) \<Rightarrow> (None, s)
      | (Some c, s) \<Rightarrow> (if is_valid_code_point (ucast c) then Some (ucast c) else None, s))"

definition CBS_get_utf32_be :: "cbs \<Rightarrow> uint32 option \<times> cbs" where
  "CBS_get_utf32_be s =
     (case CBS_get_u32 s of
        (None, s) \<Rightarrow> (None, s)
      | (Some c, s) \<Rightarrow> (if is_valid_code_point c then Some c else None, s))"

definition CBB_get_utf8_len :: "uint32 \<Rightarrow> nat" where
  "CBB_get_utf8_len u = (if u \<le> 0x7f then 1 else if u \<le> 0x7ff then 2 else if u \<le> 0xffff then 3 else 4)"

text \<open>The arguments of \<open>CBB_add_u8\<close> are converted to \<open>uint8_t\<close>.\<close>

definition CBB_add_utf8 :: "uint32 emitter" where
  "CBB_add_utf8 m k u b =
     (let top = (\<lambda>n s. ucast (ucast (TOP_BITS n) OR drop_bit s u) :: byte);
          mid = (\<lambda>s. ucast (ucast (TOP_BITS 1) OR (drop_bit s u AND ucast (BOTTOM_BITS 6))) :: byte)
      in if \<not> is_valid_code_point u then (False, b)
         else if u \<le> 0x7f then CBB_add_u8 m k (ucast u) b
         else if u \<le> 0x7ff then
           cbb_and (CBB_add_u8 m k (top 2 6) b) (\<lambda>b. CBB_add_u8 m k (mid 0) b)
         else if u \<le> 0xffff then
           cbb_and (CBB_add_u8 m k (top 3 12) b)
             (\<lambda>b. cbb_and (CBB_add_u8 m k (mid 6) b) (\<lambda>b. CBB_add_u8 m k (mid 0) b))
         else if u \<le> 0x10ffff then
           cbb_and (CBB_add_u8 m k (top 4 18) b)
             (\<lambda>b. cbb_and (CBB_add_u8 m k (mid 12) b)
               (\<lambda>b. cbb_and (CBB_add_u8 m k (mid 6) b) (\<lambda>b. CBB_add_u8 m k (mid 0) b)))
         else (False, b))"

definition CBB_add_latin1 :: "uint32 emitter" where
  "CBB_add_latin1 m k u b = (if u \<le> 0xff then CBB_add_u8 m k (ucast u) b else (False, b))"

definition CBB_add_ucs2_be :: "uint32 emitter" where
  "CBB_add_ucs2_be m k u b =
     (if u \<le> 0xffff \<and> is_valid_code_point u then CBB_add_u16 m k (ucast u) b else (False, b))"

definition CBB_add_utf32_be :: "uint32 emitter" where
  "CBB_add_utf32_be m k u b = (if is_valid_code_point u then CBB_add_u32 m k u b else (False, b))"

section \<open>The reference encoding\<close>

text \<open>Unicode scalar values that are not reserved as noncharacters.\<close>

definition code_point :: "nat \<Rightarrow> bool" where
  "code_point n \<longleftrightarrow> n \<le> 0x10ffff \<and> n mod 65536 < 65534 \<and> \<not> (0xfdd0 \<le> n \<and> n \<le> 0xfdef) \<and>
     \<not> (0xd800 \<le> n \<and> n \<le> 0xdfff)"

definition utf8_bytes :: "nat \<Rightarrow> byte list" where
  "utf8_bytes n =
     (if n < 0x80 then [of_nat n]
      else if n < 0x800 then [0xc0 + of_nat (n div 64), 0x80 + of_nat (n mod 64)]
      else if n < 0x10000 then
        [0xe0 + of_nat (n div 64 div 64), 0x80 + of_nat (n div 64 mod 64), 0x80 + of_nat (n mod 64)]
      else
        [0xf0 + of_nat (n div 64 div 64 div 64), 0x80 + of_nat (n div 64 div 64 mod 64),
         0x80 + of_nat (n div 64 mod 64), 0x80 + of_nat (n mod 64)])"

lemma bit_fffe: "bit (0xfffe :: uint32) n \<longleftrightarrow> 1 \<le> n \<and> n \<le> 15"
proof -
  have "(0xfffe :: uint32) = push_bit 1 (mask 15)" by (simp add: mask_eq_exp_minus_1)
  then have "bit (0xfffe :: uint32) n \<longleftrightarrow> n < 32 \<and> 1 \<le> n \<and> n - 1 < 15"
    by (simp only: bit_push_bit_iff bit_mask_iff possible_bit_word) auto
  then show ?thesis by auto
qed

lemma and_fffe: "v AND 0xfffe = 0xfffe \<longleftrightarrow> 65534 \<le> unat v mod 65536" for v :: uint32
proof -
  have "v AND 0xfffe = 0xfffe \<longleftrightarrow> (\<forall>n<32. (bit v n \<and> 1 \<le> n \<and> n \<le> 15) = (1 \<le> n \<and> n \<le> 15))"
    by (simp only: bit_eq_iff [of "v AND 0xfffe"] bit_and_iff bit_fffe possible_bit_word) simp
  also have "\<dots> \<longleftrightarrow> (\<forall>n. 1 \<le> n \<and> n \<le> 15 \<longrightarrow> bit v n)"
  proof
    assume b: "\<forall>n<32. (bit v n \<and> 1 \<le> n \<and> n \<le> 15) = (1 \<le> n \<and> n \<le> 15)"
    show "\<forall>n. 1 \<le> n \<and> n \<le> 15 \<longrightarrow> bit v n"
    proof (intro allI impI)
      fix n :: nat assume "1 \<le> n \<and> n \<le> 15"
      then show "bit v n" using b [rule_format, of n] by simp
    qed
  qed blast
  also have "\<dots> \<longleftrightarrow> (\<forall>n<15. bit v (Suc n))"
  proof
    assume b: "\<forall>n<15. bit v (Suc n)"
    show "\<forall>n. 1 \<le> n \<and> n \<le> 15 \<longrightarrow> bit v n"
    proof (intro allI impI)
      fix n :: nat assume "1 \<le> n \<and> n \<le> 15"
      then show "bit v n" using b [rule_format, of "n - 1"] by (cases n) auto
    qed
  qed simp
  also have "\<dots> \<longleftrightarrow> (\<forall>n<15. bit (unat v div 2) n)"
    by (simp add: bit_Suc [symmetric] bit_unsigned_iff)
  also have "\<dots> \<longleftrightarrow> take_bit 15 (unat v div 2) = mask 15"
    by (auto simp: bit_eq_iff bit_take_bit_iff bit_mask_iff)
  also have "\<dots> \<longleftrightarrow> unat v div 2 mod 32768 = 32767"
    by (simp add: take_bit_eq_mod mask_eq_exp_minus_1)
  also have "\<dots> \<longleftrightarrow> 65534 \<le> unat v mod 65536"
  proof -
    have "unat v mod 65536 = 2 * (unat v div 2 mod 32768) + unat v mod 2"
      using mod_mult2_eq [of "unat v" 2 32768] by simp
    moreover have "unat v div 2 mod 32768 < 32768" "unat v mod 2 < 2" by simp_all
    ultimately show ?thesis by linarith
  qed
  finally show ?thesis .
qed

lemma is_valid_code_point_iff: "is_valid_code_point v \<longleftrightarrow> code_point (unat v)"
proof -
  have "v > 0x10ffff \<longleftrightarrow> \<not> unat v \<le> 0x10ffff" "v \<ge> 0xfdd0 \<longleftrightarrow> 0xfdd0 \<le> unat v" "v \<le> 0xfdef \<longleftrightarrow> unat v \<le> 0xfdef"
    "v \<ge> 0xd800 \<longleftrightarrow> 0xd800 \<le> unat v" "v \<le> 0xdfff \<longleftrightarrow> unat v \<le> 0xdfff"
    by (auto simp: word_le_nat_alt word_less_nat_alt)
  then show ?thesis unfolding is_valid_code_point_def code_point_def and_fffe by auto
qed

text \<open>The byte classes.\<close>

lemma unat_and_TOP_BITS: "n \<le> 8 \<Longrightarrow> unat (c AND TOP_BITS n) = unat c div 2 ^ (8 - n) * 2 ^ (8 - n)"
proof -
  assume n: "n \<le> 8"
  have "c AND TOP_BITS n = push_bit (8 - n) (drop_bit (8 - n) c)"
    by (rule bit_eqI) (auto simp: TOP_BITS_def BOTTOM_BITS_def bit_simps)
  moreover have "unat c div 2 ^ (8 - n) * 2 ^ (8 - n) < 256"
    by (rule order.strict_trans1 [OF _ unat_byte_less [of c]]) (simp add: div_times_less_eq_dividend)
  ultimately show ?thesis by (simp add: unat_push_bit unat_drop_bit)
qed

lemma TOP_BITS_eq:
  "unat (TOP_BITS 1) = 128" "unat (TOP_BITS 2) = 192" "unat (TOP_BITS 3) = 224" "unat (TOP_BITS 4) = 240"
  by code_simp+

lemma byte_bits:
  "(c AND TOP_BITS 2 = TOP_BITS 1) = (128 \<le> unat c \<and> unat c < 192)"
  "(c AND TOP_BITS 3 = TOP_BITS 2) = (192 \<le> unat c \<and> unat c < 224)"
  "(c AND TOP_BITS 4 = TOP_BITS 3) = (224 \<le> unat c \<and> unat c < 240)"
  "(c AND TOP_BITS 5 = TOP_BITS 4) = (240 \<le> unat c \<and> unat c < 248)"
proof -
  have *: "k * q = n \<longleftrightarrow> q = n div k" if "0 < k" "n mod k = 0" for k q n :: nat
    using that by auto
  have **: "u div k = q \<longleftrightarrow> k * q \<le> u \<and> u < k * q + k" if "0 < k" for u k q :: nat
    using that by (auto simp: div_nat_eqI) (metis add.commute dividend_less_times_div mult.commute)
  show "(c AND TOP_BITS 2 = TOP_BITS 1) = (128 \<le> unat c \<and> unat c < 192)"
    "(c AND TOP_BITS 3 = TOP_BITS 2) = (192 \<le> unat c \<and> unat c < 224)"
    "(c AND TOP_BITS 4 = TOP_BITS 3) = (224 \<le> unat c \<and> unat c < 240)"
    "(c AND TOP_BITS 5 = TOP_BITS 4) = (240 \<le> unat c \<and> unat c < 248)"
    unfolding word_unat_eq_iff TOP_BITS_eq
    by (subst unat_and_TOP_BITS; simp add: mult.commute * **)+
qed

lemma unat_and_BOTTOM_BITS: "unat (c AND BOTTOM_BITS n) = unat c mod 2 ^ n"
  by (simp add: BOTTOM_BITS_def unat_and_mask)

section \<open>Continuation bytes\<close>

text \<open>Base-64 digits and the bytes that carry them.\<close>

definition cont_bytes :: "nat list \<Rightarrow> byte list" where
  "cont_bytes ds = map (\<lambda>d. 0x80 + of_nat d) ds"

fun base64_value :: "nat \<Rightarrow> nat list \<Rightarrow> nat" where
  "base64_value a [] = a"
| "base64_value a (d # ds) = base64_value (64 * a + d) ds"

lemma cont_byte: "d < 64 \<Longrightarrow> unat (0x80 + of_nat d :: byte) = 128 + d"
  by (simp add: unat_word_ariths)

lemma cont_byte_obtain:
  assumes "128 \<le> unat (c :: byte)" "unat c < 192"
  shows "unat c - 128 < 64" and "c = 0x80 + of_nat (unat c - 128)" and "unat c mod 64 = unat c - 128"
proof -
  show d: "unat c - 128 < 64" using assms by linarith
  have u: "unat c = (unat c - 128) + 64 * 2" using assms by linarith
  have "unat (0x80 + of_nat (unat c - 128) :: byte) = 128 + (unat c - 128)" by (rule cont_byte [OF d])
  also have "\<dots> = unat c" using assms by linarith
  finally show "c = 0x80 + of_nat (unat c - 128)" by (intro byte_eqI) (rule sym)
  show "unat c mod 64 = unat c - 128" using d by (subst u) (simp only: mod_mult_self2 mod_less)
qed

lemma utf8_step:
  assumes "(unat v + 1) * 64 \<le> 4294967296" "128 \<le> unat c" "unat c < 192"
  shows "unat (push_bit 6 v OR ucast (c AND BOTTOM_BITS 6) :: uint32) = 64 * unat v + (unat c - 128)"
proof -
  have u: "unat (ucast (c AND BOTTOM_BITS 6) :: uint32) = unat c - 128"
    using cont_byte_obtain(3) [OF assms(2,3)] by (simp add: unat_ucast_up unat_and_BOTTOM_BITS)
  show ?thesis using assms cont_byte_obtain(1) [OF assms(2,3)] by (subst unat_shift_or) (auto simp: u)
qed

lemma utf8_loop_Cons:
  "CBS_get_utf8_loop (Suc i) v (c # s) =
     (if 128 \<le> unat c \<and> unat c < 192 then CBS_get_utf8_loop i (push_bit 6 v OR ucast (c AND BOTTOM_BITS 6)) s
      else (None, s))"
  by (simp add: CBS_get_u8_def cbs_get_def byte_bits(1) [unfolded One_nat_def])

lemma utf8_loop_Nil: "CBS_get_utf8_loop (Suc i) v [] = (None, [])"
  by (simp add: CBS_get_u8_def cbs_get_def)

declare CBS_get_utf8_loop.simps(2) [simp del]

lemma utf8_loop_iff:
  "(unat v + 1) * 64 ^ i \<le> 4294967296 \<Longrightarrow>
   CBS_get_utf8_loop i v s = (Some w, s') \<longleftrightarrow>
     (\<exists>ds. length ds = i \<and> list_all (\<lambda>d. d < 64) ds \<and> s = cont_bytes ds @ s' \<and> unat w = base64_value (unat v) ds)"
proof (induction i arbitrary: v s)
  case 0
  then show ?case by (auto simp: cont_bytes_def word_unat_eq_iff)
next
  case (Suc i)
  show ?case
  proof (cases s)
    case Nil
    then show ?thesis by (auto simp: utf8_loop_Nil cont_bytes_def)
  next
    case (Cons c r)
    have b: "(unat v + 1) * 64 \<le> 4294967296"
    proof -
      have "(unat v + 1) * 64 * 1 \<le> (unat v + 1) * 64 * 64 ^ i" by (intro mult_left_mono) auto
      also have "\<dots> = (unat v + 1) * 64 ^ Suc i" by (simp only: power_Suc mult.assoc)
      finally show ?thesis using Suc.prems by linarith
    qed
    show ?thesis
    proof (cases "128 \<le> unat c \<and> unat c < 192")
      case True
      let ?v = "push_bit 6 v OR ucast (c AND BOTTOM_BITS 6) :: uint32" and ?d = "unat c - 128"
      have d: "?d < 64" "c = 0x80 + of_nat ?d" using cont_byte_obtain True by simp_all
      have v: "unat ?v = 64 * unat v + ?d" using utf8_step b True by blast
      have "(unat ?v + 1) * 64 ^ i \<le> (unat v + 1) * 64 * 64 ^ i" using d v by (intro mult_right_mono) auto
      also have "(unat v + 1) * 64 * 64 ^ i = (unat v + 1) * 64 ^ Suc i" by (simp only: power_Suc mult.assoc)
      finally have bound: "(unat ?v + 1) * 64 ^ i \<le> 4294967296" using Suc.prems by linarith
      have ih: "CBS_get_utf8_loop i ?v r = (Some w, s') \<longleftrightarrow>
          (\<exists>ds. length ds = i \<and> list_all (\<lambda>d. d < 64) ds \<and> r = cont_bytes ds @ s' \<and> unat w = base64_value (unat ?v) ds)"
        by (rule Suc.IH [OF bound])
      have "(\<exists>ds. length ds = Suc i \<and> list_all (\<lambda>d. d < 64) ds \<and> s = cont_bytes ds @ s' \<and> unat w = base64_value (unat v) ds)
          \<longleftrightarrow> (\<exists>ds. length ds = i \<and> list_all (\<lambda>d. d < 64) ds \<and> r = cont_bytes ds @ s' \<and> unat w = base64_value (unat ?v) ds)"
        (is "?l \<longleftrightarrow> ?r")
      proof
        assume ?l
        then obtain e ds where o: "length ds = i" "e < 64" "list_all (\<lambda>d. d < 64) ds" "c = 0x80 + of_nat e"
          "r = cont_bytes ds @ s'" "unat w = base64_value (64 * unat v + e) ds"
          by (auto simp: length_Suc_conv Cons cont_bytes_def)
        have "unat c = 128 + e" unfolding o(4) by (rule cont_byte [OF o(2)])
        then have "64 * unat v + e = unat ?v" unfolding v by linarith
        with o show ?r by metis
      next
        assume ?r
        then obtain ds where "length ds = i" "list_all (\<lambda>d. d < 64) ds" "r = cont_bytes ds @ s'"
          "unat w = base64_value (unat ?v) ds" by blast
        then show ?l using d v Cons by (intro exI [of _ "?d # ds"]) (simp add: cont_bytes_def)
      qed
      then show ?thesis using True ih Cons by (simp add: utf8_loop_Cons)
    next
      case False
      have "s \<noteq> cont_bytes ds @ s'" if "length ds = Suc i" "list_all (\<lambda>d. d < 64) ds" for ds
      proof
        assume "s = cont_bytes ds @ s'"
        then have "c = 0x80 + of_nat (hd ds)" "hd ds < 64" using that Cons
          by (cases ds; simp add: cont_bytes_def)+
        then show False using False cont_byte [of "hd ds"] by simp
      qed
      then show ?thesis using False Cons by (auto simp: utf8_loop_Cons)
    qed
  qed
qed

section \<open>UTF-8\<close>

text \<open>The encodings of two, three and four bytes by their digits.\<close>

lemma base64_less: "x < n \<Longrightarrow> e < 64 \<Longrightarrow> 64 * x + e < 64 * n" for x :: nat
  by linarith

lemma base64_less_rev: "64 * x + e < 64 * n \<Longrightarrow> x < n" for x :: nat
  by linarith

lemma digits_div_mod:
  fixes a d :: nat assumes "d < 64"
  shows "(64 * a + d) div 64 = a" and "(64 * a + d) mod 64 = d"
  using assms by simp_all

lemma utf8_bytes_2:
  "d < 64 \<Longrightarrow> 0x80 \<le> 64 * a + d \<Longrightarrow> 64 * a + d < 0x800 \<Longrightarrow>
   utf8_bytes (64 * a + d) = (0xc0 + of_nat a) # cont_bytes [d]"
  by (simp add: utf8_bytes_def cont_bytes_def digits_div_mod not_less)

lemma utf8_bytes_3:
  "d < 64 \<Longrightarrow> e < 64 \<Longrightarrow> 0x800 \<le> 64 * (64 * a + d) + e \<Longrightarrow> 64 * (64 * a + d) + e < 0x10000 \<Longrightarrow>
   utf8_bytes (64 * (64 * a + d) + e) = (0xe0 + of_nat a) # cont_bytes [d, e]"
  unfolding utf8_bytes_def digits_div_mod cont_bytes_def by (simp add: not_less digits_div_mod)

lemma utf8_bytes_4:
  "d < 64 \<Longrightarrow> e < 64 \<Longrightarrow> f < 64 \<Longrightarrow> 0x10000 \<le> 64 * (64 * (64 * a + d) + e) + f \<Longrightarrow>
   utf8_bytes (64 * (64 * (64 * a + d) + e) + f) = (0xf0 + of_nat a) # cont_bytes [d, e, f]"
  unfolding utf8_bytes_def digits_div_mod cont_bytes_def by (simp add: not_less digits_div_mod)

lemma base64_value_bounds:
  "list_all (\<lambda>d. d < 64) ds \<Longrightarrow>
   a * 64 ^ length ds \<le> base64_value a ds \<and> base64_value a ds < (a + 1) * 64 ^ length ds"
proof (induction ds arbitrary: a)
  case (Cons d ds)
  let ?p = "64 ^ length ds :: nat"
  have ih: "(64 * a + d) * ?p \<le> base64_value (64 * a + d) ds" "base64_value (64 * a + d) ds < (64 * a + d + 1) * ?p"
    using Cons by auto
  have "a * 64 \<le> 64 * a + d" "64 * a + d + 1 \<le> (a + 1) * 64" using Cons.prems by simp_all
  then have "a * 64 * ?p \<le> (64 * a + d) * ?p" "(64 * a + d + 1) * ?p \<le> (a + 1) * 64 * ?p"
    by (blast intro: mult_le_mono1)+
  then show ?case using ih by (simp only: base64_value.simps list.size power_Suc mult.assoc add_Suc_right add_0_right) linarith
qed simp

text \<open>The multi-byte branches of the reader: the lead byte gives the first digit.\<close>

definition utf8_multi :: "byte \<Rightarrow> nat \<Rightarrow> uint32 \<Rightarrow> cbs \<Rightarrow> uint32 option \<times> cbs" where
  "utf8_multi v0 len lower s =
     (case CBS_get_utf8_loop len (ucast v0) s of
        (None, s) \<Rightarrow> (None, s)
      | (Some v, s) \<Rightarrow> if \<not> is_valid_code_point v \<or> v < lower then (None, s) else (Some v, s))"

lemma CBS_get_utf8_Cons:
  "CBS_get_utf8 (c # s) =
     (if unat c < 128 then (Some (ucast c), s)
      else if unat c < 192 then (None, s)
      else if unat c < 224 then utf8_multi (c AND BOTTOM_BITS 5) 1 0x80 s
      else if unat c < 240 then utf8_multi (c AND BOTTOM_BITS 4) 2 0x800 s
      else if unat c < 248 then utf8_multi (c AND BOTTOM_BITS 3) 3 0x10000 s
      else (None, s))"
proof -
  have "c \<le> 0x7f \<longleftrightarrow> unat c < 128" by (auto simp: word_le_nat_alt)
  then show ?thesis unfolding CBS_get_utf8_def byte_bits
    by (auto simp: utf8_multi_def CBS_get_u8_def cbs_get_def)
qed

lemma utf8_multi_iff:
  assumes "unat (v0 :: byte) < 32" "len \<le> 3"
  shows "utf8_multi v0 len lower s = (Some w, s') \<longleftrightarrow>
    (\<exists>ds. length ds = len \<and> list_all (\<lambda>d. d < 64) ds \<and> s = cont_bytes ds @ s' \<and>
       unat w = base64_value (unat v0) ds \<and> code_point (unat w) \<and> unat lower \<le> unat w)"
proof -
  have u: "unat (ucast v0 :: uint32) = unat v0" by (simp add: unat_ucast_up)
  have "(unat v0 + 1) * 64 ^ len \<le> 32 * 64 ^ 3"
    using assms by (intro mult_le_mono power_increasing) auto
  then have "(unat (ucast v0 :: uint32) + 1) * 64 ^ len \<le> 4294967296" unfolding u by simp
  note loop = utf8_loop_iff [OF this, of s]
  have "utf8_multi v0 len lower s = (Some w, s') \<longleftrightarrow>
    CBS_get_utf8_loop len (ucast v0) s = (Some w, s') \<and> is_valid_code_point w \<and> \<not> w < lower"
    by (auto simp: utf8_multi_def split: prod.splits option.splits)
  then show ?thesis unfolding loop u is_valid_code_point_iff by (auto simp: word_less_nat_alt not_less)
qed

lemma byte_split:
  assumes "q + a < 256"
  shows "unat (c :: byte) = q + a \<longleftrightarrow> c = of_nat q + of_nat a"
  using assms by (simp add: word_unat_eq_iff unat_word_ariths mod_simps unat_of_nat)

text \<open>One lead byte \<open>q + a\<close> with \<open>a\<close> below \<open>2 ^ k\<close>.\<close>

lemma utf8_class_iff:
  assumes "q mod 2 ^ k = 0" "k \<le> 5" "unat c = q + a" "a < 2 ^ k" "len \<le> 3"
  shows "utf8_multi (c AND BOTTOM_BITS k) len lower s = (Some w, s') \<longleftrightarrow>
    (\<exists>ds. length ds = len \<and> list_all (\<lambda>d. d < 64) ds \<and> s = cont_bytes ds @ s' \<and>
       unat w = base64_value a ds \<and> code_point (unat w) \<and> unat lower \<le> unat w)"
proof -
  have "(q + a) mod 2 ^ k = (q mod 2 ^ k + a) mod 2 ^ k" by (simp add: mod_simps)
  then have u: "unat (c AND BOTTOM_BITS k) = a"
    unfolding unat_and_BOTTOM_BITS assms(3) using assms(1,4) by simp
  have "(2::nat) ^ k \<le> 2 ^ 5" using assms(2) by (intro power_increasing) auto
  then show ?thesis using utf8_multi_iff [of "c AND BOTTOM_BITS k" len lower s w s'] assms(4,5) u by simp
qed

lemma length_eq_2: "length xs = 2 \<longleftrightarrow> (\<exists>a b. xs = [a, b])"
  by (auto simp: numeral_2_eq_2 length_Suc_conv)

lemma length_eq_3: "length xs = 3 \<longleftrightarrow> (\<exists>a b c. xs = [a, b, c])"
  by (auto simp: numeral_3_eq_3 length_Suc_conv)

lemma utf8_put_get:
  assumes "CBS_get_utf8 s = (Some w, s')"
  shows "code_point (unat w) \<and> s = utf8_bytes (unat w) @ s'"
proof -
  obtain c r where s: "s = c # r" using assms by (cases s) (auto simp: CBS_get_utf8_def CBS_get_u8_def cbs_get_def)
  consider (ascii) "unat c < 128" | (two) a where "unat c = 192 + a" "a < 32" | (three) a where "unat c = 224 + a" "a < 16"
    | (four) a where "unat c = 240 + a" "a < 8"
  proof -
    have "unat c < 128 \<or> 192 \<le> unat c \<and> unat c < 224 \<or> 224 \<le> unat c \<and> unat c < 240 \<or> 240 \<le> unat c \<and> unat c < 248"
      using assms unfolding s CBS_get_utf8_Cons by (auto split: if_splits)
    then show ?thesis using that(1) that(2) [of "unat c - 192"] that(3) [of "unat c - 224"] that(4) [of "unat c - 240"]
      by (elim disjE conjE) simp_all
  qed
  then show ?thesis
  proof cases
    case ascii
    then have w: "w = ucast c" "s' = r" using assms unfolding s CBS_get_utf8_Cons by simp_all
    then have "unat w = unat c" by (simp add: unat_ucast_up)
    then show ?thesis using ascii w(2) by (simp add: s utf8_bytes_def code_point_def)
  next
    case (two a)
    then have "utf8_multi (c AND BOTTOM_BITS 5) 1 0x80 r = (Some w, s')" using assms unfolding s CBS_get_utf8_Cons by simp
    with two obtain d where d: "d < 64" "r = cont_bytes [d] @ s'" "unat w = 64 * a + d" "code_point (unat w)" "0x80 \<le> unat w"
      by (subst (asm) utf8_class_iff [of 192 5]) (auto simp: length_Suc_conv)
    have "64 * a + d < 0x800" using two(2) d(1) by linarith
    then have "utf8_bytes (unat w) = (0xc0 + of_nat a) # cont_bytes [d]" using d by (simp only: utf8_bytes_2)
    moreover have "c = 0xc0 + of_nat a" using byte_split [of 192 a c] two by simp
    ultimately show ?thesis using d s by simp
  next
    case (three a)
    then have "utf8_multi (c AND BOTTOM_BITS 4) 2 0x800 r = (Some w, s')" using assms unfolding s CBS_get_utf8_Cons by simp
    with three obtain d e where d: "d < 64" "e < 64" "r = cont_bytes [d, e] @ s'" "unat w = 64 * (64 * a + d) + e"
      "code_point (unat w)" "0x800 \<le> unat w"
      by (subst (asm) utf8_class_iff [of 224 4]) (auto simp: length_eq_2)
    have "64 * (64 * a + d) + e < 64 * (64 * 16)" using three(2) d(1,2) by (intro base64_less)
    then have "64 * (64 * a + d) + e < 0x10000" by simp
    then have "utf8_bytes (unat w) = (0xe0 + of_nat a) # cont_bytes [d, e]" using d by (simp only: utf8_bytes_3)
    moreover have "c = 0xe0 + of_nat a" using byte_split [of 224 a c] three by simp
    ultimately show ?thesis using d s by simp
  next
    case (four a)
    then have "utf8_multi (c AND BOTTOM_BITS 3) 3 0x10000 r = (Some w, s')" using assms unfolding s CBS_get_utf8_Cons by simp
    with four obtain d e f where d: "d < 64" "e < 64" "f < 64" "r = cont_bytes [d, e, f] @ s'"
      "unat w = 64 * (64 * (64 * a + d) + e) + f" "code_point (unat w)" "0x10000 \<le> unat w"
      by (subst (asm) utf8_class_iff [of 240 3]) (auto simp: length_eq_3)
    then have "utf8_bytes (unat w) = (0xf0 + of_nat a) # cont_bytes [d, e, f]" by (simp only: utf8_bytes_4)
    moreover have "c = 0xf0 + of_nat a" using byte_split [of 240 a c] four by simp
    ultimately show ?thesis using d s by simp
  qed
qed

lemma utf8_get_put:
  assumes cp: "code_point (unat w)"
  shows "CBS_get_utf8 (utf8_bytes (unat w) @ s) = (Some w, s)"
proof -
  let ?n = "unat w"
  define d e f where "d = ?n mod 64" and "e = ?n div 64 mod 64" and "f = ?n div 64 div 64 mod 64"
  have le: "?n \<le> 0x10ffff" using cp by (simp add: code_point_def)
  have small: "d < 64" "e < 64" "f < 64" by (simp_all add: d_def e_def f_def)
  consider "?n < 0x80" | "0x80 \<le> ?n" "?n < 0x800" | "0x800 \<le> ?n" "?n < 0x10000" | "0x10000 \<le> ?n" by linarith
  then show ?thesis
  proof cases
    case 1
    then have "ucast (of_nat ?n :: byte) = w" by (intro byte_eqI) (simp add: unat_ucast_up unat_ucast_down)
    with 1 show ?thesis by (simp add: utf8_bytes_def CBS_get_utf8_Cons unat_ucast_down)
  next
    case 2
    define a where "a = ?n div 64"
    have n: "?n = 64 * a + d" by (simp add: a_def d_def)
    have a: "a < 32" using 2 n by linarith
    have b: "utf8_bytes ?n = (0xc0 + of_nat a) # cont_bytes [d]" using 2 small unfolding n by (intro utf8_bytes_2)
    have c: "unat (0xc0 + of_nat a :: byte) = 192 + a" using a byte_split [of 192 a "0xc0 + of_nat a"] by simp
    have "utf8_multi ((0xc0 + of_nat a) AND BOTTOM_BITS 5) 1 0x80 (cont_bytes [d] @ s) = (Some w, s)"
      using 2 small n cp by (subst utf8_class_iff [OF _ _ c]) (auto intro!: exI [of _ "[d]"] simp: a)
    then show ?thesis using a unfolding b by (simp add: CBS_get_utf8_Cons c)
  next
    case 3
    define a where "a = ?n div 64 div 64"
    have n: "?n = 64 * (64 * a + e) + d" by (simp add: a_def d_def e_def)
    have "64 * (64 * a + e) + d < 64 * (64 * 16)" using 3 n by simp
    then have a: "a < 16" by (blast dest: base64_less_rev)
    have b: "utf8_bytes ?n = (0xe0 + of_nat a) # cont_bytes [e, d]" using 3 small unfolding n by (intro utf8_bytes_3)
    have c: "unat (0xe0 + of_nat a :: byte) = 224 + a" using a byte_split [of 224 a "0xe0 + of_nat a"] by simp
    have "utf8_multi ((0xe0 + of_nat a) AND BOTTOM_BITS 4) 2 0x800 (cont_bytes [e, d] @ s) = (Some w, s)"
      using 3 small n cp by (subst utf8_class_iff [OF _ _ c]) (auto intro!: exI [of _ "[e, d]"] simp: a)
    then show ?thesis using a unfolding b by (simp add: CBS_get_utf8_Cons c)
  next
    case 4
    define a where "a = ?n div 64 div 64 div 64"
    have n: "?n = 64 * (64 * (64 * a + f) + e) + d" by (simp add: a_def d_def e_def f_def)
    have "64 * (64 * (64 * a + f) + e) + d < 64 * (64 * (64 * 8))" using le n by simp
    then have a: "a < 8" by (blast dest: base64_less_rev)
    have b: "utf8_bytes ?n = (0xf0 + of_nat a) # cont_bytes [f, e, d]" using 4 small unfolding n by (intro utf8_bytes_4)
    have c: "unat (0xf0 + of_nat a :: byte) = 240 + a" using a byte_split [of 240 a "0xf0 + of_nat a"] by simp
    have "utf8_multi ((0xf0 + of_nat a) AND BOTTOM_BITS 3) 3 0x10000 (cont_bytes [f, e, d] @ s) = (Some w, s)"
      using 4 small n cp by (subst utf8_class_iff [OF _ _ c]) (auto intro!: exI [of _ "[f, e, d]"] simp: a)
    then show ?thesis using a unfolding b by (simp add: CBS_get_utf8_Cons c)
  qed
qed

lemma utf8_loop_suffix: "CBS_get_utf8_loop i v s = (r, s') \<Longrightarrow> \<exists>p. s = p @ s'"
proof (induction i arbitrary: v s)
  case (Suc i)
  then show ?case
  proof (cases s)
    case (Cons c t)
    then show ?thesis using Suc by (fastforce simp: utf8_loop_Cons split: if_splits)
  qed (simp add: utf8_loop_Nil)
qed simp

lemma utf8_suffix: "CBS_get_utf8 s = (r, s') \<Longrightarrow> \<exists>p. s = p @ s'"
proof (cases s)
  case Nil
  moreover assume "CBS_get_utf8 s = (r, s')"
  ultimately show ?thesis by (simp add: CBS_get_utf8_def CBS_get_u8_def cbs_get_def)
next
  case (Cons c t)
  have "\<exists>p. t = p @ s'" if "utf8_multi v0 len lower t = (r, s')" for v0 len lower
    using that utf8_loop_suffix by (fastforce simp: utf8_multi_def split: prod.splits option.splits if_splits)
  moreover assume "CBS_get_utf8 s = (r, s')"
  ultimately have "\<exists>p. t = p @ s'" unfolding Cons CBS_get_utf8_Cons by (auto split: if_splits)
  then show ?thesis by (auto simp: Cons)
qed

section \<open>The writers\<close>

lemma TOP_BITS_wide:
  "(ucast (TOP_BITS 1) :: uint32) = push_bit 7 1" "(ucast (TOP_BITS 2) :: uint32) = push_bit 6 3"
  "(ucast (TOP_BITS 3) :: uint32) = push_bit 5 7" "(ucast (TOP_BITS 4) :: uint32) = push_bit 4 15"
  by code_simp+

lemma or_byte:
  fixes x :: uint32
  assumes "unat x < 2 ^ n" "unat q * 2 ^ n + unat x < 256"
  shows "(ucast (push_bit n q OR x) :: byte) = of_nat (unat q * 2 ^ n) + of_nat (unat x)"
proof -
  have "unat (push_bit n q OR x) = unat q * 2 ^ n + unat x" using assms by (intro unat_shift_or) auto
  then show ?thesis by (metis of_nat_add of_nat_unat)
qed

lemma mid_byte:
  "(ucast (ucast (TOP_BITS 1) OR (drop_bit s u AND ucast (BOTTOM_BITS 6))) :: byte) =
     0x80 + of_nat (unat u div 2 ^ s mod 64)" for u :: uint32
proof -
  have b: "(ucast (BOTTOM_BITS 6) :: uint32) = mask 6" by code_simp
  have "unat (drop_bit s u AND mask 6) = unat u div 2 ^ s mod 64"
    by (simp add: unat_and_mask unat_drop_bit)
  moreover have "unat u div 2 ^ s mod 64 < 64" by simp
  ultimately show ?thesis
    unfolding TOP_BITS_wide b by (subst or_byte) (auto intro: less_trans)
qed

lemma mid_bytes:
  fixes u :: uint32
  shows "(ucast (ucast (TOP_BITS 1) OR (drop_bit 0 u AND ucast (BOTTOM_BITS 6))) :: byte) = 0x80 + of_nat (unat u mod 64)"
    and "(ucast (ucast (TOP_BITS 1) OR (drop_bit 6 u AND ucast (BOTTOM_BITS 6))) :: byte) = 0x80 + of_nat (unat u div 64 mod 64)"
    and "(ucast (ucast (TOP_BITS 1) OR (drop_bit 12 u AND ucast (BOTTOM_BITS 6))) :: byte) =
      0x80 + of_nat (unat u div 64 div 64 mod 64)"
  unfolding mid_byte by (simp_all add: div_mult2_eq [of _ 64 64, simplified])

lemma div_4096: "n div 4096 = n div 64 div 64" for n :: nat
  using div_mult2_eq [of n 64 64] by simp

lemmas mid_simps = mid_bytes(1) [unfolded One_nat_def, simplified] unat_drop_bit div_4096

lemma top_byte:
  fixes u :: uint32
  shows "unat u div 2 ^ s < 32 \<Longrightarrow> (ucast (ucast (TOP_BITS 2) OR drop_bit s u) :: byte) = 0xc0 + of_nat (unat u div 2 ^ s)"
    and "unat u div 2 ^ s < 16 \<Longrightarrow> (ucast (ucast (TOP_BITS 3) OR drop_bit s u) :: byte) = 0xe0 + of_nat (unat u div 2 ^ s)"
    and "unat u div 2 ^ s < 8 \<Longrightarrow> (ucast (ucast (TOP_BITS 4) OR drop_bit s u) :: byte) = 0xf0 + of_nat (unat u div 2 ^ s)"
  unfolding TOP_BITS_wide by (subst or_byte; simp add: unat_drop_bit)+

lemma u8_yields:
  "repr b fs \<Longrightarrow> malloc_ok m \<Longrightarrow> k < length fs \<Longrightarrow> yields m b (CBB_add_u8 m k v b) (abs_append k [v] fs)"
  by (intro implements_yields CBB_add_u8_implements)

lemma CBB_add_utf8_yields:
  assumes r: "repr b fs" and m: "malloc_ok m" and k: "k < length fs"
  shows "yields m b (CBB_add_utf8 m k u b)
    (if code_point (unat u) then abs_append k (utf8_bytes (unat u)) fs else None)"
proof (cases "code_point (unat u)")
  case False
  then show ?thesis by (simp add: CBB_add_utf8_def is_valid_code_point_iff yields_None)
next
  case True
  then have le: "unat u \<le> 0x10ffff" by (simp add: code_point_def)
  have cmp: "u \<le> 0x7f \<longleftrightarrow> unat u < 0x80" "u \<le> 0x7ff \<longleftrightarrow> unat u < 0x800" "u \<le> 0xffff \<longleftrightarrow> unat u < 0x10000" "u \<le> 0x10ffff"
    using le by (auto simp: word_le_nat_alt)
  let ?w = "\<lambda>x f. cbb_and (CBB_add_u8 m k x b) f"
  consider "unat u < 0x80" | "\<not> unat u < 0x80" "unat u < 0x800" | "\<not> unat u < 0x800" "unat u < 0x10000" | "\<not> unat u < 0x10000" by linarith
  then show ?thesis
  proof cases
    case 1
    then have "ucast u = (of_nat (unat u) :: byte)" by simp
    then show ?thesis using 1 True u8_yields [OF r m k, of "ucast u"]
      by (simp add: CBB_add_utf8_def is_valid_code_point_iff cmp utf8_bytes_def)
  next
    case 2
    then have t: "(ucast (ucast (TOP_BITS 2) OR drop_bit 6 u) :: byte) = 0xc0 + of_nat (unat u div 64)"
      using top_byte(1) [of u 6] by simp
    have "yields m b (cbb_and (CBB_add_u8 m k (0xc0 + of_nat (unat u div 64)) b)
        (\<lambda>b. CBB_add_u8 m k (0x80 + of_nat (unat u mod 64)) b))
        (abs_append k ([0xc0 + of_nat (unat u div 64)] @ [0x80 + of_nat (unat u mod 64)]) fs)"
      using r m k by (intro yields_append1 u8_yields) simp_all
    then show ?thesis using 2 True
      by (simp add: CBB_add_utf8_def is_valid_code_point_iff cmp utf8_bytes_def t mid_simps)
  next
    case 3
    then have t: "(ucast (ucast (TOP_BITS 3) OR drop_bit 12 u) :: byte) = 0xe0 + of_nat (unat u div 64 div 64)"
      using top_byte(2) [of u 12] by (simp add: div_mult2_eq [of _ 64 64, simplified])
    have "yields m b (cbb_and (CBB_add_u8 m k (0xe0 + of_nat (unat u div 64 div 64)) b)
        (\<lambda>b. cbb_and (CBB_add_u8 m k (0x80 + of_nat (unat u div 64 mod 64)) b)
          (\<lambda>b. CBB_add_u8 m k (0x80 + of_nat (unat u mod 64)) b)))
        (abs_append k ([0xe0 + of_nat (unat u div 64 div 64)] @ [0x80 + of_nat (unat u div 64 mod 64)] @
          [0x80 + of_nat (unat u mod 64)]) fs)"
      using r m k by (intro yields_append1 u8_yields) simp_all
    then show ?thesis using 3 True
      by (simp add: CBB_add_utf8_def is_valid_code_point_iff cmp utf8_bytes_def t mid_simps)
  next
    case 4
    then have t: "(ucast (ucast (TOP_BITS 4) OR drop_bit 18 u) :: byte) = 0xf0 + of_nat (unat u div 64 div 64 div 64)"
      using top_byte(3) [of u 18] le by (simp add: div_mult2_eq [of _ 64 64, simplified] div_mult2_eq [of _ 4096 64, simplified])
    have "yields m b (cbb_and (CBB_add_u8 m k (0xf0 + of_nat (unat u div 64 div 64 div 64)) b)
        (\<lambda>b. cbb_and (CBB_add_u8 m k (0x80 + of_nat (unat u div 64 div 64 mod 64)) b)
          (\<lambda>b. cbb_and (CBB_add_u8 m k (0x80 + of_nat (unat u div 64 mod 64)) b)
            (\<lambda>b. CBB_add_u8 m k (0x80 + of_nat (unat u mod 64)) b))))
        (abs_append k ([0xf0 + of_nat (unat u div 64 div 64 div 64)] @ [0x80 + of_nat (unat u div 64 div 64 mod 64)] @
          [0x80 + of_nat (unat u div 64 mod 64)] @ [0x80 + of_nat (unat u mod 64)]) fs)"
      using r m k by (intro yields_append1 u8_yields) simp_all
    then show ?thesis using 4 True
      by (simp add: CBB_add_utf8_def is_valid_code_point_iff cmp utf8_bytes_def t mid_simps)
  qed
qed

interpretation utf8: writer CBS_get_utf8 "\<lambda>w. utf8_bytes (unat w)" "\<lambda>w. code_point (unat w)"
    CBB_add_utf8 "\<lambda>_. True" "\<lambda>w. code_point (unat w)"
proof
  show "utf8_bytes (unat v) \<noteq> []" for v :: uint32 by (simp add: utf8_bytes_def)
qed (auto simp: utf8_get_put CBB_add_utf8_yields dest: utf8_put_get utf8_suffix)

lemma latin1_get: "CBS_get_latin1 s = (case s of [] \<Rightarrow> (None, []) | c # s \<Rightarrow> (Some (ucast c), s))"
  by (simp add: CBS_get_latin1_def CBS_get_u8_def cbs_get_def split: list.split)

interpretation latin1: writer CBS_get_latin1 "\<lambda>w. [ucast w]" "\<lambda>w. unat w \<le> 0xff"
    CBB_add_latin1 "\<lambda>_. True" "\<lambda>w. unat w \<le> 0xff"
proof
  fix v :: uint32 and t assume "unat v \<le> 0xff"
  then have "ucast (ucast v :: byte) = v" by (intro byte_eqI) (simp add: unat_ucast_up unat_ucast_down)
  then show "CBS_get_latin1 ([ucast v] @ t) = (Some v, t)" by (simp add: latin1_get)
next
  fix s v s' assume "CBS_get_latin1 s = (Some v, s')"
  then obtain c where c: "s = c # s'" "v = ucast c" by (auto simp: latin1_get split: list.splits)
  have "unat c < 4294967296" using unat_byte_less [of c] by linarith
  then have "(ucast (ucast c :: uint32) :: byte) = c" by (intro byte_eqI) (simp add: unat_ucast_down)
  then show "unat v \<le> 0xff \<and> s = [ucast v] @ s'" using c by (simp add: unat_ucast_up)
next
  fix v b fs m k
  assume "repr b fs" "malloc_ok m" "k < length fs"
  then show "yields m b (CBB_add_latin1 m k v b) (if unat v \<le> 0xff then abs_append k [ucast v] fs else None)"
    using u8_yields [of b fs m k "ucast v"] by (simp add: CBB_add_latin1_def word_le_nat_alt yields_None)
qed (auto simp: latin1_get split: list.splits)

text \<open>The fixed-width encodings filter the integers.\<close>

interpretation utf32: writer CBS_get_utf32_be "\<lambda>w. nat_be 4 (unat w)" "\<lambda>w. code_point (unat w)"
    CBB_add_utf32_be "\<lambda>_. True" "\<lambda>w. code_point (unat w)"
proof
  have get: "CBS_get_utf32_be s = (Some v, s') \<longleftrightarrow> CBS_get_u32 s = (Some v, s') \<and> code_point (unat v)" for s v s'
    by (auto simp: CBS_get_utf32_be_def is_valid_code_point_iff split: prod.splits option.splits)
  show "CBS_get_utf32_be (nat_be 4 (unat v) @ t) = (Some v, t)" if "code_point (unat v)" for v t
    using that unsigned_less [of v, where 'a = nat] unfolding get by (simp add: u32.get_iff)
  show "code_point (unat v) \<and> s = nat_be 4 (unat v) @ s'" if "CBS_get_utf32_be s = (Some v, s')" for s v s'
    using that unfolding get by (simp add: u32.get_iff)
  show "\<exists>p. s = p @ s'" if "CBS_get_utf32_be s = (None, s')" for s s'
    using that u32.get_suffix by (auto simp: CBS_get_utf32_be_def split: prod.splits option.splits if_splits)
  show "nat_be 4 (unat v) \<noteq> []" for v :: uint32 using length_nat_be [of 4 "unat v"] by (metis list.size(3) zero_neq_numeral)
  show "yields m b (CBB_add_utf32_be m k v b) (if code_point (unat v) then abs_append k (nat_be 4 (unat v)) fs else None)"
    if "repr b fs" "malloc_ok m" "k < length fs" for v b fs m k
    using that by (simp add: CBB_add_utf32_be_def is_valid_code_point_iff yields_None implements_yields CBB_add_u32_implements)
qed

interpretation ucs2: writer CBS_get_ucs2_be "\<lambda>w. nat_be 2 (unat w)" "\<lambda>w. code_point (unat w) \<and> unat w \<le> 0xffff"
    CBB_add_ucs2_be "\<lambda>_. True" "\<lambda>w. code_point (unat w) \<and> unat w \<le> 0xffff"
proof
  have get: "CBS_get_ucs2_be s = (Some v, s') \<longleftrightarrow>
      (\<exists>c. CBS_get_u16 s = (Some c, s') \<and> v = ucast c \<and> code_point (unat c))" for s v s'
    by (auto simp: CBS_get_ucs2_be_def is_valid_code_point_iff unat_ucast_up split: prod.splits option.splits)
  have small: "unat c < 65536" for c :: uint16 using unsigned_less [of c, where 'a = nat] by simp
  then have small_le: "unat c \<le> 65535" for c :: uint16 by (simp add: less_Suc_eq_le [symmetric])
  have wide: "ucast (ucast v :: uint16) = v" "unat (ucast v :: uint16) = unat v" if "unat v \<le> 0xffff" for v :: uint32
    using that by (auto intro!: byte_eqI simp: unat_ucast_up unat_ucast_down)
  show "CBS_get_ucs2_be (nat_be 2 (unat v) @ t) = (Some v, t)" if "code_point (unat v) \<and> unat v \<le> 0xffff" for v t
    using that wide [of v] small [of "ucast v"] unfolding get
    by (intro exI [of _ "ucast v"]) (simp add: u16.get_iff)
  show "(code_point (unat v) \<and> unat v \<le> 0xffff) \<and> s = nat_be 2 (unat v) @ s'" if "CBS_get_ucs2_be s = (Some v, s')" for s v s'
    using that small_le unfolding get by (auto simp: u16.get_iff unat_ucast_up)
  show "\<exists>p. s = p @ s'" if "CBS_get_ucs2_be s = (None, s')" for s s'
    using that u16.get_suffix by (auto simp: CBS_get_ucs2_be_def split: prod.splits option.splits if_splits)
  show "nat_be 2 (unat v) \<noteq> []" for v :: uint32 using length_nat_be [of 2 "unat v"] by (metis list.size(3) zero_neq_numeral)
  show "yields m b (CBB_add_ucs2_be m k v b)
      (if code_point (unat v) \<and> unat v \<le> 0xffff then abs_append k (nat_be 2 (unat v)) fs else None)"
    if "repr b fs" "malloc_ok m" "k < length fs" for v b fs m k
    using implements_yields [OF CBB_add_u16_implements [OF that, of "ucast v"]] wide(2) [of v]
    by (auto simp: CBB_add_ucs2_be_def is_valid_code_point_iff word_le_nat_alt yields_None)
qed

section \<open>The properties\<close>

text \<open>C30. UTF-8 is read exactly: \<open>CBS_get_utf8\<close> returns \<open>w\<close> precisely when the input starts with the
  shortest encoding of the valid code point \<open>w\<close>; overlong forms, surrogates, noncharacters and
  values above 0x10ffff are all refused.\<close>

theorem CBS_get_utf8_exact:
  "CBS_get_utf8 s = (Some w, s') \<longleftrightarrow> code_point (unat w) \<and> s = utf8_bytes (unat w) @ s'"
  by (rule utf8.get_iff)

text \<open>C14. A text written character by character in UTF-8 parses back as the same characters, and the
  length \<open>CBB_get_utf8_len\<close> predicts for each of them adds up to the size of the result.\<close>

theorem utf8_text_roundtrip:
  assumes "malloc_ok m" and "cap \<le> SIZE_MAX" and "CBB_init m cap = Some b"
    and "emit_all CBB_add_utf8 m 0 us b = (True, b')"
    and "CBB_finish m 0 True b' = (Some (buf, n), b'')"
  shows "reads CBS_get_utf8 (take n buf) us \<and> length (take n buf) = sum_list (map CBB_get_utf8_len us)"
proof -
  have len: "length (utf8_bytes (unat u)) = CBB_get_utf8_len u" for u
    by (auto simp: utf8_bytes_def CBB_get_utf8_len_def word_le_nat_alt)
  have r: "reads CBS_get_utf8 (take n buf) us \<and> take n buf = concat (map (\<lambda>w. utf8_bytes (unat w)) us)"
    by (rule utf8.build_then_read [OF _ assms(1) CBB_init_repr [OF assms(1-3)] assms(4,5)]) (simp add: list_all_iff)
  then have "length (take n buf) = length (concat (map (\<lambda>w. utf8_bytes (unat w)) us))" by simp
  also have "\<dots> = sum_list (map CBB_get_utf8_len us)" by (simp add: length_concat len comp_def)
  finally show ?thesis using r by blast
qed

theorem utf8_text_roundtrip_witness:
  "reads CBS_get_utf8 [0x41, 0xe2, 0x82, 0xac] [0x41, 0x20ac] \<and>
   length [0x41, 0xe2, 0x82, 0xac :: byte] = sum_list (map CBB_get_utf8_len [0x41, 0x20ac])"
proof -
  let ?e = "emit_all CBB_add_utf8 zero_malloc 0 [0x41, 0x20ac] small_builder"
  have "fst ?e = True" by code_simp
  moreover have "fst (CBB_finish zero_malloc 0 True (snd ?e)) = Some ([0x41, 0xe2, 0x82, 0xac], 4)" by code_simp
  ultimately have "reads CBS_get_utf8 (take 4 [0x41, 0xe2, 0x82, 0xac]) [0x41, 0x20ac] \<and>
      length (take 4 [0x41, 0xe2, 0x82, 0xac :: byte]) = sum_list (map CBB_get_utf8_len [0x41, 0x20ac])"
    by (intro utf8_text_roundtrip [OF zero_malloc_ok _ small_builder pair_eqs pair_eqs]) simp_all
  then show ?thesis by simp
qed

end
