(* ===== verification/Ber.thy ===== *)
theory Ber
  imports Cbb_Writers
begin

text \<open>
  The conversion from BER to DER, \<open>crypto/bytestring/ber.c\<close>.  \<open>cbs_find_ber\<close> looks for
  the constructs that need a conversion, \<open>cbs_convert_ber\<close> rewrites them with the builder,
  and \<open>CBS_asn1_ber_to_der\<close> only converts when something was found.  The loops of the first
  two are their own tail calls; the test of the recursion depth is repeated there and has
  no effect, because it does not change within a loop.
\<close>

section \<open>The code\<close>

abbreviation (input) kMaxDepth :: nat where "kMaxDepth \<equiv> 128"

definition is_string_type :: "uint32 \<Rightarrow> bool" where
  "is_string_type tag \<longleftrightarrow>
     tag AND NOT CBS_ASN1_CONSTRUCTED \<in>
       set [CBS_ASN1_OCTETSTRING, 0xc, 0x12, 0x13, 0x14, 0x15, 0x16, 0x19, 0x1a, 0x1b, 0x1c, 0x1e]"

lemma ber_element_shrinks:
  assumes "CBS_get_any_ber_asn1_element c = (Some e, c')"
  shows "length c' < length c" and "CBS_skip (el_out e) (el_header_len e) = (True, d) \<Longrightarrow> length d < length c"
proof -
  have g: "cbs_get_any_asn1_element True c = (Some e, c')"
    using assms by (simp add: CBS_get_any_ber_asn1_element_def)
  note s = element_split(1-3) [OF g]
  show "length c' < length c" using s(2,3) by (subst s(1)) auto
  assume "CBS_skip (el_out e) (el_header_len e) = (True, d)"
  then have "d = drop (el_header_len e) (el_out e)"
    by (auto simp: CBS_skip_def cbs_get_def split: if_splits)
  then show "length d < length c" using s by simp
qed

function cbs_find_ber :: "cbs \<Rightarrow> nat \<Rightarrow> bool option" where
  "cbs_find_ber inp depth =
     (if depth > kMaxDepth then None
      else if length inp > 0 then
        (case CBS_get_any_ber_asn1_element inp of
           (None, _) \<Rightarrow> None
         | (Some e, inp) \<Rightarrow>
             if el_ber_found e then Some True
             else if el_tag e AND CBS_ASN1_CONSTRUCTED \<noteq> 0 then
               if is_string_type (el_tag e) then Some True
               else
                 (case CBS_skip (el_out e) (el_header_len e) of
                    (False, _) \<Rightarrow> None
                  | (True, contents) \<Rightarrow>
                      (case cbs_find_ber contents (depth + 1) of
                         None \<Rightarrow> None
                       | Some True \<Rightarrow> Some True
                       | Some False \<Rightarrow> cbs_find_ber inp depth))
             else cbs_find_ber inp depth)
      else Some False)"
  by pat_completeness auto
termination
  by (relation "measure (\<lambda>(inp, _). length inp)") (auto dest: ber_element_shrinks sym)

declare cbs_find_ber.simps [simp del]

definition cbs_get_eoc :: "cbs \<Rightarrow> bool \<times> cbs" where
  "cbs_get_eoc c = (if length c \<ge> 2 \<and> c ! 0 = 0 \<and> c ! 1 = 0 then CBS_skip c 2 else (False, c))"

text \<open>Where the contents of an element go: the depth of the node, and the tag its fragments
  must have when it is a constructed string.\<close>

definition ber_open :: "malloc \<Rightarrow> nat \<Rightarrow> uint32 \<Rightarrow> uint32 \<Rightarrow> cbb \<Rightarrow> (nat \<times> uint32) option \<times> cbb" where
  "ber_open m k string_tag tag b =
     (if string_tag \<noteq> 0 then
        if tag AND NOT CBS_ASN1_CONSTRUCTED \<noteq> string_tag then (None, b) else (Some (k, string_tag), b)
      else
        let fragments = (tag AND CBS_ASN1_CONSTRUCTED \<noteq> 0 \<and> is_string_type tag);
            out_tag = (if fragments then tag AND NOT CBS_ASN1_CONSTRUCTED else tag);
            child_string_tag = (if fragments then out_tag else string_tag)
        in case CBB_add_asn1 m k out_tag b of
             (False, b) \<Rightarrow> (None, b)
           | (True, b) \<Rightarrow> (Some (Suc k, child_string_tag), b))"

function cbs_convert_ber ::
  "malloc \<Rightarrow> cbs \<Rightarrow> nat \<Rightarrow> uint32 \<Rightarrow> bool \<Rightarrow> nat \<Rightarrow> cbb \<Rightarrow> bool \<times> cbs \<times> cbb" where
  "cbs_convert_ber m inp out string_tag looking_for_eoc depth b =
     (if depth > kMaxDepth then (False, inp, b)
      else if length inp > 0 then
        (case (if looking_for_eoc then cbs_get_eoc inp else (False, inp)) of
           (True, inp) \<Rightarrow> (True, inp, b)
         | (False, _) \<Rightarrow>
           (case CBS_get_any_ber_asn1_element inp of
              (None, inp) \<Rightarrow> (False, inp, b)
            | (Some e, inp) \<Rightarrow>
              (case ber_open m out string_tag (el_tag e) b of
                 (None, b) \<Rightarrow> (False, inp, b)
               | (Some (out_contents, child_string_tag), b) \<Rightarrow>
                 if el_indefinite e then
                   (case cbs_convert_ber m inp out_contents child_string_tag True (depth + 1) b of
                      (False, inp, b) \<Rightarrow> (False, inp, b)
                    | (True, inp, b) \<Rightarrow>
                      (case CBB_flush m out b of
                         (False, b) \<Rightarrow> (False, inp, b)
                       | (True, b) \<Rightarrow> cbs_convert_ber m inp out string_tag looking_for_eoc depth b))
                 else
                   (case CBS_skip (el_out e) (el_header_len e) of
                      (False, _) \<Rightarrow> (False, inp, b)
                    | (True, contents) \<Rightarrow>
                      (case (if el_tag e AND CBS_ASN1_CONSTRUCTED \<noteq> 0 then
                               (case cbs_convert_ber m contents out_contents child_string_tag False (depth + 1) b of
                                  (r, _, b) \<Rightarrow> (r, b))
                             else CBB_add_bytes m out_contents contents b) of
                         (False, b) \<Rightarrow> (False, inp, b)
                       | (True, b) \<Rightarrow>
                         (case CBB_flush m out b of
                            (False, b) \<Rightarrow> (False, inp, b)
                          | (True, b) \<Rightarrow> cbs_convert_ber m inp out string_tag looking_for_eoc depth b))))))
      else (\<not> looking_for_eoc, inp, b))"
  by pat_completeness auto

text \<open>The input never grows, which makes the nested call of an indefinite-length element
  smaller.\<close>

lemma cbs_convert_ber_rest:
  "cbs_convert_ber_dom (m, inp, out, string_tag, eoc, depth, b) \<Longrightarrow>
   cbs_convert_ber m inp out string_tag eoc depth b = (r, inp', b') \<Longrightarrow> length inp' \<le> length inp"
proof (induction arbitrary: r inp' b' rule: cbs_convert_ber.pinduct)
  case (1 m inp out string_tag eoc depth b)
  note res = "1.prems" [unfolded cbs_convert_ber.psimps [OF "1.hyps"]]
  show ?case
  proof (cases "depth > kMaxDepth \<or> inp = []")
    case True
    then show ?thesis using res by (auto split: if_splits)
  next
    case False
    obtain stop inp0 where eoc: "(if eoc then cbs_get_eoc inp else (False, inp)) = (stop, inp0)" by fastforce
    show ?thesis
    proof (cases stop)
      case True
      then have "inp0 = drop 2 inp" using eoc by (auto simp: cbs_get_eoc_def CBS_skip_def cbs_get_def split: if_splits)
      then show ?thesis using res False eoc True by auto
    next
      case st: False
      obtain r1 inp1 where g: "CBS_get_any_ber_asn1_element inp = (r1, inp1)" by fastforce
      show ?thesis
      proof (cases r1)
        case None
        then have "inp1 = inp" using g element_None by (simp add: CBS_get_any_ber_asn1_element_def)
        then show ?thesis using res False eoc st g None by auto
      next
        case (Some e)
        then have sh: "length inp1 < length inp" using g ber_element_shrinks(1) by blast
        obtain o1 b1 where op: "ber_open m out string_tag (el_tag e) b = (o1, b1)" by fastforce
        show ?thesis
        proof (cases o1)
          case None
          then show ?thesis using res False eoc st g Some op sh by auto
        next
          case so: (Some q)
          obtain oc tg where q: "q = (oc, tg)" by fastforce
          have d: "\<not> kMaxDepth < depth" "0 < length inp" using False by auto
          have stop: "stop = False" using st by simp
          note path = d eoc [symmetric] stop g [symmetric] Some op [symmetric] so q [symmetric]
          show ?thesis
          proof (cases "el_indefinite e")
            case True
            obtain r2 inp2 b2 where c: "cbs_convert_ber m inp1 oc tg True (depth + 1) b1 = (r2, inp2, b2)"
              by (cases "cbs_convert_ber m inp1 oc tg True (depth + 1) b1") auto
            note l2 = "1.IH"(1) [OF path True c]
            obtain r3 b3 where fl: "CBB_flush m out b2 = (r3, b3)" by fastforce
            show ?thesis
            proof (cases "r2 \<and> r3")
              case t2: True
              then have rest: "cbs_convert_ber m inp2 out string_tag eoc depth b3 = (r, inp', b')"
                using res False eoc st g Some op so q True c fl by auto
              have "length inp' \<le> length inp2"
                using "1.IH"(2) [OF path True c [symmetric] _ refl fl [symmetric] _ rest] t2 by simp
              then show ?thesis using l2 sh by simp
            next
              case f2: False
              then have "inp' = inp2"
                using res False eoc st g Some op so q True c fl by (cases r2) auto
              then show ?thesis using l2 sh by simp
            qed
          next
            case nind: False
            obtain r4 contents where sk: "CBS_skip (el_out e) (el_header_len e) = (r4, contents)" by fastforce
            define inner where "inner = (if el_tag e AND CBS_ASN1_CONSTRUCTED \<noteq> 0
               then (case cbs_convert_ber m contents oc tg False (depth + 1) b1 of (r, _, b) \<Rightarrow> (r, b))
               else CBB_add_bytes m oc contents b1)"
            obtain r5 b5 where i: "inner = (r5, b5)" by fastforce
            obtain r6 b6 where fl: "CBB_flush m out b5 = (r6, b6)" by fastforce
            show ?thesis
            proof (cases "r4 \<and> r5 \<and> r6")
              case t6: True
              then have rest: "cbs_convert_ber m inp1 out string_tag eoc depth b6 = (r, inp', b')"
                using res False eoc st g Some op so q nind sk i fl unfolding inner_def by auto
              have "length inp' \<le> length inp1"
                using "1.IH"(4) [OF path nind sk [symmetric] _ i [unfolded inner_def, symmetric] _ fl [symmetric] _ rest] t6
                by simp
              then show ?thesis using sh by simp
            next
              case f6: False
              then have "inp' = inp1"
                using res False eoc st g Some op so q nind sk i fl unfolding inner_def by (cases r4; cases r5) auto
              then show ?thesis using sh by simp
            qed
          qed
        qed
      qed
    qed
  qed
qed

termination cbs_convert_ber
proof (relation "measure (\<lambda>(m, inp, _). length inp)", goal_cases)
  case 3
  then show ?case by (fastforce dest: ber_element_shrinks(1) [OF sym] cbs_convert_ber_rest [OF _ sym])
qed (auto dest: ber_element_shrinks(2) [OF sym sym] ber_element_shrinks(1) [OF sym])

declare cbs_convert_ber.simps [simp del]

text \<open>The output, the storage that was allocated for it, and the rest of the input.\<close>

definition CBS_asn1_ber_to_der :: "malloc \<Rightarrow> cbs \<Rightarrow> (cbs \<times> block option) option \<times> cbs" where
  "CBS_asn1_ber_to_der m inp =
     (case cbs_find_ber inp 0 of
        None \<Rightarrow> (None, inp)
      | Some False \<Rightarrow>
          (case CBS_get_any_asn1_element inp of
             (None, inp) \<Rightarrow> (None, inp)
           | (Some e, inp) \<Rightarrow> (Some (el_out e, None), inp))
      | Some True \<Rightarrow>
          (case CBB_init m (length inp) of
             None \<Rightarrow> (None, inp)
           | Some b \<Rightarrow>
               (case cbs_convert_ber m inp 0 0 False 0 b of
                  (False, inp, _) \<Rightarrow> (None, inp)
                | (True, inp, b) \<Rightarrow>
                    (case CBB_finish m 0 True b of
                       (None, _) \<Rightarrow> (None, inp)
                     | (Some (storage, len), _) \<Rightarrow> (Some (take len storage, Some storage), inp)))))"

lemma asn1_codec: "codec (CBS_get_asn1 tag) (\<lambda>c. der_element (tag, c)) (\<lambda>c. der_valid (tag, c))"
proof
  show "der_element (tag, v) \<noteq> []" if "der_valid (tag, v)" for v using that by (rule der.put_nonempty)
qed (simp_all add: CBS_get_asn1_Some_iff CBS_get_asn1_suffix del: der_valid.simps der_element.simps)

lemma asn1_progress: "CBS_get_asn1 tag s = (Some c, s') \<Longrightarrow> length s' < length s"
  using der.put_nonempty [of "(tag, c)"] by (auto simp: CBS_get_asn1_Some_iff simp del: der_valid.simps der_element.simps)

function implicit_string_loop :: "malloc \<Rightarrow> uint32 \<Rightarrow> cbs \<Rightarrow> cbb \<Rightarrow> bool \<times> cbb" where
  "implicit_string_loop m inner_tag child result =
     (if length child > 0 then
        (case CBS_get_asn1 inner_tag child of
           (None, _) \<Rightarrow> (False, result)
         | (Some chunk, child) \<Rightarrow>
             cbb_and (CBB_add_bytes m 0 chunk result) (\<lambda>result. implicit_string_loop m inner_tag child result))
      else (True, result))"
  by pat_completeness auto
termination
  by (relation "measure (\<lambda>(m, _, child, _). length child)") (auto dest: asn1_progress sym)

definition CBS_get_asn1_implicit_string ::
  "malloc \<Rightarrow> uint32 \<Rightarrow> uint32 \<Rightarrow> cbs \<Rightarrow> (cbs \<times> block option) option \<times> cbs" where
  "CBS_get_asn1_implicit_string m outer_tag inner_tag inp =
     (if CBS_peek_asn1_tag outer_tag inp then
        (case CBS_get_asn1 outer_tag inp of
           (None, inp) \<Rightarrow> (None, inp)
         | (Some out, inp) \<Rightarrow> (Some (out, None), inp))
      else
        (case CBB_init m (length inp) of
           None \<Rightarrow> (None, inp)
         | Some result \<Rightarrow>
             (case CBS_get_asn1 (outer_tag OR CBS_ASN1_CONSTRUCTED) inp of
                (None, inp) \<Rightarrow> (None, inp)
              | (Some child, inp) \<Rightarrow>
                  (case implicit_string_loop m inner_tag child result of
                     (False, _) \<Rightarrow> (None, inp)
                   | (True, result) \<Rightarrow>
                       (case CBB_finish m 0 True result of
                          (None, _) \<Rightarrow> (None, inp)
                        | (Some (data, len), _) \<Rightarrow> (Some (take len data, Some data), inp))))))"

section \<open>DER input\<close>

lemma ber_not_found_is_der:
  assumes "CBS_get_any_ber_asn1_element s = (Some e, s')" and n: "\<not> el_ber_found e"
  shows "CBS_get_any_asn1_element s = (Some e, s')"
proof -
  have g: "cbs_get_any_asn1_element True s = (Some e, s')"
    using assms(1) by (simp add: CBS_get_any_ber_asn1_element_def)
  obtain r h where p: "parse_asn1_tag s = (r, h)" by fastforce
  obtain tag where tag: "r = Some tag" using g p by (cases r) (simp_all add: cbs_get_any_asn1_element_def)
  obtain r2 h2 where u: "CBS_get_u8 h = (r2, h2)" by fastforce
  obtain lb where lb: "r2 = Some lb" using g p tag u by (cases r2) (simp_all add: cbs_get_any_asn1_element_def)
  define num where "num = unat (lb AND 0x7f)"
  note body = g [unfolded cbs_get_any_asn1_element_def p tag u lb prod.case option.case Let_def num_def [symmetric]]
  show ?thesis
  proof (cases "lb AND 0x80 = 0")
    case True
    then show ?thesis using body
      by (simp add: CBS_get_any_asn1_element_def cbs_get_any_asn1_element_def p tag u lb)
  next
    case long: False
    obtain r3 h3 where len: "cbs_get_u num h2 = (r3, h3)" by fastforce
    have num: "\<not> (num = 0 \<or> num > 4)"
      using body long n by (auto split: if_splits prod.splits option.splits)
    then obtain len64 where l: "r3 = Some len64" using body long len by (cases r3) simp_all
    have nf: "(len64 < 128 \<or> drop_bit ((num - 1) * 8) len64 = 0) = False"
      using body long len num l n by (auto split: if_splits prod.splits option.splits)
    show ?thesis
      using body long len num l
      unfolding CBS_get_any_asn1_element_def cbs_get_any_asn1_element_def p tag u lb prod.case option.case Let_def num_def [symmetric]
      by (simp add: nf del: One_nat_def)
  qed
qed

text \<open>One step of the search that finds nothing: a DER element that is not a constructed string,
  whose contents and successors are searched, too.\<close>

lemma find_ber_step:
  assumes "cbs_find_ber inp depth = Some False" "inp \<noteq> []"
  obtains tag c s where "depth \<le> kMaxDepth" "der_valid (tag, c)" "inp = der_element (tag, c) @ s"
    "CBS_get_any_ber_asn1_element inp = (Some (der_el tag c), s)" "CBS_skip (der_element (tag, c)) (el_header_len (der_el tag c)) = (True, c)"
    "cbs_find_ber s depth = Some False"
    "tag AND CBS_ASN1_CONSTRUCTED \<noteq> 0 \<longrightarrow> \<not> is_string_type tag \<and> cbs_find_ber c (depth + 1) = Some False"
proof -
  obtain r s where g: "CBS_get_any_ber_asn1_element inp = (r, s)" by fastforce
  note f = assms(1) [unfolded cbs_find_ber.simps [of inp]]
  have d: "depth \<le> kMaxDepth" using f by (simp split: if_splits)
  obtain e where e: "r = Some e" "\<not> el_ber_found e" using f g assms(2) d by (cases r) (auto split: if_splits)
  then obtain tag c where tc: "der_valid (tag, c)" "e = der_el tag c" "inp = der_element (tag, c) @ s"
    using g ber_not_found_is_der element_is_der by blast
  have sk: "CBS_skip (der_element (tag, c)) (el_header_len (der_el tag c)) = (True, c)"
    using der_skip_header [of tag c] by (simp add: der_el_def)
  have out: "el_out (der_el tag c) = der_element (tag, c)" "el_tag (der_el tag c) = tag" by (simp_all add: der_el_def)
  have "cbs_find_ber s depth = Some False"
    "tag AND CBS_ASN1_CONSTRUCTED \<noteq> 0 \<longrightarrow> \<not> is_string_type tag \<and> cbs_find_ber c (depth + 1) = Some False"
    using f d assms(2) g e tc(2) sk out
    by (auto simp del: der_element.simps split: if_splits option.splits bool.splits)
  with that d tc sk g e(1) show ?thesis by blast
qed

lemma find_ber_reads_der: "cbs_find_ber inp depth = Some False \<Longrightarrow> \<exists>vs. reads CBS_get_any_asn1 inp vs"
proof (induction inp rule: measure_induct_rule [of length])
  case (less inp)
  show ?case
  proof (cases "inp = []")
    case False
    with less.prems obtain tag c s where s: "der_valid (tag, c)" "inp = der_element (tag, c) @ s" "cbs_find_ber s depth = Some False"
      by (rule find_ber_step)
    then have g: "CBS_get_any_asn1 inp = (Some (tag, c), s)" by (simp only: der.get_iff)
    then have "length s < length inp" by (rule der.get_progress)
    with less.IH s(3) obtain vs where "reads CBS_get_any_asn1 s vs" by blast
    with g False show ?thesis by (blast intro: reads_Cons)
  qed (auto intro: reads_Nil)
qed

section \<open>Converting DER\<close>

abbreviation (input) convert :: "malloc \<Rightarrow> cbs \<Rightarrow> nat \<Rightarrow> nat \<Rightarrow> cbb \<Rightarrow> bool \<times> cbb" where
  "convert m inp k depth b \<equiv> (case cbs_convert_ber m inp k 0 False depth b of (r, _, b) \<Rightarrow> (r, b))"

lemma element_yields:
  assumes r: "repr b fs" and m: "malloc_ok m" and k: "k < length fs"
    and body: "\<And>b' gs. repr b' gs \<Longrightarrow> length gs = Suc (Suc k) \<Longrightarrow> yields m b' (body b') (abs_append (Suc k) c gs)"
  shows "yields m b (cbb_and (cbb_and (CBB_add_asn1 m k tag b) body) (\<lambda>b. CBB_flush m k b))
    (if length c \<le> 0xfffffffe then abs_append k (der_element (tag, c)) fs else None)"
proof -
  have 1: "yields m b (cbb_and (CBB_add_asn1 m k tag b) body)
      (Option.bind (abs_asn1 k tag fs) (abs_append (Suc k) c))"
    using abs_asn1_length abs_append_grows
    by (intro yields_and implements_yields [OF CBB_add_asn1_implements [OF r m k]]) (auto intro!: body)
  show ?thesis
    unfolding tag_open_close [symmetric]
  proof (rule yields_and [OF 1])
    fix b' gs assume "repr b' gs" "Option.bind (abs_asn1 k tag fs) (abs_append (Suc k) c) = Some gs"
    then show "yields m b' (CBB_flush m k b') (close_to k gs)"
      using m abs_append_length [of "Suc k" c]
      by (cases "abs_asn1 k tag fs") (auto intro!: implements_yields flush_implements)
  qed (rule close_to_layout)
qed

lemma convert_Nil: "depth \<le> kMaxDepth \<Longrightarrow> convert m [] k depth b = (True, b)"
  by (simp add: cbs_convert_ber.simps [of m "[]"])

lemma convert_element:
  assumes d: "depth \<le> kMaxDepth" and inp: "inp \<noteq> []"
    and g: "CBS_get_any_ber_asn1_element inp = (Some (der_el tag c), s)"
    and sk: "CBS_skip (der_element (tag, c)) (el_header_len (der_el tag c)) = (True, c)"
    and str: "tag AND CBS_ASN1_CONSTRUCTED \<noteq> 0 \<Longrightarrow> \<not> is_string_type tag"
  shows "convert m inp k depth b =
    cbb_and (cbb_and (cbb_and (CBB_add_asn1 m k tag b)
        (\<lambda>b. if tag AND CBS_ASN1_CONSTRUCTED \<noteq> 0 then convert m c (Suc k) (depth + 1) b
             else CBB_add_bytes m (Suc k) c b)) (\<lambda>b. CBB_flush m k b))
      (\<lambda>b. convert m s k depth b)"
proof -
  have el: "el_out (der_el tag c) = der_element (tag, c)" "el_tag (der_el tag c) = tag"
    "\<not> el_indefinite (der_el tag c)" by (simp_all add: der_el_def)
  have op: "ber_open m k 0 tag b = (case CBB_add_asn1 m k tag b of
      (False, b) \<Rightarrow> (None, b) | (True, b) \<Rightarrow> (Some (Suc k, 0), b))"
    using str by (auto simp: ber_open_def Let_def)
  let ?inner = "\<lambda>b. if tag AND CBS_ASN1_CONSTRUCTED \<noteq> 0 then convert m c (Suc k) (depth + 1) b
             else CBB_add_bytes m (Suc k) c b"
  obtain r1 b1 where 1: "CBB_add_asn1 m k tag b = (r1, b1)" by fastforce
  obtain r2 b2 where 2: "?inner b1 = (r2, b2)" by fastforce
  obtain r3 b3 where 3: "CBB_flush m k b2 = (r3, b3)" by fastforce
  show ?thesis
    using d inp 1 2 3
    by (cases r1; cases r2; cases r3)
      (simp_all add: cbs_convert_ber.simps [of m inp] g el sk op del: der_element.simps)
qed

lemma convert_der_yields:
  "cbs_find_ber inp depth = Some False \<Longrightarrow> length inp \<le> 0xfffffffe \<Longrightarrow> repr b fs \<Longrightarrow> malloc_ok m \<Longrightarrow>
   Suc k = length fs \<Longrightarrow> yields m b (convert m inp k depth b) (abs_append k inp fs)"
proof (induction inp arbitrary: depth b fs k rule: measure_induct_rule [of length])
  case (less inp)
  show ?case
  proof (cases "inp = []")
    case True
    have "depth \<le> kMaxDepth" using less.prems(1) by (simp add: cbs_find_ber.simps [of inp] split: if_splits)
    with True less.prems show ?thesis
      by (simp add: convert_Nil abs_append_Nil close_to_self implements_yields implements_Some)
  next
    case False
    with less.prems(1) obtain tag c s where e: "depth \<le> kMaxDepth" "der_valid (tag, c)" "inp = der_element (tag, c) @ s"
      "CBS_get_any_ber_asn1_element inp = (Some (der_el tag c), s)"
      "CBS_skip (der_element (tag, c)) (el_header_len (der_el tag c)) = (True, c)"
      "cbs_find_ber s depth = Some False"
      "tag AND CBS_ASN1_CONSTRUCTED \<noteq> 0 \<longrightarrow> \<not> is_string_type tag \<and> cbs_find_ber c (depth + 1) = Some False"
      by (rule find_ber_step)
    have el: "el_out (der_el tag c) = der_element (tag, c)" by (simp add: der_el_def)
    have lc: "length c < length inp" "length s < length inp"
      using ber_element_shrinks [OF e(4)] e(5) el by simp_all
    let ?inner = "\<lambda>b. if tag AND CBS_ASN1_CONSTRUCTED \<noteq> 0 then convert m c (Suc k) (depth + 1) b
             else CBB_add_bytes m (Suc k) c b"
    have inner: "yields m b' (?inner b') (abs_append (Suc k) c gs)" if "repr b' gs" "length gs = Suc (Suc k)" for b' gs
    proof (cases "tag AND CBS_ASN1_CONSTRUCTED \<noteq> 0")
      case True
      then show ?thesis using that less.IH [OF lc(1), of "depth + 1" b' gs "Suc k"] e(7) less.prems lc(1) by simp
    next
      case False
      have "yields m b' (CBB_add_bytes m (Suc k) c b') (abs_append (Suc k) c gs)"
        using that less.prems lc(1) by (intro implements_yields CBB_add_bytes_implements) simp_all
      then show ?thesis using False by simp
    qed
    have "yields m b (cbb_and (cbb_and (CBB_add_asn1 m k tag b) ?inner) (\<lambda>b. CBB_flush m k b))
        (if length c \<le> 0xfffffffe then abs_append k (der_element (tag, c)) fs else None)"
      using less.prems inner by (intro element_yields) simp_all
    then have "yields m b (cbb_and (cbb_and (CBB_add_asn1 m k tag b) ?inner) (\<lambda>b. CBB_flush m k b))
        (abs_append k (der_element (tag, c)) fs)"
      using lc(1) less.prems(2) by (simp del: der_element.simps)
    then have "yields m b (convert m inp k depth b) (abs_append k (der_element (tag, c) @ s) fs)"
      using less.prems lc(2) e(6) e(7)
      by (subst convert_element [OF e(1) False e(4,5)]) (auto intro!: yields_append1 less.IH simp del: der_element.simps)
    then show ?thesis using e(3) by simp
  qed
qed

section \<open>Implicitly tagged strings\<close>

declare implicit_string_loop.simps [simp del]

lemma implicit_loop_yields:
  "length child \<le> SIZE_MAX \<Longrightarrow> repr b fs \<Longrightarrow> malloc_ok m \<Longrightarrow> length fs = 1 \<Longrightarrow>
   yields m b (implicit_string_loop m tag child b)
     (Option.bind (read_all (CBS_get_asn1 tag) child) (\<lambda>cs. abs_append 0 (concat cs) fs))"
proof (induction child arbitrary: b fs rule: measure_induct_rule [of length])
  case (less child)
  show ?case
  proof (cases "child = []")
    case True
    then show ?thesis using less.prems
      by (simp add: implicit_string_loop.simps [of m tag "[]"] abs_append_Nil close_to_self implements_yields implements_Some)
  next
    case False
    obtain r s where g: "CBS_get_asn1 tag child = (r, s)" by fastforce
    show ?thesis
    proof (cases r)
      case None
      then show ?thesis using g False
        by (simp add: implicit_string_loop.simps [of m tag child] read_all_None yields_None)
    next
      case (Some c)
      with g have l: "length s < length child" by (blast intro: asn1_progress)
      have "child = der_element (tag, c) @ s" using g Some by (simp only: CBS_get_asn1_Some_iff)
      then have lc: "length c \<le> SIZE_MAX" using less.prems(1) by simp
      have "yields m b (cbb_and (CBB_add_bytes m 0 c b) (\<lambda>b. implicit_string_loop m tag s b))
          (Option.bind (read_all (CBS_get_asn1 tag) s) (\<lambda>cs. abs_append 0 (c @ concat cs) fs))"
        using less.prems l lc
        by (intro yields_append implements_yields [OF CBB_add_bytes_implements] less.IH) simp_all
      moreover have "read_all (CBS_get_asn1 tag) child = map_option ((#) c) (read_all (CBS_get_asn1 tag) s)"
        using g Some l by (simp add: read_all_Some)
      ultimately show ?thesis using g Some False
        by (cases "read_all (CBS_get_asn1 tag) s") (simp_all add: implicit_string_loop.simps [of m tag child])
    qed
  qed
qed

lemma asn1_read_all_iff:
  "read_all (CBS_get_asn1 tag) s = Some cs \<longleftrightarrow>
     list_all (\<lambda>c. der_valid (tag, c)) cs \<and> s = concat (map (\<lambda>c. der_element (tag, c)) cs)"
  using read_all_iff [of "CBS_get_asn1 tag", OF asn1_progress] codec.reads_iff [OF asn1_codec] by simp

lemma length_concat_der: "length (concat cs) \<le> length (concat (map (\<lambda>c. der_element (tag, c)) cs))"
  by (induction cs) simp_all

text \<open>The constructed branch, from the builder's initial state to the finished buffer.\<close>

lemma implicit_constructed:
  assumes m: "malloc_ok m" and b: "CBB_init m n = Some b" and n: "n \<le> SIZE_MAX" "length child \<le> n"
  shows "(\<exists>storage. (case implicit_string_loop m tag child b of
      (False, _) \<Rightarrow> (None, rest)
    | (True, result) \<Rightarrow>
        (case CBB_finish m 0 True result of
           (None, _) \<Rightarrow> (None, rest)
         | (Some (data, len), _) \<Rightarrow> (Some (take len data, Some data), rest))) = (Some (out, storage), rest')) \<longleftrightarrow>
    rest' = rest \<and> (\<exists>cs. read_all (CBS_get_asn1 tag) child = Some cs \<and> out = concat cs)"
proof -
  have r: "repr b [(Root, [])]" by (rule CBB_init_repr [OF m n(1) b])
  have cap: "cbb_cap b = n" using b by (auto simp: CBB_init_def cbb_init_def split: option.splits if_splits)
  have y: "yields m b (implicit_string_loop m tag child b)
      (Option.bind (read_all (CBS_get_asn1 tag) child) (\<lambda>cs. abs_append 0 (concat cs) [(Root, [])]))"
    using n r m by (intro implicit_loop_yields) simp_all
  obtain ok b' where l: "implicit_string_loop m tag child b = (ok, b')" by fastforce
  have "ok \<longleftrightarrow> (\<exists>cs. read_all (CBS_get_asn1 tag) child = Some cs)"
  proof
    show "ok \<Longrightarrow> \<exists>cs. read_all (CBS_get_asn1 tag) child = Some cs"
      using y l by (auto simp: yields_def bind_eq_Some_conv)
    assume "\<exists>cs. read_all (CBS_get_asn1 tag) child = Some cs"
    then obtain cs where cs: "read_all (CBS_get_asn1 tag) child = Some cs" by blast
    then have "length (concat cs) \<le> n"
      using length_concat_der [of cs tag] n(2) unfolding asn1_read_all_iff by (metis order_trans)
    then have "room m b (length (concat cs))" by (simp add: room_def cap)
    then show ok using y l cs by (simp add: yields_def abs_append_def)
  qed
  moreover have "CBB_finish m 0 True b' = (Some (cbb_buf b', cbb_len b'), b'\<lparr>cbb_buf := []\<rparr>) \<and>
      take (cbb_len b') (cbb_buf b') = concat cs" if ok "read_all (CBS_get_asn1 tag) child = Some cs" for cs
  proof -
    have "repr b' [(Root, concat cs)]" using y l that by (simp add: yields_def abs_append_def)
    then show ?thesis using CBB_finish_repr by blast
  qed
  ultimately show ?thesis using l by (cases ok) auto
qed

section \<open>The properties\<close>

text \<open>C10. The shortcut of \<open>CBS_asn1_ber_to_der\<close> is sound: when the search finds nothing to convert, the
  input is a sequence of DER elements, and the conversion it skips would have succeeded and
  produced the same bytes, without asking for more memory than it starts with.\<close>

theorem ber_shortcut_sound:
  assumes f: "cbs_find_ber inp 0 = Some False" and l: "length inp \<le> 0xfffffffe" and m: "malloc_ok m"
    and b: "CBB_init m (length inp) = Some b"
  shows "(\<exists>vs. reads CBS_get_any_asn1 inp vs) \<and>
    (\<exists>rest b'. cbs_convert_ber m inp 0 0 False 0 b = (True, rest, b') \<and> repr b' [(Root, inp)])"
proof -
  have r: "repr b [(Root, [])]" using l by (intro CBB_init_repr [OF m _ b]) simp
  have "cbb_cap b = length inp" using b by (auto simp: CBB_init_def cbb_init_def split: option.splits if_splits)
  then have "room m b (length inp)" by (simp add: room_def)
  moreover have "yields m b (convert m inp 0 0 b) (Some [(Root, inp)])"
    using convert_der_yields [OF f l r m, of 0] by (simp add: abs_append_def)
  ultimately have "\<exists>rest b'. cbs_convert_ber m inp 0 0 False 0 b = (True, rest, b') \<and> repr b' [(Root, inp)]"
    by (cases "cbs_convert_ber m inp 0 0 False 0 b") (auto simp: yields_def)
  then show ?thesis using find_ber_reads_der [OF f] by blast
qed

text \<open>C31. An implicitly tagged string is read exactly: either it is one primitive element with the outer
  tag, or a constructed one whose contents are elements with the inner tag, and then the result
  is the concatenation of their contents.\<close>

theorem implicit_string_exact:
  assumes m: "malloc_ok m" and b: "CBB_init m (length inp) \<noteq> None" and l: "length inp \<le> SIZE_MAX"
    and prim: "outer AND CBS_ASN1_CONSTRUCTED = 0"
  shows "(\<exists>storage. CBS_get_asn1_implicit_string m outer inner inp = (Some (out, storage), rest)) \<longleftrightarrow>
    (der_valid (outer, out) \<and> inp = der_element (outer, out) @ rest) \<or>
    (\<exists>cs. list_all (\<lambda>c. der_valid (inner, c)) cs \<and> out = concat cs \<and>
       (let c = concat (map (\<lambda>c. der_element (inner, c)) cs)
        in der_valid (outer OR CBS_ASN1_CONSTRUCTED, c) \<and> inp = der_element (outer OR CBS_ASN1_CONSTRUCTED, c) @ rest))"
    (is "?lhs \<longleftrightarrow> ?prim \<or> ?cons")
proof (cases "CBS_peek_asn1_tag outer inp")
  case True
  then have "?lhs \<longleftrightarrow> CBS_get_asn1 outer inp = (Some out, rest)"
    by (auto simp: CBS_get_asn1_implicit_string_def split: prod.splits option.splits)
  moreover have "\<not> ?cons"
  proof
    assume ?cons
    then obtain c where c: "der_valid (outer OR CBS_ASN1_CONSTRUCTED, c)"
      "inp = der_element (outer OR CBS_ASN1_CONSTRUCTED, c) @ rest" by (auto simp only: Let_def)
    obtain t where t: "tag_valid outer" "inp = tag_bytes outer @ t" using True CBS_peek_asn1_tag_iff by blast
    have "inp = tag_bytes (outer OR CBS_ASN1_CONSTRUCTED) @ der_len (length c) @ c @ rest"
      using c(2) by (simp add: der_header_def)
    moreover have "tag_valid (outer OR CBS_ASN1_CONSTRUCTED)" using c(1) by simp
    ultimately have "outer = outer OR CBS_ASN1_CONSTRUCTED"
      using asn1_tag.put_prefix_free [OF t(1)] t(2) by metis
    then have "outer AND CBS_ASN1_CONSTRUCTED = (outer OR CBS_ASN1_CONSTRUCTED) AND CBS_ASN1_CONSTRUCTED" by simp
    also have "\<dots> = CBS_ASN1_CONSTRUCTED" by (simp add: bit_eq_iff bit_and_iff bit_or_iff)
    finally show False using prim by simp
  qed
  ultimately show ?thesis unfolding CBS_get_asn1_Some_iff by blast
next
  case False
  have "\<not> ?prim" using False CBS_peek_der [of outer out rest] by blast
  obtain b0 where b0: "CBB_init m (length inp) = Some b0" using b by blast
  have "?lhs \<longleftrightarrow> (\<exists>child. CBS_get_asn1 (outer OR CBS_ASN1_CONSTRUCTED) inp = (Some child, rest) \<and>
      (\<exists>cs. read_all (CBS_get_asn1 inner) child = Some cs \<and> out = concat cs))"
  proof -
    obtain r s where g: "CBS_get_asn1 (outer OR CBS_ASN1_CONSTRUCTED) inp = (r, s)" by fastforce
    show ?thesis
    proof (cases r)
      case None
      then show ?thesis using g False b0 by (simp add: CBS_get_asn1_implicit_string_def)
    next
      case (Some child)
      then have "inp = der_element (outer OR CBS_ASN1_CONSTRUCTED, child) @ s"
        using g by (simp only: CBS_get_asn1_Some_iff)
      then have "length child \<le> length inp" by simp
      from implicit_constructed [OF m b0 l this, where tag = inner and rest = s and out = out and rest' = rest] show ?thesis
        using g Some False b0 by (simp add: CBS_get_asn1_implicit_string_def) blast
    qed
  qed
  with \<open>\<not> ?prim\<close> show ?thesis unfolding CBS_get_asn1_Some_iff asn1_read_all_iff Let_def by blast
qed

theorem ber_shortcut_sound_witness:
  "(\<exists>vs. reads CBS_get_any_asn1 [0x30, 3, 2, 1, 5] vs) \<and>
    (\<exists>rest b'. cbs_convert_ber zero_malloc [0x30, 3, 2, 1, 5] 0 0 False 0 (the (CBB_init zero_malloc 5)) = (True, rest, b') \<and>
      repr b' [(Root, [0x30, 3, 2, 1, 5])])"
proof (rule ber_shortcut_sound)
  show "cbs_find_ber [0x30, 3, 2, 1, 5] 0 = Some False" by code_simp
  have "CBB_init zero_malloc 5 \<noteq> None" by code_simp
  moreover have "length [0x30, 3, 2, 1, 5 :: byte] = 5" by code_simp
  ultimately show "CBB_init zero_malloc (length [0x30, 3, 2, 1, 5 :: byte]) = Some (the (CBB_init zero_malloc 5))"
    by (metis option.collapse)
qed simp_all

theorem implicit_string_exact_witness:
  "\<exists>cs. list_all (\<lambda>c. der_valid (4, c)) cs \<and> [7, 8] = concat cs \<and>
     (let c = concat (map (\<lambda>c. der_element (4, c)) cs)
      in der_valid (0xa0000000, c) \<and> [0xa0, 6, 4, 1, 7, 4, 1, 8] = der_element (0xa0000000, c) @ [])"
proof -
  let ?inp = "[0xa0, 6, 4, 1, 7, 4, 1, 8] :: byte list"
  have b: "CBB_init zero_malloc (length ?inp) \<noteq> None" by code_simp
  have "fst (CBS_get_asn1_implicit_string zero_malloc 0x80000000 4 ?inp) = Some ([7, 8], Some [7, 8, 0, 0, 0, 0, 0, 0])"
    and "snd (CBS_get_asn1_implicit_string zero_malloc 0x80000000 4 ?inp) = []" by code_simp+
  then have "\<exists>storage. CBS_get_asn1_implicit_string zero_malloc 0x80000000 4 ?inp = (Some ([7, 8], storage), [])"
    by (metis prod.collapse)
  moreover have "der_element (0x80000000, [7, 8]) @ [] \<noteq> ?inp" by code_simp
  moreover have "(0x80000000 :: uint32) OR CBS_ASN1_CONSTRUCTED = 0xa0000000" by code_simp
  ultimately show ?thesis
    using implicit_string_exact [OF zero_malloc_ok b, where outer = "0x80000000" and inner = "4" and out = "[7, 8]" and rest = "[]"] by (simp del: der_element.simps der_valid.simps)
qed

end
