(* ===== verification/Constant_Time.thy ===== *)
theory Constant_Time
  imports Prelude
begin

text \<open>
  The constant-time helpers of \<open>crypto/internal.h\<close>, on 64-bit words: comparisons that
  return a mask of all ones or all zeros without a branch, and the selection by such a
  mask.  Each is shown to compute the comparison it is named after.  The value barriers,
  which only restrain the compiler, are the identity.
\<close>

section \<open>The code\<close>

definition constant_time_msb_w :: "uint64 \<Rightarrow> uint64" where
  "constant_time_msb_w a = 0 - drop_bit 63 a"

definition constant_time_lt_w :: "uint64 \<Rightarrow> uint64 \<Rightarrow> uint64" where
  "constant_time_lt_w a b = constant_time_msb_w (a XOR ((a XOR b) OR ((a - b) XOR a)))"

definition constant_time_lt_8 :: "uint64 \<Rightarrow> uint64 \<Rightarrow> byte" where
  "constant_time_lt_8 a b = ucast (constant_time_lt_w a b)"

definition constant_time_ge_w :: "uint64 \<Rightarrow> uint64 \<Rightarrow> uint64" where
  "constant_time_ge_w a b = NOT (constant_time_lt_w a b)"

definition constant_time_ge_8 :: "uint64 \<Rightarrow> uint64 \<Rightarrow> byte" where
  "constant_time_ge_8 a b = ucast (constant_time_ge_w a b)"

definition constant_time_is_zero_w :: "uint64 \<Rightarrow> uint64" where
  "constant_time_is_zero_w a = constant_time_msb_w (NOT a AND (a - 1))"

definition constant_time_is_zero_8 :: "uint64 \<Rightarrow> byte" where
  "constant_time_is_zero_8 a = ucast (constant_time_is_zero_w a)"

definition constant_time_eq_w :: "uint64 \<Rightarrow> uint64 \<Rightarrow> uint64" where
  "constant_time_eq_w a b = constant_time_is_zero_w (a XOR b)"

definition constant_time_eq_8 :: "uint64 \<Rightarrow> uint64 \<Rightarrow> byte" where
  "constant_time_eq_8 a b = ucast (constant_time_eq_w a b)"

text \<open>An \<open>int\<close> is a 32-bit word that is sign-extended.\<close>

definition constant_time_eq_int :: "uint32 \<Rightarrow> uint32 \<Rightarrow> uint64" where
  "constant_time_eq_int a b = constant_time_eq_w (scast a) (scast b)"

definition constant_time_eq_int_8 :: "uint32 \<Rightarrow> uint32 \<Rightarrow> byte" where
  "constant_time_eq_int_8 a b = constant_time_eq_8 (scast a) (scast b)"

definition constant_time_select_w :: "uint64 \<Rightarrow> uint64 \<Rightarrow> uint64 \<Rightarrow> uint64" where
  "constant_time_select_w msk a b = (msk AND a) OR (NOT msk AND b)"

definition constant_time_select_8 :: "uint64 \<Rightarrow> byte \<Rightarrow> byte \<Rightarrow> byte" where
  "constant_time_select_8 msk a b = (let m = ucast msk :: byte in (m AND a) OR (NOT m AND b))"

definition constant_time_select_int :: "uint64 \<Rightarrow> uint32 \<Rightarrow> uint32 \<Rightarrow> uint32" where
  "constant_time_select_int msk a b = ucast (constant_time_select_w msk (scast a) (scast b))"

text \<open>The conditional copy, over the bytes of two separate objects.\<close>

definition constant_time_conditional_memcpy :: "byte list \<Rightarrow> byte list \<Rightarrow> uint64 \<Rightarrow> byte list" where
  "constant_time_conditional_memcpy out src msk = map2 (\<lambda>s d. constant_time_select_8 msk s d) src out"

section \<open>What they compute\<close>

named_theorems ct_simps \<open>the comparisons behind the constant-time helpers\<close>

lemma bit_63: "bit (a :: uint64) 63 \<longleftrightarrow> 9223372036854775808 \<le> unat a"
proof -
  have "unat a < 2 * 9223372036854775808" using unsigned_less [of a, where 'a = nat] by simp
  then have "unat a div 9223372036854775808 < 2" by (rule less_mult_imp_div_less)
  moreover have "bit a 63 \<longleftrightarrow> odd (unat a div 9223372036854775808)"
    using bit_unsigned_iff [of a 63, where 'a = nat] by (simp add: bit_iff_odd)
  ultimately have "bit a 63 \<longleftrightarrow> unat a div 9223372036854775808 \<noteq> 0"
    by (auto dest!: less_2_cases)
  then show ?thesis by (simp add: div_eq_0_iff not_less)
qed

lemma msb_w [ct_simps]: "constant_time_msb_w a = (if bit a 63 then -1 else 0)"
proof -
  have "unat a < 2 * 9223372036854775808" using unsigned_less [of a, where 'a = nat] by simp
  then have l: "unat (drop_bit 63 a) < 2" unfolding unat_drop_bit by (simp add: less_mult_imp_div_less)
  have "bit a 63 \<longleftrightarrow> unat (drop_bit 63 a) \<noteq> 0"
    unfolding bit_63 unat_drop_bit by (simp add: div_eq_0_iff not_less)
  with l have "drop_bit 63 a = (if bit a 63 then 1 else 0)" by (intro byte_eqI) (auto simp: less_2_cases_iff)
  then show ?thesis by (simp add: constant_time_msb_w_def)
qed

lemma lt_w [ct_simps]: "constant_time_lt_w a b = (if a < b then -1 else 0)"
proof -
  let ?A = "bit a 63" and ?B = "bit b 63" and ?D = "bit (a - b) 63"
  have "bit (a XOR ((a XOR b) OR ((a - b) XOR a))) 63 \<longleftrightarrow> (if ?A = ?B then ?D else ?B)"
    by (simp add: bit_xor_iff bit_or_iff) blast
  moreover have "?A \<noteq> ?B \<Longrightarrow> a < b \<longleftrightarrow> ?B" by (auto simp: bit_63 word_less_nat_alt)
  moreover have "?A = ?B \<Longrightarrow> a < b \<longleftrightarrow> ?D"
  proof -
    assume eq: "?A = ?B"
    have l: "unat a < 18446744073709551616" "unat b < 18446744073709551616"
      using unsigned_less [of a, where 'a = nat] unsigned_less [of b, where 'a = nat] by simp_all
    have "unat (a - b) = (if unat b \<le> unat a then unat a - unat b else unat a + 18446744073709551616 - unat b)"
      using l by (simp add: unat_sub_if')
    then show ?thesis using eq l by (auto simp: bit_63 word_less_nat_alt)
  qed
  ultimately show ?thesis unfolding constant_time_lt_w_def msb_w by (simp split: if_splits)
qed

lemma is_zero_w [ct_simps]: "constant_time_is_zero_w a = (if a = 0 then -1 else 0)"
proof -
  have "bit (NOT a AND (a - 1)) 63 \<longleftrightarrow> a = 0"
  proof (cases "a = 0")
    case True
    then show ?thesis by (simp add: bit_and_iff bit_not_iff)
  next
    case False
    then have "unat (a - 1) = unat a - 1" by (simp add: unat_minus_one)
    then have "bit (a - 1) 63 \<Longrightarrow> bit a 63" by (simp add: bit_63)
    then show ?thesis using False by (auto simp: bit_and_iff bit_not_iff)
  qed
  then show ?thesis by (simp add: constant_time_is_zero_w_def msb_w)
qed

lemma eq_w [ct_simps]: "constant_time_eq_w a b = (if a = b then -1 else 0)"
proof -
  have "a XOR b = 0 \<longleftrightarrow> a = b" by (metis bit.xor_left_self xor.right_neutral xor_self_eq)
  then show ?thesis by (simp add: constant_time_eq_w_def is_zero_w)
qed

lemma ucast_minus_1: "(ucast (-1 :: uint64) :: byte) = -1"
  by code_simp

lemma masks_8 [ct_simps]:
  "constant_time_lt_8 a b = (if a < b then -1 else 0)"
  "constant_time_ge_8 a b = (if b \<le> a then -1 else 0)"
  "constant_time_is_zero_8 a = (if a = 0 then -1 else 0)"
  "constant_time_eq_8 a b = (if a = b then -1 else 0)"
  by (auto simp: constant_time_lt_8_def constant_time_ge_8_def constant_time_ge_w_def constant_time_is_zero_8_def
      constant_time_eq_8_def ct_simps not_less not_le ucast_minus_1)

lemma ge_w [ct_simps]: "constant_time_ge_w a b = (if b \<le> a then -1 else 0)"
  by (auto simp: constant_time_ge_w_def ct_simps not_less not_le)

lemma select_w [ct_simps]: "constant_time_select_w (if P then -1 else 0) a b = (if P then a else b)"
  by (simp add: constant_time_select_w_def)

lemma select_8 [ct_simps]: "constant_time_select_8 (if P then -1 else 0) a b = (if P then a else b)"
  by (simp add: constant_time_select_8_def ucast_minus_1)

lemma scast_inject: "(scast (a :: uint32) :: uint64) = scast b \<longleftrightarrow> a = b"
proof
  assume "(scast a :: uint64) = scast b"
  then have b: "bit (scast a :: uint64) n = bit (scast b :: uint64) n" for n by simp
  show "a = b"
  proof (rule bit_eqI)
    fix n assume "possible_bit TYPE(32 word) n"
    then show "bit a n = bit b n" using b [of n] by (cases "n = 31") (auto simp: bit_signed_iff min_def)
  qed
qed simp

text \<open>C32. The constant-time comparisons return the mask of all ones when the comparison they are named
  after holds and the mask of all zeros otherwise, for words of any value, and selecting by
  such a mask is the conditional.\<close>

theorem constant_time_helpers:
  "constant_time_lt_w a b = (if a < b then -1 else 0) \<and> constant_time_ge_w a b = (if b \<le> a then -1 else 0) \<and>
   constant_time_eq_w a b = (if a = b then -1 else 0) \<and> constant_time_is_zero_w a = (if a = 0 then -1 else 0) \<and>
   constant_time_eq_int x y = (if x = y then -1 else 0) \<and>
   constant_time_select_w (constant_time_lt_w a b) c d = (if a < b then c else d) \<and>
   constant_time_select_int (constant_time_eq_w a b) x y = (if a = b then x else y)"
proof -
  have "(ucast (scast z :: uint64) :: uint32) = z" for z :: uint32
    by (rule bit_eqI, rename_tac n, case_tac "n = 31") (auto simp: bit_simps bit_signed_iff min_def)
  then show ?thesis by (simp add: ct_simps constant_time_eq_int_def constant_time_select_int_def scast_inject)
qed

text \<open>The copy is all or nothing.\<close>

lemma conditional_memcpy:
  "length out = length src \<Longrightarrow>
   constant_time_conditional_memcpy out src (if P then -1 else 0) = (if P then src else out)"
  by (induction out src rule: list_induct2) (simp_all add: constant_time_conditional_memcpy_def select_8)

end
