(* ===== verification/Base64.thy ===== *)
theory Base64
  imports Mem Constant_Time
begin

text \<open>
  Base64, \<open>crypto/base64/base64.c\<close>: the block functions and the streaming encoder and
  decoder with their context.  A function that writes to \<open>out\<close> returns the bytes it
  writes there, without the terminating NUL.  The reference is the alphabet of RFC 4648;
  decoding inverts encoding, and the streaming functions do not depend on how their input
  is cut into pieces.
\<close>

section \<open>Characters\<close>

definition constant_time_lt_args_8 :: "byte \<Rightarrow> byte \<Rightarrow> byte" where
  "constant_time_lt_args_8 a b = ucast (constant_time_msb_w (ucast a - ucast b))"

definition constant_time_in_range_8 :: "byte \<Rightarrow> byte \<Rightarrow> byte \<Rightarrow> byte" where
  "constant_time_in_range_8 a lo hi = constant_time_lt_args_8 (a - lo) (hi - lo + 1)"

text \<open>The masks are bytes that are widened to a word when they are passed on.\<close>

definition conv_bin2ascii :: "byte \<Rightarrow> byte" where
  "conv_bin2ascii a =
     (let a = a AND 0x3f;
          ret = constant_time_select_8 (ucast (constant_time_eq_8 (ucast a) 62)) 0x2b 0x2f;
          ret = constant_time_select_8 (ucast (constant_time_lt_args_8 a 62)) (a - 52 + 0x30) ret;
          ret = constant_time_select_8 (ucast (constant_time_lt_args_8 a 52)) (a - 26 + 0x61) ret
      in constant_time_select_8 (ucast (constant_time_lt_args_8 a 26)) (a + 0x41) ret)"

definition base64_ascii_to_bin :: "byte \<Rightarrow> byte" where
  "base64_ascii_to_bin a =
     (let is_upper = constant_time_in_range_8 a 0x41 0x5a;
          is_lower = constant_time_in_range_8 a 0x61 0x7a;
          is_digit = constant_time_in_range_8 a 0x30 0x39;
          is_plus = constant_time_eq_8 (ucast a) 0x2b;
          is_slash = constant_time_eq_8 (ucast a) 0x2f;
          is_equals = constant_time_eq_8 (ucast a) 0x3d;
          ret = 0;
          ret = ret OR (is_upper AND (a - 0x41));
          ret = ret OR (is_lower AND (a - 0x61 + 26));
          ret = ret OR (is_digit AND (a - 0x30 + 52));
          ret = ret OR (is_plus AND 62);
          ret = ret OR (is_slash AND 63);
          is_valid = is_upper OR is_lower OR is_digit OR is_plus OR is_slash OR is_equals
      in ret OR NOT is_valid)"

section \<open>Encoding\<close>

definition EVP_EncodedLength :: "nat \<Rightarrow> nat option" where
  "EVP_EncodedLength len =
     (if size_add len 2 < len then None
      else
        let len = size_add len 2 div 3
        in if size_mul len 4 div 4 \<noteq> len then None
           else
             let len = size_mul len 4
             in if size_add len 1 < len then None else Some (size_add len 1))"

record evp_encode_ctx =
  data_used :: nat
  ctx_data :: block
  eof_seen :: bool
  error_encountered :: bool

definition EVP_EncodeInit :: evp_encode_ctx where
  "EVP_EncodeInit = \<lparr>data_used = 0, ctx_data = replicate 48 0, eof_seen = False, error_encountered = False\<rparr>"

definition EVP_ENCODE_CTX_new :: "malloc \<Rightarrow> evp_encode_ctx option" where
  "EVP_ENCODE_CTX_new m = map_option (\<lambda>_. EVP_EncodeInit) (OPENSSL_zalloc m 56)"

fun EVP_EncodeBlock_loop :: "byte list \<Rightarrow> byte list" where
  "EVP_EncodeBlock_loop [] = []"
| "EVP_EncodeBlock_loop [s0] =
     (let l = push_bit 16 (ucast s0) :: uint32
      in [conv_bin2ascii (ucast (drop_bit 18 l)), conv_bin2ascii (ucast (drop_bit 12 l)), 0x3d, 0x3d])"
| "EVP_EncodeBlock_loop [s0, s1] =
     (let l = push_bit 16 (ucast s0) :: uint32;
          l = l OR push_bit 8 (ucast s1)
      in [conv_bin2ascii (ucast (drop_bit 18 l)), conv_bin2ascii (ucast (drop_bit 12 l)),
          conv_bin2ascii (ucast (drop_bit 6 l)), 0x3d])"
| "EVP_EncodeBlock_loop (s0 # s1 # s2 # src) =
     (let l = push_bit 16 (ucast s0) OR push_bit 8 (ucast s1) OR ucast s2 :: uint32
      in conv_bin2ascii (ucast (drop_bit 18 l)) # conv_bin2ascii (ucast (drop_bit 12 l)) #
         conv_bin2ascii (ucast (drop_bit 6 l)) # conv_bin2ascii (ucast l) # EVP_EncodeBlock_loop src)"

text \<open>The encoding and the return value, its length.\<close>

definition EVP_EncodeBlock :: "byte list \<Rightarrow> byte list \<times> nat" where
  "EVP_EncodeBlock src = (EVP_EncodeBlock_loop src, length (EVP_EncodeBlock_loop src))"

text \<open>The loop over whole lines: whether the count overflowed, the count, the output and what is
  left of the input.\<close>

function EVP_EncodeUpdate_loop :: "nat \<Rightarrow> byte list \<Rightarrow> byte list \<Rightarrow> bool \<times> nat \<times> byte list \<times> byte list" where
  "EVP_EncodeUpdate_loop bytes_total out inp =
     (if length inp \<ge> 48 then
        let (line, encoded) = EVP_EncodeBlock (take 48 inp);
            inp = drop 48 inp;
            out = out @ line @ [0x0a]
        in if size_add (size_add bytes_total encoded) 1 < bytes_total then (True, bytes_total, out, inp)
           else EVP_EncodeUpdate_loop (size_add (size_add bytes_total encoded) 1) out inp
      else (False, bytes_total, out, inp))"
  by pat_completeness auto
termination
  by (relation "measure (\<lambda>(_, _, inp). length inp)") auto

declare EVP_EncodeUpdate_loop.simps [simp del]

text \<open>The context, the bytes written to \<open>out\<close>, and \<open>*out_len\<close>.\<close>

definition EVP_EncodeUpdate :: "evp_encode_ctx \<Rightarrow> byte list \<Rightarrow> evp_encode_ctx \<times> byte list \<times> nat" where
  "EVP_EncodeUpdate ctx inp =
     (if length inp = 0 then (ctx, [], 0)
      else if 48 - data_used ctx > length inp then
        (ctx\<lparr>ctx_data := poke (ctx_data ctx) (data_used ctx) inp, data_used := data_used ctx + length inp\<rparr>, [], 0)
      else
        let (ctx, bytes_total, out, inp) =
              (if data_used ctx \<noteq> 0 then
                 let todo = 48 - data_used ctx;
                     ctx = ctx\<lparr>ctx_data := poke (ctx_data ctx) (data_used ctx) (take todo inp)\<rparr>;
                     (line, encoded) = EVP_EncodeBlock (ctx_data ctx)
                 in (ctx\<lparr>data_used := 0\<rparr>, encoded + 1, line @ [0x0a], drop todo inp)
               else (ctx, 0, [], inp))
        in (case EVP_EncodeUpdate_loop bytes_total out inp of
              (True, _, out, _) \<Rightarrow> (ctx, out, 0)
            | (False, bytes_total, out, inp) \<Rightarrow>
                let ctx = (if length inp \<noteq> 0 then ctx\<lparr>ctx_data := poke (ctx_data ctx) 0 inp\<rparr> else ctx);
                    ctx = ctx\<lparr>data_used := length inp\<rparr>
                in (ctx, out, if bytes_total > INT_MAX then 0 else bytes_total)))"

definition EVP_EncodeFinal :: "evp_encode_ctx \<Rightarrow> evp_encode_ctx \<times> byte list \<times> nat" where
  "EVP_EncodeFinal ctx =
     (if data_used ctx = 0 then (ctx, [], 0)
      else
        let (line, encoded) = EVP_EncodeBlock (take (data_used ctx) (ctx_data ctx))
        in (ctx\<lparr>data_used := 0\<rparr>, line @ [0x0a], encoded + 1))"

section \<open>Decoding\<close>

definition EVP_DecodedLength :: "nat \<Rightarrow> nat option" where
  "EVP_DecodedLength len = (if len mod 4 \<noteq> 0 then None else Some (len div 4 * 3))"

definition EVP_DecodeInit :: evp_encode_ctx where
  "EVP_DecodeInit = \<lparr>data_used = 0, ctx_data = replicate 48 0, eof_seen = False, error_encountered = False\<rparr>"

text \<open>The bytes of a quad of characters; the padding pattern is the list of its four bits.\<close>

definition base64_decode_quad :: "byte list \<Rightarrow> byte list option" where
  "base64_decode_quad inp =
     (let a = base64_ascii_to_bin (inp ! 0);
          b = base64_ascii_to_bin (inp ! 1);
          c = base64_ascii_to_bin (inp ! 2);
          d = base64_ascii_to_bin (inp ! 3)
      in if a = 0xff \<or> b = 0xff \<or> c = 0xff \<or> d = 0xff then None
         else
           let v = push_bit 18 (ucast a) OR push_bit 12 (ucast b) OR push_bit 6 (ucast c) OR ucast d :: uint32;
               padding_pattern = map (\<lambda>c. c = 0x3d) (take 4 inp)
           in if padding_pattern = [False, False, False, False] then
                Some [ucast (drop_bit 16 v), ucast (drop_bit 8 v), ucast v]
              else if padding_pattern = [False, False, False, True] then
                Some [ucast (drop_bit 16 v), ucast (drop_bit 8 v)]
              else if padding_pattern = [False, False, True, True] then
                Some [ucast (drop_bit 16 v)]
              else None)"

text \<open>The loop of the streaming decoder: whether it failed, the context and the output.\<close>

fun EVP_DecodeUpdate_loop :: "evp_encode_ctx \<Rightarrow> byte list \<Rightarrow> byte list \<Rightarrow> bool \<times> evp_encode_ctx \<times> byte list" where
  "EVP_DecodeUpdate_loop ctx out [] = (False, ctx, out)"
| "EVP_DecodeUpdate_loop ctx out (c # inp) =
     (if c = 0x20 \<or> c = 0x09 \<or> c = 0x0d \<or> c = 0x0a then EVP_DecodeUpdate_loop ctx out inp
      else if eof_seen ctx then (True, ctx\<lparr>error_encountered := True\<rparr>, out)
      else
        let ctx = ctx\<lparr>ctx_data := poke (ctx_data ctx) (data_used ctx) [c], data_used := data_used ctx + 1\<rparr>
        in if data_used ctx = 4 then
             (case base64_decode_quad (take 4 (ctx_data ctx)) of
                None \<Rightarrow> (True, ctx\<lparr>error_encountered := True\<rparr>, out)
              | Some bytes \<Rightarrow>
                  let ctx = ctx\<lparr>data_used := 0\<rparr>;
                      ctx = (if length bytes < 3 then ctx\<lparr>eof_seen := True\<rparr> else ctx)
                  in EVP_DecodeUpdate_loop ctx (out @ bytes) inp)
           else EVP_DecodeUpdate_loop ctx out inp)"

text \<open>The context, the bytes written, \<open>*out_len\<close> and the return value.\<close>

definition EVP_DecodeUpdate :: "evp_encode_ctx \<Rightarrow> byte list \<Rightarrow> evp_encode_ctx \<times> byte list \<times> nat \<times> int" where
  "EVP_DecodeUpdate ctx inp =
     (if error_encountered ctx then (ctx, [], 0, -1)
      else
        (case EVP_DecodeUpdate_loop ctx [] inp of
           (True, ctx, out) \<Rightarrow> (ctx, out, 0, -1)
         | (False, ctx, out) \<Rightarrow>
             if length out > INT_MAX then (ctx\<lparr>error_encountered := True\<rparr>, out, 0, -1)
             else (ctx, out, length out, if eof_seen ctx then 0 else 1)))"

definition EVP_DecodeFinal :: "evp_encode_ctx \<Rightarrow> nat \<times> int" where
  "EVP_DecodeFinal ctx = (0, if error_encountered ctx \<or> data_used ctx \<noteq> 0 then -1 else 1)"

fun EVP_DecodeBase64_loop :: "byte list \<Rightarrow> byte list option" where
  "EVP_DecodeBase64_loop (c0 # c1 # c2 # c3 # inp) =
     (case base64_decode_quad [c0, c1, c2, c3] of
        None \<Rightarrow> None
      | Some bytes \<Rightarrow>
          if length bytes \<noteq> 3 \<and> inp \<noteq> [] then None
          else map_option ((@) bytes) (EVP_DecodeBase64_loop inp))"
| "EVP_DecodeBase64_loop _ = Some []"

definition EVP_DecodeBase64 :: "nat \<Rightarrow> byte list \<Rightarrow> byte list option" where
  "EVP_DecodeBase64 max_out inp =
     (if length inp mod 4 \<noteq> 0 then None
      else (case EVP_DecodedLength (length inp) of
              None \<Rightarrow> None
            | Some max_len \<Rightarrow> if max_out < max_len then None else EVP_DecodeBase64_loop inp))"

text \<open>The bytes of the block and the return value.\<close>

definition EVP_DecodeBlock :: "byte list \<Rightarrow> byte list \<times> int" where
  "EVP_DecodeBlock src =
     (let src = dropWhile (\<lambda>c. c = 0x20 \<or> c = 0x09) src;
          src = rev (dropWhile (\<lambda>c. c = 0x20 \<or> c = 0x09 \<or> c = 0x0d \<or> c = 0x0a) (rev src))
      in case EVP_DecodedLength (length src) of
           None \<Rightarrow> ([], -1)
         | Some dst_len \<Rightarrow>
             if dst_len > INT_MAX then ([], -1)
             else (case EVP_DecodeBase64 dst_len src of
                     None \<Rightarrow> ([], -1)
                   | Some dst \<Rightarrow>
                       let dst = dst @ replicate ((3 - length dst mod 3) mod 3) 0
                       in (dst, int (length dst))))"

section \<open>The alphabet\<close>

definition b64_char :: "nat \<Rightarrow> byte" where
  "b64_char n =
     (if n < 26 then 0x41 + of_nat n else if n < 52 then 0x61 + of_nat (n - 26)
      else if n < 62 then 0x30 + of_nat (n - 52) else if n = 62 then 0x2b else 0x2f)"

lemma lt_args_8: "constant_time_lt_args_8 a b = (if a < b then -1 else 0)"
proof -
  have u: "unat (ucast a :: uint64) = unat a" "unat (ucast b :: uint64) = unat b" by (simp_all add: unat_ucast_up)
  have "bit (ucast a - ucast b :: uint64) 63 \<longleftrightarrow> unat a < unat b"
  proof (cases "unat b \<le> unat a")
    case True
    then have "unat (ucast a - ucast b :: uint64) = unat a - unat b" using u by (simp add: unat_sub word_le_nat_alt)
    then show ?thesis using True unat_byte_less [of a] unfolding bit_63 by linarith
  next
    case False
    then have "unat (ucast a - ucast b :: uint64) = unat a + 18446744073709551616 - unat b"
      using u by (simp add: unat_sub_if')
    then show ?thesis using False unat_byte_less [of b] unfolding bit_63 by linarith
  qed
  then show ?thesis by (simp add: constant_time_lt_args_8_def msb_w word_less_nat_alt ucast_minus_1)
qed

lemma in_range_8:
  assumes "unat lo \<le> unat hi" "unat hi < 255"
  shows "constant_time_in_range_8 a lo hi = (if unat lo \<le> unat a \<and> unat a \<le> unat hi then -1 else 0)"
proof -
  have d: "unat (hi - lo + 1) = unat hi - unat lo + 1"
    using assms by (simp add: unat_word_ariths unat_sub word_le_nat_alt)
  have "unat (a - lo) = (if unat lo \<le> unat a then unat a - unat lo else unat a + 256 - unat lo)"
    by (simp add: unat_sub_if')
  then have "a - lo < hi - lo + 1 \<longleftrightarrow> unat lo \<le> unat a \<and> unat a \<le> unat hi"
    using assms unat_byte_less [of a] by (auto simp: word_less_nat_alt d)
  then show ?thesis by (simp add: constant_time_in_range_8_def lt_args_8)
qed

lemma masks: "(-1 :: byte) AND x = x" "(0 :: byte) AND x = 0" "(-1 :: byte) OR x = -1" "(0 :: byte) OR x = x"
  by simp_all

lemma widen_mask: "constant_time_select_8 (ucast (if P then -1 else 0 :: byte)) x y = (if P then x else y)"
proof -
  have "(ucast (ucast (-1 :: byte) :: uint64) :: byte) = -1" by code_simp
  then show ?thesis by (simp add: constant_time_select_8_def)
qed

lemma conv_char: "conv_bin2ascii a = b64_char (unat a mod 64)"
proof -
  have m: "unat (a AND 0x3f) = unat a mod 64"
    using unat_and_mask [of a 6] by (simp add: mask_eq_exp_minus_1)
  have a: "a AND 0x3f = of_nat (unat a mod 64)" by (rule byte_eqI) (simp add: m)
  have eq: "(ucast (a AND 0x3f) :: uint64) = 62 \<longleftrightarrow> unat a mod 64 = 62"
    using m by (simp add: word_unat_eq_iff unat_ucast_up)
  have lt: "(a AND 0x3f < 62) = (unat a mod 64 < 62)" "(a AND 0x3f < 52) = (unat a mod 64 < 52)"
    "(a AND 0x3f < 26) = (unat a mod 64 < 26)"
    using m by (simp_all add: word_less_nat_alt)
  define n where "n = unat a mod 64"
  show ?thesis
    unfolding conv_bin2ascii_def Let_def masks_8 lt_args_8 widen_mask eq lt b64_char_def n_def [symmetric]
    unfolding a n_def [symmetric] by (simp add: of_nat_diff)
qed

lemma ascii_to_bin:
  "base64_ascii_to_bin a =
     (if 65 \<le> unat a \<and> unat a \<le> 90 then a - 0x41
      else if 97 \<le> unat a \<and> unat a \<le> 122 then a - 0x61 + 26
      else if 48 \<le> unat a \<and> unat a \<le> 57 then a - 0x30 + 52
      else if unat a = 43 then 62 else if unat a = 47 then 63 else if unat a = 61 then 0 else 0xff)"
proof -
  have e: "(ucast a :: uint64) = 0x2b \<longleftrightarrow> unat a = 43" "(ucast a :: uint64) = 0x2f \<longleftrightarrow> unat a = 47"
    "(ucast a :: uint64) = 0x3d \<longleftrightarrow> unat a = 61"
    by (simp_all add: word_unat_eq_iff unat_ucast_up)
  have r: "constant_time_in_range_8 a 0x41 0x5a = (if 65 \<le> unat a \<and> unat a \<le> 90 then -1 else 0)"
    "constant_time_in_range_8 a 0x61 0x7a = (if 97 \<le> unat a \<and> unat a \<le> 122 then -1 else 0)"
    "constant_time_in_range_8 a 0x30 0x39 = (if 48 \<le> unat a \<and> unat a \<le> 57 then -1 else 0)"
    by (simp_all add: in_range_8)
  have f: "(0xff :: byte) = -1" by code_simp
  show ?thesis
    unfolding base64_ascii_to_bin_def Let_def masks_8 r e f by auto
qed

lemma unat_b64_char:
  assumes "n < 64"
  shows "unat (b64_char n) = (if n < 26 then 65 + n else if n < 52 then 71 + n else if n < 62 then n - 4 else if n = 62 then 43 else 47)"
proof -
  consider "n < 26" | k where "n = 26 + k" "k < 26" | k where "n = 52 + k" "k < 10" | "n = 62" | "n = 63"
    using assms le_Suc_ex [of 26 n] le_Suc_ex [of 52 n] by fastforce
  then show ?thesis by cases (simp_all add: b64_char_def unat_word_ariths)
qed

lemma char_bin:
  assumes "n < 64"
  shows "base64_ascii_to_bin (b64_char n) = of_nat n" "b64_char n \<noteq> 0x3d" "base64_ascii_to_bin (b64_char n) \<noteq> 0xff"
    "b64_char n \<noteq> 0x20" "b64_char n \<noteq> 0x09" "b64_char n \<noteq> 0x0d" "b64_char n \<noteq> 0x0a"
proof -
  have ff: "(of_nat n :: byte) \<noteq> 0xff" using assms by (simp add: word_unat_eq_iff unat_of_nat)
  consider "n < 26" | k where "n = 26 + k" "k < 26" | k where "n = 52 + k" "k < 10" | "n = 62" | "n = 63"
    using assms le_Suc_ex [of 26 n] le_Suc_ex [of 52 n] by fastforce
  then show bin: "base64_ascii_to_bin (b64_char n) = of_nat n"
    by cases (simp_all add: ascii_to_bin unat_b64_char, simp_all add: b64_char_def)
  show "base64_ascii_to_bin (b64_char n) \<noteq> 0xff" using bin ff by simp
  show "b64_char n \<noteq> 0x3d" "b64_char n \<noteq> 0x20" "b64_char n \<noteq> 0x09" "b64_char n \<noteq> 0x0d" "b64_char n \<noteq> 0x0a"
    using unat_b64_char [OF assms] by (auto split: if_splits)
qed

lemma bin_pad: "base64_ascii_to_bin 0x3d = 0" by (simp add: ascii_to_bin)

section \<open>Quads\<close>

text \<open>The word \<open>l\<close> of the encoder, and the sextets of three bytes.\<close>

lemma word24:
  "unat (push_bit 16 (ucast s0) OR push_bit 8 (ucast s1) OR ucast s2 :: uint32) =
     65536 * unat (s0 :: byte) + 256 * unat (s1 :: byte) + unat (s2 :: byte)"
proof -
  have u: "unat (ucast s :: uint32) = unat s" for s :: byte by (simp add: unat_ucast_up)
  have b: "unat s1 * 256 + unat s2 < 65536" "unat s0 * 65536 + (256 * unat s1 + unat s2) < 4294967296"
    using unat_byte_less [of s0] unat_byte_less [of s1] unat_byte_less [of s2] by linarith+
  have low: "unat (push_bit 8 (ucast s1) OR ucast s2 :: uint32) = 256 * unat s1 + unat s2"
    using b by (subst unat_shift_or) (simp_all add: u)
  show ?thesis using b by (subst unat_shift_or) (simp_all add: low u)
qed

lemma sextets32:
  "unat (ucast (drop_bit 18 l) :: byte) mod 64 = unat (l :: uint32) div 262144 mod 64"
  "unat (ucast (drop_bit 12 l) :: byte) mod 64 = unat l div 4096 mod 64"
  "unat (ucast (drop_bit 6 l) :: byte) mod 64 = unat l div 64 mod 64"
  "unat (ucast l :: byte) mod 64 = unat l mod 64"
  by (simp_all add: unat_drop_bit unat_ucast_down mod_mod_cancel)

text \<open>The four characters of a 24-bit number.\<close>

definition b64_quad :: "nat \<Rightarrow> byte list" where
  "b64_quad n = [b64_char (n div 262144 mod 64), b64_char (n div 4096 mod 64), b64_char (n div 64 mod 64), b64_char (n mod 64)]"

lemma quad_value:
  assumes "n < 16777216"
  shows "262144 * (n div 262144 mod 64) + 4096 * (n div 4096 mod 64) + 64 * (n div 64 mod 64) + n mod 64 = (n :: nat)"
proof -
  have d: "n div 4096 = n div 64 div 64" "n div 262144 = n div 64 div 64 div 64" by (simp_all flip: div_mult2_eq)
  have "n div 64 div 64 div 64 < 64" using assms by (simp flip: div_mult2_eq add: less_mult_imp_div_less)
  then have "n div 64 div 64 div 64 mod 64 = n div 64 div 64 div 64" by simp
  then show ?thesis
    unfolding d using div_mult_mod_eq [of n 64] div_mult_mod_eq [of "n div 64" 64] div_mult_mod_eq [of "n div 64 div 64" 64]
    by linarith
qed

lemma decode_word:
  assumes "p < 64" "q < 64" "r < 64" "s < 64"
  shows "unat (push_bit 18 (ucast (of_nat p :: byte)) OR push_bit 12 (ucast (of_nat q :: byte)) OR
               push_bit 6 (ucast (of_nat r :: byte)) OR ucast (of_nat s :: byte) :: uint32) =
         262144 * p + 4096 * q + 64 * r + s"
proof -
  have u: "unat (ucast (of_nat k :: byte) :: uint32) = k" if "k < 64" for k
    using that by (simp add: unat_ucast_up unat_of_nat)
  have 1: "unat (push_bit 6 (ucast (of_nat r :: byte)) OR ucast (of_nat s :: byte) :: uint32) = 64 * r + s"
    using assms by (subst unat_shift_or) (simp_all add: u)
  have 2: "unat (push_bit 12 (ucast (of_nat q :: byte)) OR push_bit 6 (ucast (of_nat r :: byte)) OR ucast (of_nat s :: byte) :: uint32)
      = 4096 * q + 64 * r + s"
    using assms by (subst unat_shift_or) (simp_all only: u 1, simp_all)
  show ?thesis using assms by (subst unat_shift_or) (simp_all only: u 2, simp_all)
qed

lemma word_bytes:
  "(ucast (drop_bit 16 l) :: byte) = of_nat (unat (l :: uint32) div 65536)"
  "(ucast (drop_bit 8 l) :: byte) = of_nat (unat l div 256)"
  "(ucast l :: byte) = of_nat (unat l)"
  by (simp_all add: word_unat_eq_iff unat_drop_bit unat_ucast_down unat_of_nat)

lemma decode_quad_eq:
  assumes "base64_ascii_to_bin c0 = of_nat p" "base64_ascii_to_bin c1 = of_nat q"
    "base64_ascii_to_bin c2 = of_nat r" "base64_ascii_to_bin c3 = of_nat s"
    and less: "p < 64" "q < 64" "r < 64" "s < 64" and pad: "c0 \<noteq> 0x3d" "c1 \<noteq> 0x3d"
  defines "n \<equiv> 262144 * p + 4096 * q + 64 * r + s"
  shows "base64_decode_quad [c0, c1, c2, c3] =
    (if c3 \<noteq> 0x3d then if c2 = 0x3d then None else Some [of_nat (n div 65536), of_nat (n div 256), of_nat n]
     else if c2 = 0x3d then Some [of_nat (n div 65536)]
     else Some [of_nat (n div 65536), of_nat (n div 256)])"
proof -
  define v where "v = (push_bit 18 (ucast (of_nat p :: byte)) OR push_bit 12 (ucast (of_nat q :: byte)) OR
               push_bit 6 (ucast (of_nat r :: byte)) OR ucast (of_nat s :: byte) :: uint32)"
  have v: "unat v = n" unfolding v_def n_def by (rule decode_word [OF less])
  have ff: "(of_nat k :: byte) = 0xff \<longleftrightarrow> False" if "k < 64" for k
    using that by (simp add: word_unat_eq_iff unat_of_nat)
  have i: "[c0, c1, c2, c3] ! 0 = c0" "[c0, c1, c2, c3] ! 1 = c1" "[c0, c1, c2, c3] ! 2 = c2" "[c0, c1, c2, c3] ! 3 = c3"
    by simp_all
  show ?thesis
    unfolding base64_decode_quad_def Let_def i assms(1-4) v_def [symmetric] word_bytes(1,2) ff [OF less(1)] ff [OF less(2)]
      ff [OF less(3)] ff [OF less(4)]
    unfolding word_bytes(3) v using pad by simp
qed

lemma bytes24:
  "(of_nat ((65536 * unat s0 + 256 * unat s1 + unat s2) div 65536) :: byte) = s0"
  "(of_nat ((65536 * unat s0 + 256 * unat s1 + unat s2) div 256) :: byte) = s1"
  "(of_nat (65536 * unat s0 + 256 * unat s1 + unat s2) :: byte) = s2"
proof -
  let ?n = "65536 * unat s0 + 256 * unat s1 + unat s2"
  have b: "unat s0 < 256" "unat s1 < 256" "unat s2 < 256" by simp_all
  have n: "?n = unat s2 + (256 * unat s0 + unat s1) * 256" by simp
  have d: "?n div 256 = 256 * unat s0 + unat s1" "?n mod 256 = unat s2"
    unfolding n div_mult_self1 [OF zero_neq_numeral [symmetric]] mod_mult_self1 by simp_all
  have "?n div 65536 = ?n div 256 div 256" by (simp flip: div_mult2_eq)
  also have "\<dots> = unat s0" unfolding d using b(2) by simp
  finally have d': "?n div 65536 = unat s0" .
  show "(of_nat (?n div 65536) :: byte) = s0" unfolding d' by simp
  show "(of_nat (?n div 256) :: byte) = s1" unfolding d by (rule byte_eqI) (simp only: unat_of_nat_byte mod_mult_self4, simp)
  show "(of_nat ?n :: byte) = s2" by (rule byte_eqI) (simp only: unat_of_nat_byte d)
qed

abbreviation (input) w24 :: "byte \<Rightarrow> byte \<Rightarrow> byte \<Rightarrow> nat" where
  "w24 s0 s1 s2 \<equiv> 65536 * unat s0 + 256 * unat s1 + unat s2"

lemma w24_less: "w24 s0 s1 s2 < 16777216"
  using unat_byte_less [of s0] unat_byte_less [of s1] unat_byte_less [of s2] by linarith

lemma conv_word:
  "conv_bin2ascii (ucast (drop_bit 18 (l :: uint32))) = b64_char (unat l div 262144 mod 64)"
  "conv_bin2ascii (ucast (drop_bit 12 l)) = b64_char (unat l div 4096 mod 64)"
  "conv_bin2ascii (ucast (drop_bit 6 l)) = b64_char (unat l div 64 mod 64)"
  "conv_bin2ascii (ucast l) = b64_char (unat l mod 64)"
  unfolding conv_char sextets32(1-3) by (simp_all only: sextets32(4))

lemma encode_3: "EVP_EncodeBlock_loop (s0 # s1 # s2 # src) = b64_quad (w24 s0 s1 s2) @ EVP_EncodeBlock_loop src"
  unfolding EVP_EncodeBlock_loop.simps Let_def conv_word(1-3) unfolding conv_word(4) word24 b64_quad_def by simp

lemma encode_tail:
  "EVP_EncodeBlock_loop [s0] = take 2 (b64_quad (w24 s0 0 0)) @ [0x3d, 0x3d]"
  "EVP_EncodeBlock_loop [s0, s1] = take 3 (b64_quad (w24 s0 s1 0)) @ [0x3d]"
proof -
  have "unat (push_bit 16 (ucast s0) :: uint32) = w24 s0 0 0" using word24 [of s0 0 0] by simp
  then show "EVP_EncodeBlock_loop [s0] = take 2 (b64_quad (w24 s0 0 0)) @ [0x3d, 0x3d]"
    unfolding EVP_EncodeBlock_loop.simps Let_def conv_word(1-3) b64_quad_def by simp
  have "unat (push_bit 16 (ucast s0) OR push_bit 8 (ucast s1) :: uint32) = w24 s0 s1 0" using word24 [of s0 s1 0] by simp
  then show "EVP_EncodeBlock_loop [s0, s1] = take 3 (b64_quad (w24 s0 s1 0)) @ [0x3d]"
    unfolding EVP_EncodeBlock_loop.simps Let_def conv_word(1-3) b64_quad_def by simp
qed

lemma quad_decodes:
  "base64_decode_quad (b64_quad (w24 s0 s1 s2)) = Some [s0, s1, s2]"
  "base64_decode_quad (take 3 (b64_quad (w24 s0 s1 0)) @ [0x3d]) = Some [s0, s1]"
  "base64_decode_quad (take 2 (b64_quad (w24 s0 0 0)) @ [0x3d, 0x3d]) = Some [s0]"
proof -
  have less: "n mod 64 < 64" for n :: nat by simp
  note chars = char_bin(1) [OF less] and ne = char_bin(2) [OF less]
  have pad: "base64_ascii_to_bin 0x3d = of_nat 0" by (simp add: bin_pad)
  note v = quad_value [OF w24_less]
  show "base64_decode_quad (b64_quad (w24 s0 s1 s2)) = Some [s0, s1, s2]"
    unfolding b64_quad_def decode_quad_eq [OF chars chars chars chars less less less less ne ne] v bytes24
    using ne by simp
  have "w24 s0 s1 0 mod 64 = 0" "w24 s0 0 0 mod 64 = 0" "w24 s0 0 0 div 64 mod 64 = 0"
    by (simp_all add: mod_eq_0_iff_dvd)
  then have v': "262144 * (w24 s0 s1 0 div 262144 mod 64) + 4096 * (w24 s0 s1 0 div 4096 mod 64) + 64 * (w24 s0 s1 0 div 64 mod 64) + 0 = w24 s0 s1 0"
      "262144 * (w24 s0 0 0 div 262144 mod 64) + 4096 * (w24 s0 0 0 div 4096 mod 64) + 64 * 0 + 0 = w24 s0 0 0"
    using v [of s0 s1 0] v [of s0 0 0] by linarith+
  have t: "take 3 (b64_quad n) @ [0x3d] = [b64_char (n div 262144 mod 64), b64_char (n div 4096 mod 64), b64_char (n div 64 mod 64), 0x3d]"
    "take 2 (b64_quad n) @ [0x3d, 0x3d] = [b64_char (n div 262144 mod 64), b64_char (n div 4096 mod 64), 0x3d, 0x3d]" for n
    by (simp_all add: b64_quad_def)
  have z: "(0 :: nat) < 64" by simp
  show "base64_decode_quad (take 3 (b64_quad (w24 s0 s1 0)) @ [0x3d]) = Some [s0, s1]"
    unfolding t decode_quad_eq [OF chars chars chars pad less less less z ne ne] v' bytes24 using ne by simp
  show "base64_decode_quad (take 2 (b64_quad (w24 s0 0 0)) @ [0x3d, 0x3d]) = Some [s0]"
    unfolding t decode_quad_eq [OF chars chars pad pad less less z z ne ne] v' bytes24 by simp
qed

section \<open>Block round trip\<close>

declare EVP_EncodeBlock_loop.simps(2-4) [simp del]

lemma quad_length [simp]: "length (b64_quad n) = 4" by (simp add: b64_quad_def)

lemma length_encode: "length (EVP_EncodeBlock_loop src) = (length src + 2) div 3 * 4"
proof (induction src rule: EVP_EncodeBlock_loop.induct)
  case (4 s0 s1 s2 src)
  have "(length (s0 # s1 # s2 # src) + 2) div 3 = Suc ((length src + 2) div 3)" by simp
  then show ?case using 4 by (simp only: encode_3 length_append quad_length mult_Suc)
qed (simp_all add: encode_tail)

lemma decode_base64_quad:
  assumes "length q = 4"
  shows "EVP_DecodeBase64_loop (q @ inp) =
    (case base64_decode_quad q of None \<Rightarrow> None
     | Some bytes \<Rightarrow> if length bytes \<noteq> 3 \<and> inp \<noteq> [] then None else map_option ((@) bytes) (EVP_DecodeBase64_loop inp))"
  using assms by (auto simp: numeral_eq_Suc length_Suc_conv)

lemma decode_base64_encode: "EVP_DecodeBase64_loop (EVP_EncodeBlock_loop src) = Some src"
proof (induction src rule: EVP_EncodeBlock_loop.induct)
  case (2 s0)
  then show ?case using decode_base64_quad [of "take 2 (b64_quad (w24 s0 0 0)) @ [0x3d, 0x3d]" "[]"]
    by (simp add: encode_tail quad_decodes [simplified])
next
  case (3 s0 s1)
  then show ?case using decode_base64_quad [of "take 3 (b64_quad (w24 s0 s1 0)) @ [0x3d]" "[]"]
    by (simp add: encode_tail quad_decodes [simplified])
next
  case (4 s0 s1 s2 src)
  then show ?case by (simp add: encode_3 decode_base64_quad quad_decodes)
qed simp

section \<open>Streaming\<close>

text \<open>The lines of an input, each the encoding of 48 bytes, and what is left after them.\<close>

function b64_lines :: "byte list \<Rightarrow> byte list" where
  "b64_lines bs = (if length bs \<ge> 48 then EVP_EncodeBlock_loop (take 48 bs) @ [0x0a] @ b64_lines (drop 48 bs) else [])"
  by pat_completeness auto
termination by (relation "measure length") auto

function b64_rest :: "byte list \<Rightarrow> byte list" where
  "b64_rest bs = (if length bs \<ge> 48 then b64_rest (drop 48 bs) else bs)"
  by pat_completeness auto
termination by (relation "measure length") auto

declare b64_lines.simps [simp del] b64_rest.simps [simp del]

definition b64_text :: "byte list \<Rightarrow> byte list" where
  "b64_text bs = b64_lines bs @ (if b64_rest bs = [] then [] else EVP_EncodeBlock_loop (b64_rest bs) @ [0x0a])"

lemma b64_short: "length bs < 48 \<Longrightarrow> b64_lines bs = [] \<and> b64_rest bs = bs"
  by (simp add: b64_lines.simps b64_rest.simps)

lemma b64_step:
  "48 \<le> length bs \<Longrightarrow> b64_lines bs = EVP_EncodeBlock_loop (take 48 bs) @ [0x0a] @ b64_lines (drop 48 bs)"
  "48 \<le> length bs \<Longrightarrow> b64_rest bs = b64_rest (drop 48 bs)"
  by (subst b64_lines.simps b64_rest.simps, simp)+

lemma b64_induct [case_names short step]:
  fixes bs :: "byte list"
  assumes "\<And>bs. length bs < 48 \<Longrightarrow> P bs" and "\<And>bs. 48 \<le> length bs \<Longrightarrow> P (drop 48 bs) \<Longrightarrow> P bs"
  shows "P bs"
proof (induction bs rule: b64_rest.induct)
  case (1 bs)
  then show ?case using assms not_le by blast
qed

lemma b64_rest_less: "length (b64_rest bs) < 48"
proof (induction bs rule: b64_induct)
  case (step bs)
  then show ?case using b64_step(2) [OF step(1)] by simp
qed (simp add: b64_short)

lemma b64_append:
  "b64_lines (xs @ ys) = b64_lines xs @ b64_lines (b64_rest xs @ ys) \<and> b64_rest (xs @ ys) = b64_rest (b64_rest xs @ ys)"
proof (induction xs rule: b64_induct)
  case (step xs)
  then have "48 \<le> length (xs @ ys)" by simp
  note b64_step [OF this] b64_step [OF step(1)]
  then show ?case using step by simp
qed (simp add: b64_short)

lemma length_b64_lines: "length (b64_lines bs) = 65 * (length bs div 48)"
proof (induction bs rule: b64_induct)
  case (step bs)
  then show ?case using b64_step(1) [OF step(1)] by (simp add: length_encode le_div_geq)
qed (simp add: b64_short)

text \<open>The invariant of an encoding context, and the bytes it holds back.\<close>

definition encoder_ok :: "evp_encode_ctx \<Rightarrow> bool" where
  "encoder_ok ctx \<longleftrightarrow> length (ctx_data ctx) = 48 \<and> data_used ctx < 48"

definition pending :: "evp_encode_ctx \<Rightarrow> byte list" where
  "pending ctx = take (data_used ctx) (ctx_data ctx)"

lemma encode_update_loop:
  assumes "bytes_total + 65 * (length inp div 48) \<le> SIZE_MAX"
  shows "EVP_EncodeUpdate_loop bytes_total out inp =
         (False, bytes_total + length (b64_lines inp), out @ b64_lines inp, b64_rest inp)"
  using assms
proof (induction bytes_total out inp rule: EVP_EncodeUpdate_loop.induct)
  case (1 bytes_total out inp)
  show ?case
  proof (cases "48 \<le> length inp")
    case True
    then have l: "length inp div 48 = Suc (length (drop 48 inp) div 48)" by (simp add: le_div_geq)
    have e: "length (EVP_EncodeBlock_loop (take 48 inp)) = 64" using True by (simp add: length_encode)
    have s: "size_add (size_add bytes_total 64) 1 = bytes_total + 65"
      using "1.prems" l by (simp add: size_add_nowrap)
    have "EVP_EncodeUpdate_loop (bytes_total + 65) (out @ EVP_EncodeBlock_loop (take 48 inp) @ [0x0a]) (drop 48 inp) =
        (False, bytes_total + 65 + length (b64_lines (drop 48 inp)),
         (out @ EVP_EncodeBlock_loop (take 48 inp) @ [0x0a]) @ b64_lines (drop 48 inp), b64_rest (drop 48 inp))"
      using "1.IH" [OF True, of "EVP_EncodeBlock (take 48 inp)"] "1.prems" l True e s by (simp add: EVP_EncodeBlock_def)
    then show ?thesis
      using True e s b64_step [OF True]
      by (simp add: EVP_EncodeUpdate_loop.simps [of bytes_total] EVP_EncodeBlock_def)
  next
    case False
    then show ?thesis by (simp add: EVP_EncodeUpdate_loop.simps b64_short)
  qed
qed

lemma encode_update:
  assumes ok: "encoder_ok ctx" and len: "length inp \<le> 2 ^ 62"
  shows "\<exists>ctx'. EVP_EncodeUpdate ctx inp =
           (ctx', b64_lines (pending ctx @ inp),
            if length (b64_lines (pending ctx @ inp)) > INT_MAX then 0 else length (b64_lines (pending ctx @ inp))) \<and>
         encoder_ok ctx' \<and> pending ctx' = b64_rest (pending ctx @ inp)"
proof -
  have used: "data_used ctx < 48" "length (ctx_data ctx) = 48" using ok by (simp_all add: encoder_ok_def)
  have lp: "length (pending ctx) = data_used ctx" using used by (simp add: pending_def)
  show ?thesis
  proof (cases "inp = [] \<or> 48 - data_used ctx > length inp")
    case True
    then have short: "length (pending ctx @ inp) < 48" using used lp by auto
    show ?thesis using True used b64_short [OF short]
      by (auto simp: EVP_EncodeUpdate_def encoder_ok_def pending_def take_poke)
  next
    case False
    then have long: "48 \<le> length (pending ctx @ inp)" using used lp by auto
    define todo where "todo = (if data_used ctx \<noteq> 0 then 48 - data_used ctx else 0)"
    define start where "start = (if data_used ctx \<noteq> 0 then EVP_EncodeBlock_loop (pending ctx @ take todo inp) @ [0x0a] else [])"
    have t: "length (pending ctx @ take todo inp) = 48" if "data_used ctx \<noteq> 0"
      using that False used lp by (auto simp: todo_def)
    have parts: "start @ b64_lines (drop todo inp) = b64_lines (pending ctx @ inp)"
        "b64_rest (drop todo inp) = b64_rest (pending ctx @ inp)"
      using b64_step [OF long] used lp by (cases "data_used ctx = 0"; simp add: start_def todo_def)+
    have ls: "length start \<le> 65" using t by (simp add: start_def length_encode)
    define data where "data = (if data_used ctx \<noteq> 0 then poke (ctx_data ctx) (data_used ctx) (take todo inp) else ctx_data ctx)"
    have d: "length data = 48" using used False by (auto simp: data_def todo_def)
    have d': "data = pending ctx @ take todo inp" if "data_used ctx \<noteq> 0"
      using that used False by (auto simp: data_def poke_def todo_def pending_def)
    have "48 * (length (drop todo inp) div 48) \<le> length inp" by (rule order.trans [OF times_div_less_eq_dividend]) simp
    then have "length start + 65 * (length (drop todo inp) div 48) \<le> SIZE_MAX" using ls len by simp
    from encode_update_loop [OF this]
    have loop: "EVP_EncodeUpdate_loop (length start) start (drop todo inp) =
        (False, length (b64_lines (pending ctx @ inp)), b64_lines (pending ctx @ inp), b64_rest (pending ctx @ inp))"
      by (simp add: parts flip: length_append)
    define rest where "rest = b64_rest (pending ctx @ inp)"
    have lr: "length rest < 48" by (simp add: rest_def b64_rest_less)
    define ctx' where "ctx' = ctx\<lparr>ctx_data := if rest \<noteq> [] then poke data 0 rest else data, data_used := length rest\<rparr>"
    have "EVP_EncodeUpdate ctx inp = (ctx', b64_lines (pending ctx @ inp),
        if length (b64_lines (pending ctx @ inp)) > INT_MAX then 0 else length (b64_lines (pending ctx @ inp)))"
    proof (cases "data_used ctx = 0")
      case True
      then show ?thesis using False loop
        by (simp add: EVP_EncodeUpdate_def start_def todo_def data_def ctx'_def rest_def)
    next
      case u: False
      have "EVP_EncodeBlock data = (EVP_EncodeBlock_loop data, 64)" using d by (simp add: EVP_EncodeBlock_def length_encode)
      moreover have "start = EVP_EncodeBlock_loop data @ [0x0a]" "length start = 65"
        using u d' [OF u] d by (simp_all add: start_def length_encode)
      ultimately show ?thesis using u False loop
        by (simp add: EVP_EncodeUpdate_def Let_def todo_def data_def ctx'_def rest_def)
    qed
    moreover have "encoder_ok ctx'" "pending ctx' = rest"
      using lr d by (auto simp: ctx'_def encoder_ok_def pending_def take_poke)
    ultimately show ?thesis by (auto simp: rest_def)
  qed
qed

lemma encode_final:
  assumes "encoder_ok ctx"
  defines "out \<equiv> if pending ctx = [] then [] else EVP_EncodeBlock_loop (pending ctx) @ [0x0a]"
  shows "EVP_EncodeFinal ctx = (ctx\<lparr>data_used := 0\<rparr>, out, length out)"
proof -
  have "pending ctx = [] \<longleftrightarrow> data_used ctx = 0" using assms(1) by (auto simp: pending_def encoder_ok_def)
  then show ?thesis by (simp add: EVP_EncodeFinal_def EVP_EncodeBlock_def out_def pending_def)
qed

text \<open>A caller that feeds the encoder piece by piece and keeps the \<open>*out_len\<close> bytes of each
  call, and one that does so with the decoder and stops at an error.\<close>

fun encode_stream :: "evp_encode_ctx \<Rightarrow> byte list list \<Rightarrow> byte list" where
  "encode_stream ctx [] = (case EVP_EncodeFinal ctx of (_, out, n) \<Rightarrow> take n out)"
| "encode_stream ctx (inp # inps) =
     (case EVP_EncodeUpdate ctx inp of (ctx, out, n) \<Rightarrow> take n out @ encode_stream ctx inps)"

fun decode_stream :: "evp_encode_ctx \<Rightarrow> byte list list \<Rightarrow> byte list option" where
  "decode_stream ctx [] = (if snd (EVP_DecodeFinal ctx) = 1 then Some [] else None)"
| "decode_stream ctx (inp # inps) =
     (case EVP_DecodeUpdate ctx inp of
        (ctx, out, n, r) \<Rightarrow> if r = -1 then None else map_option ((@) (take n out)) (decode_stream ctx inps))"

lemma encode_stream_text:
  assumes "encoder_ok ctx" and "\<forall>c \<in> set inps. length c \<le> 2 ^ 30"
  shows "encode_stream ctx inps = b64_text (pending ctx @ concat inps)"
  using assms
proof (induction inps arbitrary: ctx)
  case Nil
  then have "length (pending ctx) < 48" by (auto simp: encoder_ok_def pending_def)
  then show ?case using encode_final [OF Nil(1)] b64_short [of "pending ctx"] by (simp add: b64_text_def)
next
  case (Cons inp inps)
  have len: "length inp \<le> 2 ^ 30" using Cons.prems by simp
  then have "length inp \<le> 2 ^ 62" by simp
  from encode_update [OF Cons.prems(1) this]
  obtain ctx' where u: "EVP_EncodeUpdate ctx inp = (ctx', b64_lines (pending ctx @ inp),
      if length (b64_lines (pending ctx @ inp)) > INT_MAX then 0 else length (b64_lines (pending ctx @ inp)))"
    "encoder_ok ctx'" "pending ctx' = b64_rest (pending ctx @ inp)" by blast
  have "length (pending ctx) < 48" using Cons.prems(1) by (auto simp: encoder_ok_def pending_def)
  then have "length (b64_lines (pending ctx @ inp)) \<le> INT_MAX"
    using len times_div_less_eq_dividend [of 48 "length (pending ctx @ inp)"] unfolding length_b64_lines by simp
  then have "encode_stream ctx (inp # inps) = b64_lines (pending ctx @ inp) @ b64_text (b64_rest (pending ctx @ inp) @ concat inps)"
    using u Cons.IH [OF u(2)] Cons.prems(2) by simp
  then show ?case using b64_append [of "pending ctx @ inp" "concat inps"] by (simp add: b64_text_def)
qed

subsection \<open>The decoder\<close>

declare EVP_DecodeUpdate_loop.simps(2) [simp del]

lemma decode_loop_append:
  "EVP_DecodeUpdate_loop ctx out (xs @ ys) =
     (case EVP_DecodeUpdate_loop ctx out xs of
        (True, ctx, out) \<Rightarrow> (True, ctx, out) | (False, ctx, out) \<Rightarrow> EVP_DecodeUpdate_loop ctx out ys)"
  by (induction ctx out xs rule: EVP_DecodeUpdate_loop.induct)
    (auto simp: EVP_DecodeUpdate_loop.simps(2) Let_def split: option.splits)

lemma decode_loop_out:
  "EVP_DecodeUpdate_loop ctx (pre @ out) xs =
     (case EVP_DecodeUpdate_loop ctx out xs of (e, ctx, out) \<Rightarrow> (e, ctx, pre @ out))"
  by (induction ctx out xs rule: EVP_DecodeUpdate_loop.induct)
    (auto simp: EVP_DecodeUpdate_loop.simps(2) Let_def split: option.splits prod.splits)

lemma decode_quad_length: "base64_decode_quad q = Some bytes \<Longrightarrow> length bytes \<le> 3"
  by (auto simp: base64_decode_quad_def Let_def split: if_splits)

lemma decode_loop_bound:
  assumes "EVP_DecodeUpdate_loop ctx out xs = (False, ctx', out')" and "data_used ctx < 4" "\<not> error_encountered ctx"
  shows "length out' + data_used ctx' \<le> length out + length xs + data_used ctx \<and> data_used ctx' < 4 \<and> \<not> error_encountered ctx'"
  using assms
proof (induction xs arbitrary: ctx out)
  case (Cons c inp)
  show ?case
  proof (cases "base64_decode_quad (take 4 (poke (ctx_data ctx) (data_used ctx) [c]))")
    case None
    then show ?thesis using Cons.prems Cons.IH
      by (fastforce simp: EVP_DecodeUpdate_loop.simps(2) Let_def split: if_splits)
  next
    case (Some bytes)
    then show ?thesis using Cons.prems Cons.IH decode_quad_length [OF Some]
      by (fastforce simp: EVP_DecodeUpdate_loop.simps(2) Let_def split: if_splits)
  qed
qed simp

definition not_space :: "byte \<Rightarrow> bool" where
  "not_space c \<longleftrightarrow> c \<notin> {0x20, 0x09, 0x0d, 0x0a}"

lemma decode_loop_quad:
  assumes "length q = 4" "\<forall>c \<in> set q. not_space c" "base64_decode_quad q = Some bytes"
    and "length (ctx_data ctx) = 48" "data_used ctx = 0" "\<not> eof_seen ctx"
  shows "EVP_DecodeUpdate_loop ctx out (q @ inp) =
    EVP_DecodeUpdate_loop (ctx\<lparr>ctx_data := q @ drop 4 (ctx_data ctx), eof_seen := length bytes < 3\<rparr>) (out @ bytes) inp"
proof -
  obtain c0 c1 c2 c3 where q: "q = [c0, c1, c2, c3]" using assms(1) by (auto simp: numeral_eq_Suc length_Suc_conv)
  obtain d0 d1 d2 d3 ds where d: "ctx_data ctx = d0 # d1 # d2 # d3 # ds" and "length ds = 44"
    using assms(4) by (auto simp: numeral_eq_Suc length_Suc_conv)
  have s: "EVP_DecodeUpdate_loop ctx out (c # inp) =
      (let ctx = ctx\<lparr>ctx_data := poke (ctx_data ctx) (data_used ctx) [c], data_used := data_used ctx + 1\<rparr>
        in if data_used ctx = 4 then
             (case base64_decode_quad (take 4 (ctx_data ctx)) of
                None \<Rightarrow> (True, ctx\<lparr>error_encountered := True\<rparr>, out)
              | Some bytes \<Rightarrow>
                  let ctx = ctx\<lparr>data_used := 0\<rparr>;
                      ctx = (if length bytes < 3 then ctx\<lparr>eof_seen := True\<rparr> else ctx)
                  in EVP_DecodeUpdate_loop ctx (out @ bytes) inp)
           else EVP_DecodeUpdate_loop ctx out inp)"
    if "not_space c" "\<not> eof_seen ctx" for c ctx inp
    using that by (simp add: EVP_DecodeUpdate_loop.simps(2) not_space_def)
  show ?thesis using assms unfolding q using d by (cases ctx) (auto simp: s poke_def Let_def)
qed

lemma quad_not_space: "\<forall>c \<in> set (b64_quad n). not_space c" "not_space 0x3d"
  by (simp_all add: b64_quad_def not_space_def char_bin)

lemma encode_quads:
  "\<forall>c \<in> set (EVP_EncodeBlock_loop src). not_space c"
  by (induction src rule: EVP_EncodeBlock_loop.induct)
    (auto simp: encode_3 encode_tail quad_not_space dest: in_set_takeD quad_not_space(1) [rule_format])

text \<open>A fresh decoder between two lines.\<close>

definition between_lines :: "evp_encode_ctx \<Rightarrow> bool" where
  "between_lines ctx \<longleftrightarrow> length (ctx_data ctx) = 48 \<and> data_used ctx = 0 \<and> \<not> eof_seen ctx \<and> \<not> error_encountered ctx"

lemma decode_encode:
  assumes "between_lines ctx"
  shows "\<exists>d. length d = 48 \<and> EVP_DecodeUpdate_loop ctx out (EVP_EncodeBlock_loop src @ inp) =
    EVP_DecodeUpdate_loop (ctx\<lparr>ctx_data := d, eof_seen := length src mod 3 \<noteq> 0\<rparr>) (out @ src) inp"
  using assms
proof (induction src arbitrary: ctx out rule: EVP_EncodeBlock_loop.induct)
  case 1
  then show ?case by (intro exI [of _ "ctx_data ctx"]) (cases ctx, simp add: between_lines_def)
next
  case (2 s0)
  show ?case
    using decode_loop_quad [of "EVP_EncodeBlock_loop [s0]" "[s0]" ctx out inp] 2 encode_quads [of "[s0]"] quad_decodes(3) [of s0]
    by (intro exI [of _ "EVP_EncodeBlock_loop [s0] @ drop 4 (ctx_data ctx)"]) (simp add: between_lines_def length_encode encode_tail)
next
  case (3 s0 s1)
  show ?case
    using decode_loop_quad [of "EVP_EncodeBlock_loop [s0, s1]" "[s0, s1]" ctx out inp] 3 encode_quads [of "[s0, s1]"] quad_decodes(2) [of s0 s1]
    by (intro exI [of _ "EVP_EncodeBlock_loop [s0, s1] @ drop 4 (ctx_data ctx)"]) (simp add: between_lines_def length_encode encode_tail)
next
  case (4 s0 s1 s2 src)
  let ?q = "b64_quad (w24 s0 s1 s2)"
  let ?ctx = "ctx\<lparr>ctx_data := ?q @ drop 4 (ctx_data ctx), eof_seen := False\<rparr>"
  have m: "length (s0 # s1 # s2 # src) mod 3 = length src mod 3" by simp
  have "between_lines ?ctx" using 4(2) by (simp add: between_lines_def)
  from 4(1) [OF refl this, of "out @ [s0, s1, s2]"]
  obtain d where d: "length d = 48" "EVP_DecodeUpdate_loop ?ctx (out @ [s0, s1, s2]) (EVP_EncodeBlock_loop src @ inp) =
      EVP_DecodeUpdate_loop (?ctx\<lparr>ctx_data := d, eof_seen := length src mod 3 \<noteq> 0\<rparr>) ((out @ [s0, s1, s2]) @ src) inp" by blast
  have "EVP_DecodeUpdate_loop ctx out (?q @ EVP_EncodeBlock_loop src @ inp) =
      EVP_DecodeUpdate_loop ?ctx (out @ [s0, s1, s2]) (EVP_EncodeBlock_loop src @ inp)"
    using decode_loop_quad [of ?q "[s0, s1, s2]" ctx] 4(2) quad_decodes(1) quad_not_space
    by (simp add: between_lines_def)
  then show ?case using d unfolding m by (intro exI [of _ d]) (simp add: encode_3)
qed

lemma decode_newline: "EVP_DecodeUpdate_loop ctx out (0x0a # inp) = EVP_DecodeUpdate_loop ctx out inp"
  by (simp add: EVP_DecodeUpdate_loop.simps(2))

lemma b64_text_eq:
  "b64_text bs = (if 48 \<le> length bs then EVP_EncodeBlock_loop (take 48 bs) @ [0x0a] @ b64_text (drop 48 bs)
     else if bs = [] then [] else EVP_EncodeBlock_loop bs @ [0x0a])"
  using b64_step [of bs] b64_short [of bs] by (simp add: b64_text_def)

lemma decode_text:
  assumes "between_lines ctx"
  shows "\<exists>d. length d = 48 \<and> EVP_DecodeUpdate_loop ctx out (b64_text src) =
    (False, ctx\<lparr>ctx_data := d, eof_seen := length src mod 3 \<noteq> 0\<rparr>, out @ src)"
  using assms
proof (induction src arbitrary: ctx out rule: b64_induct)
  case (short src)
  show ?case
  proof (cases "src = []")
    case True
    then show ?thesis using short
      by (intro exI [of _ "ctx_data ctx"]) (cases ctx, simp add: between_lines_def b64_text_eq)
  next
    case False
    then show ?thesis using decode_encode [OF short(2), of out src "[0x0a]"] short(1)
      by (auto simp: b64_text_eq decode_newline)
  qed
next
  case (step src)
  obtain d where d: "length d = 48" "EVP_DecodeUpdate_loop ctx out (EVP_EncodeBlock_loop (take 48 src) @ 0x0a # b64_text (drop 48 src)) =
      EVP_DecodeUpdate_loop (ctx\<lparr>ctx_data := d, eof_seen := length (take 48 src) mod 3 \<noteq> 0\<rparr>) (out @ take 48 src) (0x0a # b64_text (drop 48 src))"
    using decode_encode [OF step(3)] by blast
  let ?ctx = "ctx\<lparr>ctx_data := d, eof_seen := False\<rparr>"
  have b: "between_lines ?ctx" using step(3) d(1) by (simp add: between_lines_def)
  obtain k where k: "length src = 48 + k" using step(1) le_Suc_ex by blast
  have m: "length (drop 48 src) mod 3 = length src mod 3" "length (take 48 src) mod 3 = 0"
    using k mod_mult_self2 [of k 3 16] by (simp_all add: add.commute)
  obtain d' where d': "length d' = 48" "EVP_DecodeUpdate_loop ?ctx (out @ take 48 src) (b64_text (drop 48 src)) =
      (False, ?ctx\<lparr>ctx_data := d', eof_seen := length (drop 48 src) mod 3 \<noteq> 0\<rparr>, (out @ take 48 src) @ drop 48 src)"
    using step(2) [OF b] by blast
  have "b64_text src = EVP_EncodeBlock_loop (take 48 src) @ 0x0a # b64_text (drop 48 src)"
    using step(1) by (simp add: b64_text_eq [of src])
  then show ?case using d d' unfolding m by (intro exI [of _ d']) (simp add: decode_newline)
qed

lemma decode_stream_loop:
  assumes "\<forall>c \<in> set inps. length c \<le> 2 ^ 30" and "\<not> error_encountered ctx" "data_used ctx < 4"
    and "EVP_DecodeUpdate_loop ctx [] (concat inps) = (False, ctx', out)" "data_used ctx' = 0"
  shows "decode_stream ctx inps = Some out"
  using assms
proof (induction inps arbitrary: ctx out)
  case Nil
  then show ?case by (auto simp: EVP_DecodeFinal_def)
next
  case (Cons inp inps)
  obtain e ctx1 out1 where l: "EVP_DecodeUpdate_loop ctx [] inp = (e, ctx1, out1)" by (cases "EVP_DecodeUpdate_loop ctx [] inp") auto
  have e: "\<not> e" and rest: "EVP_DecodeUpdate_loop ctx1 out1 (concat inps) = (False, ctx', out)"
    using Cons.prems(4) l by (simp_all add: decode_loop_append split: if_splits bool.splits)
  obtain e2 ctx2 out2 where l2: "EVP_DecodeUpdate_loop ctx1 [] (concat inps) = (e2, ctx2, out2)"
    by (cases "EVP_DecodeUpdate_loop ctx1 [] (concat inps)") auto
  have out: "e2 = False" "ctx2 = ctx'" "out = out1 @ out2"
    using rest l2 decode_loop_out [of ctx1 out1 "[]" "concat inps"] by simp_all
  have inv: "length out1 + data_used ctx1 \<le> length inp + data_used ctx" "data_used ctx1 < 4" "\<not> error_encountered ctx1"
    using decode_loop_bound [of ctx "[]" inp ctx1 out1] l e Cons.prems by simp_all
  have "length inp \<le> 2 ^ 30" using Cons.prems(1) by simp
  then have "length out1 \<le> INT_MAX" using inv Cons.prems(3) by simp
  moreover have "decode_stream ctx1 inps = Some out2" using Cons.IH [of ctx1 out2] Cons.prems inv l2 out by simp
  ultimately show ?case using l e Cons.prems(2) out by (simp add: EVP_DecodeUpdate_def)
qed

section \<open>Properties\<close>

lemma encoded_length:
  assumes "len \<le> SIZE_MAX"
  shows "EVP_EncodedLength len = (if (len + 2) div 3 * 4 + 1 \<le> SIZE_MAX then Some ((len + 2) div 3 * 4 + 1) else None)"
proof (cases "len + 2 \<le> SIZE_MAX")
  case True
  obtain q where q: "(len + 2) div 3 = q" by blast
  have mul: "size_mul q 4 div 4 = q \<longleftrightarrow> q * 4 \<le> SIZE_MAX"
  proof
    assume "size_mul q 4 div 4 = q"
    then show "q * 4 \<le> SIZE_MAX" using size_mul_def [of q 4] by linarith
  qed (simp add: size_mul_nowrap)
  have "size_add (size_mul q 4) 1 < size_mul q 4 \<longleftrightarrow> SIZE_MAX < q * 4 + 1" if "q * 4 \<le> SIZE_MAX"
    using that by (simp add: size_mul_nowrap size_add_overflow_iff)
  moreover have add: "size_add len 2 = len + 2" using True by (simp add: size_add_nowrap)
  ultimately show ?thesis
    using mul unfolding EVP_EncodedLength_def Let_def add q by (auto simp: size_add_nowrap size_mul_nowrap)
next
  case False
  then have "size_add len 2 < len" using assms by (simp add: size_add_overflow_iff)
  moreover have "len = SIZE_MAX \<or> len = SIZE_MAX - 1" using False assms by auto
  ultimately show ?thesis by (auto simp: EVP_EncodedLength_def)
qed

text \<open>C34.  A block encodes to four characters for each group of three bytes; with room for the
  NUL this is the length \<open>EVP_EncodedLength\<close> announces, and it fails only if that is no
  \<open>size_t\<close>.  The characters decode to the block, if the output has room for the length
  \<open>EVP_DecodedLength\<close> announces.\<close>

theorem base64_block_roundtrip:
  assumes "length src \<le> SIZE_MAX"
  shows "EVP_EncodedLength (length src) =
           (let n = snd (EVP_EncodeBlock src) + 1 in if n \<le> SIZE_MAX then Some n else None) \<and>
         EVP_DecodeBase64 max_out (fst (EVP_EncodeBlock src)) =
           (if max_out < (length src + 2) div 3 * 3 then None else Some src)"
  using assms
  by (simp add: encoded_length EVP_DecodeBase64_def EVP_DecodedLength_def EVP_EncodeBlock_def length_encode decode_base64_encode)

lemma base64_block_roundtrip_witness:
  "EVP_EncodedLength 2 = Some 5 \<and> EVP_DecodeBase64 2 (fst (EVP_EncodeBlock [1, 2])) = None \<and>
   EVP_DecodeBase64 3 (fst (EVP_EncodeBlock [1, 2])) = Some [1, 2]"
  using base64_block_roundtrip [of "[1, 2]" 2] base64_block_roundtrip [of "[1, 2]" 3]
  by (simp add: EVP_EncodeBlock_def length_encode numeral_2_eq_2)

text \<open>C9.  Base64 survives any way of cutting the stream: the input is encoded piece by
  piece, the encoding is decoded in other pieces, and the result is the input, with no error
  at any call.\<close>

theorem base64_stream_roundtrip:
  assumes "\<forall>c \<in> set inps. length c \<le> 2 ^ 30" and "\<forall>c \<in> set pieces. length c \<le> 2 ^ 30"
    and "concat pieces = encode_stream EVP_EncodeInit inps"
  shows "decode_stream EVP_DecodeInit pieces = Some (concat inps)"
proof -
  have "encoder_ok EVP_EncodeInit" "pending EVP_EncodeInit = []" "between_lines EVP_DecodeInit"
    by (simp_all add: encoder_ok_def pending_def between_lines_def EVP_EncodeInit_def EVP_DecodeInit_def)
  then obtain d where "EVP_DecodeUpdate_loop EVP_DecodeInit [] (concat pieces) =
      (False, EVP_DecodeInit\<lparr>ctx_data := d, eof_seen := length (concat inps) mod 3 \<noteq> 0\<rparr>, concat inps)"
    using encode_stream_text [OF _ assms(1)] assms(3) decode_text [of EVP_DecodeInit "[]" "concat inps"] by auto
  from decode_stream_loop [OF assms(2) _ _ this] show ?thesis by (simp add: EVP_DecodeInit_def)
qed

lemma base64_stream_roundtrip_witness:
  "let s = encode_stream EVP_EncodeInit [[1, 2], [], [3, 4, 5]]
   in decode_stream EVP_DecodeInit [take 3 s, drop 3 s] = Some [1, 2, 3, 4, 5]"
proof -
  let ?s = "encode_stream EVP_EncodeInit [[1, 2], [], [3, 4, 5]]"
  have "encoder_ok EVP_EncodeInit" "pending EVP_EncodeInit = []"
    by (simp_all add: encoder_ok_def pending_def EVP_EncodeInit_def)
  then have "length ?s = 9" using encode_stream_text [of EVP_EncodeInit "[[1, 2], [], [3, 4, 5]]"]
    by (simp add: b64_text_eq length_encode del: encode_stream.simps)
  then show ?thesis
    using base64_stream_roundtrip [of "[[1, 2], [], [3, 4, 5]]" "[take 3 ?s, drop 3 ?s]"]
    by (simp add: Let_def del: encode_stream.simps decode_stream.simps)
qed

end
