(* ===== verification/Stack.thy ===== *)
theory Stack
  imports Mem Compare
begin

text \<open>
  The growable arrays \<open>STACK_OF(T)\<close>, \<open>crypto/stack/stack.c\<close>.  An element is a pointer, \<open>None\<close>
  for \<open>NULL\<close>; a comparison function pointer is a value of an arbitrary type, and
  \<open>call_cmp_func\<close> runs it.  The cells a reallocation adds have unspecified contents, given
  by the parameter \<open>uninit\<close>.  Operations that accept a null stack take an option.
\<close>

section \<open>The code\<close>

type_synonym 'p ptr = "'p option"

record ('p, 'f) stack =
  st_num :: nat
  st_data :: "'p ptr list"
  st_sorted :: bool
  st_num_alloc :: nat
  st_comp :: "'f option"

abbreviation (input) kMinSize :: nat where "kMinSize \<equiv> 4"

definition OPENSSL_sk_new :: "malloc \<Rightarrow> 'f option \<Rightarrow> ('p, 'f) stack option" where
  "OPENSSL_sk_new m comp_fn =
     (case OPENSSL_zalloc m 40 of
        None \<Rightarrow> None
      | Some _ \<Rightarrow>
          (case OPENSSL_calloc m kMinSize 8 of
             None \<Rightarrow> None
           | Some _ \<Rightarrow>
               Some \<lparr>st_num = 0, st_data = replicate kMinSize None, st_sorted = False,
                     st_num_alloc = kMinSize, st_comp = comp_fn\<rparr>))"

definition OPENSSL_sk_new_null :: "malloc \<Rightarrow> ('p, 'f) stack option" where
  "OPENSSL_sk_new_null m = OPENSSL_sk_new m None"

definition OPENSSL_sk_num :: "('p, 'f) stack option \<Rightarrow> nat" where
  "OPENSSL_sk_num sk = (case sk of None \<Rightarrow> 0 | Some sk \<Rightarrow> st_num sk)"

definition OPENSSL_sk_zero :: "('p, 'f) stack option \<Rightarrow> ('p, 'f) stack option" where
  "OPENSSL_sk_zero sk =
     (case sk of
        None \<Rightarrow> None
      | Some sk \<Rightarrow>
          if st_num sk = 0 then Some sk
          else Some (sk\<lparr>st_data := replicate (st_num sk) None @ drop (st_num sk) (st_data sk),
                        st_num := 0, st_sorted := False\<rparr>))"

definition OPENSSL_sk_value :: "('p, 'f) stack option \<Rightarrow> nat \<Rightarrow> 'p ptr" where
  "OPENSSL_sk_value sk i =
     (case sk of None \<Rightarrow> None | Some sk \<Rightarrow> if i \<ge> st_num sk then None else st_data sk ! i)"

definition OPENSSL_sk_set :: "('p, 'f) stack option \<Rightarrow> nat \<Rightarrow> 'p ptr \<Rightarrow> 'p ptr \<times> ('p, 'f) stack option" where
  "OPENSSL_sk_set sk i value =
     (case sk of
        None \<Rightarrow> (None, None)
      | Some sk \<Rightarrow>
          if i \<ge> st_num sk then (None, Some sk)
          else (value, Some (sk\<lparr>st_data := (st_data sk)[i := value]\<rparr>)))"

text \<open>The pointers that are passed to \<open>free_func\<close>, in this order; the stack is freed after them.\<close>

definition OPENSSL_sk_pop_free_ex :: "('p, 'f) stack option \<Rightarrow> 'p list" where
  "OPENSSL_sk_pop_free_ex sk =
     (case sk of
        None \<Rightarrow> []
      | Some sk \<Rightarrow> concat (map (\<lambda>i. case st_data sk ! i of None \<Rightarrow> [] | Some p \<Rightarrow> [p]) [0..<st_num sk]))"

definition memmove :: "nat \<Rightarrow> nat \<Rightarrow> nat \<Rightarrow> 'a list \<Rightarrow> 'a list" where
  "memmove dst src n xs = take dst xs @ take n (drop src xs) @ drop (dst + n) xs"

text \<open>The growth of the array: \<open>None\<close> when the size overflows or there is no memory.\<close>

definition sk_grow :: "malloc \<Rightarrow> (nat \<Rightarrow> 'p ptr) \<Rightarrow> ('p, 'f) stack \<Rightarrow> ('p, 'f) stack option" where
  "sk_grow m uninit sk =
     (let n = st_num_alloc sk;
          new_alloc = size_mul n 2;
          alloc_size = size_mul new_alloc 8;
          overflowed = (new_alloc < n \<or> alloc_size div 8 \<noteq> new_alloc);
          new_alloc = (if overflowed then size_add n 1 else new_alloc);
          alloc_size = (if overflowed then size_mul new_alloc 8 else alloc_size)
      in if new_alloc < n \<or> alloc_size div 8 \<noteq> new_alloc then None
         else (case OPENSSL_malloc m alloc_size of
                 None \<Rightarrow> None
               | Some _ \<Rightarrow>
                   Some (sk\<lparr>st_data := take new_alloc (st_data sk) @ map uninit [length (st_data sk)..<new_alloc],
                            st_num_alloc := new_alloc\<rparr>)))"

definition OPENSSL_sk_insert ::
  "malloc \<Rightarrow> (nat \<Rightarrow> 'p ptr) \<Rightarrow> ('p, 'f) stack option \<Rightarrow> 'p ptr \<Rightarrow> nat \<Rightarrow> nat \<times> ('p, 'f) stack option" where
  "OPENSSL_sk_insert m uninit sk p pos =
     (case sk of
        None \<Rightarrow> (0, None)
      | Some sk \<Rightarrow>
          if st_num sk \<ge> INT_MAX then (0, Some sk)
          else
            (case (if st_num_alloc sk \<le> st_num sk + 1 then sk_grow m uninit sk else Some sk) of
               None \<Rightarrow> (0, Some sk)
             | Some sk \<Rightarrow>
                 let data = (if pos \<ge> st_num sk then (st_data sk)[st_num sk := p]
                             else (memmove (pos + 1) pos (st_num sk - pos) (st_data sk))[pos := p])
                 in (st_num sk + 1,
                     Some (sk\<lparr>st_data := data, st_num := st_num sk + 1, st_sorted := False\<rparr>))))"

definition OPENSSL_sk_delete :: "('p, 'f) stack option \<Rightarrow> nat \<Rightarrow> 'p ptr \<times> ('p, 'f) stack option" where
  "OPENSSL_sk_delete sk pos =
     (case sk of
        None \<Rightarrow> (None, None)
      | Some sk \<Rightarrow>
          if pos \<ge> st_num sk then (None, Some sk)
          else
            let ret = st_data sk ! pos;
                data = (if pos \<noteq> st_num sk - 1
                        then memmove pos (pos + 1) (st_num sk - pos - 1) (st_data sk) else st_data sk)
            in (ret, Some (sk\<lparr>st_data := data, st_num := st_num sk - 1\<rparr>)))"

definition OPENSSL_sk_delete_ptr :: "('p, 'f) stack option \<Rightarrow> 'p ptr \<Rightarrow> 'p ptr \<times> ('p, 'f) stack option" where
  "OPENSSL_sk_delete_ptr sk p =
     (case sk of
        None \<Rightarrow> (None, None)
      | Some st \<Rightarrow>
          (case List.find (\<lambda>i. st_data st ! i = p) [0..<st_num st] of
             None \<Rightarrow> (None, sk)
           | Some i \<Rightarrow> OPENSSL_sk_delete sk i))"

fun sk_delete_if_loop :: "('p ptr \<Rightarrow> bool) \<Rightarrow> nat list \<Rightarrow> nat \<Rightarrow> 'p ptr list \<Rightarrow> nat \<times> 'p ptr list" where
  "sk_delete_if_loop f [] new_num data = (new_num, data)"
| "sk_delete_if_loop f (i # is) new_num data =
     (if \<not> f (data ! i) then sk_delete_if_loop f is (new_num + 1) (data[new_num := data ! i])
      else sk_delete_if_loop f is new_num data)"

definition OPENSSL_sk_delete_if :: "('p ptr \<Rightarrow> bool) \<Rightarrow> ('p, 'f) stack option \<Rightarrow> ('p, 'f) stack option" where
  "OPENSSL_sk_delete_if f sk =
     (case sk of
        None \<Rightarrow> None
      | Some sk \<Rightarrow>
          (case sk_delete_if_loop f [0..<st_num sk] 0 (st_data sk) of
             (new_num, data) \<Rightarrow> Some (sk\<lparr>st_data := data, st_num := new_num\<rparr>)))"

definition OPENSSL_sk_is_sorted :: "('p, 'f) stack option \<Rightarrow> bool" where
  "OPENSSL_sk_is_sorted sk =
     (case sk of None \<Rightarrow> True | Some sk \<Rightarrow> st_sorted sk \<or> (st_comp sk \<noteq> None \<and> st_num sk < 2))"

function sk_bsearch :: "('a \<Rightarrow> int) \<Rightarrow> 'a list \<Rightarrow> nat \<Rightarrow> nat \<Rightarrow> nat option" where
  "sk_bsearch cmp_p data lo hi =
     (if lo < hi then
        let mid = lo + (hi - lo - 1) div 2;
            r = cmp_p (data ! mid)
        in if r > 0 then sk_bsearch cmp_p data (mid + 1) hi
           else if r < 0 then sk_bsearch cmp_p data lo mid
           else if hi - lo = 1 then Some mid
           else sk_bsearch cmp_p data lo (mid + 1)
      else None)"
  by pat_completeness auto
termination
  by (relation "measure (\<lambda>(_, _, lo, hi). hi - lo)") auto

declare sk_bsearch.simps [simp del]

definition OPENSSL_sk_find ::
  "('f \<Rightarrow> 'p ptr cmp) \<Rightarrow> ('p, 'f) stack option \<Rightarrow> 'p ptr \<Rightarrow> nat option" where
  "OPENSSL_sk_find call_cmp_func sk p =
     (case sk of
        None \<Rightarrow> None
      | Some st \<Rightarrow>
          (case st_comp st of
             None \<Rightarrow> List.find (\<lambda>i. st_data st ! i = p) [0..<st_num st]
           | Some comp_fn \<Rightarrow>
               if p = None then None
               else if \<not> OPENSSL_sk_is_sorted sk then
                 List.find (\<lambda>i. call_cmp_func comp_fn p (st_data st ! i) = 0) [0..<st_num st]
               else sk_bsearch (call_cmp_func comp_fn p) (st_data st) 0 (st_num st)))"

definition OPENSSL_sk_shift :: "('p, 'f) stack option \<Rightarrow> 'p ptr \<times> ('p, 'f) stack option" where
  "OPENSSL_sk_shift sk =
     (case sk of
        None \<Rightarrow> (None, None)
      | Some st \<Rightarrow> if st_num st = 0 then (None, sk) else OPENSSL_sk_delete sk 0)"

definition OPENSSL_sk_push ::
  "malloc \<Rightarrow> (nat \<Rightarrow> 'p ptr) \<Rightarrow> ('p, 'f) stack \<Rightarrow> 'p ptr \<Rightarrow> nat \<times> ('p, 'f) stack option" where
  "OPENSSL_sk_push m uninit sk p = OPENSSL_sk_insert m uninit (Some sk) p (st_num sk)"

definition OPENSSL_sk_pop :: "('p, 'f) stack option \<Rightarrow> 'p ptr \<times> ('p, 'f) stack option" where
  "OPENSSL_sk_pop sk =
     (case sk of
        None \<Rightarrow> (None, None)
      | Some st \<Rightarrow> if st_num st = 0 then (None, sk) else OPENSSL_sk_delete sk (st_num st - 1))"

definition OPENSSL_sk_dup :: "malloc \<Rightarrow> ('p, 'f) stack option \<Rightarrow> ('p, 'f) stack option" where
  "OPENSSL_sk_dup m sk =
     (case sk of
        None \<Rightarrow> None
      | Some sk \<Rightarrow>
          (case OPENSSL_zalloc m 40 of
             None \<Rightarrow> None
           | Some _ \<Rightarrow>
               let size = size_mul 8 (st_num_alloc sk)
               in if size = 0 then None
                  else (case OPENSSL_malloc m size of
                          None \<Rightarrow> None
                        | Some _ \<Rightarrow>
                            Some \<lparr>st_num = st_num sk, st_data = take (size div 8) (st_data sk),
                                  st_sorted = st_sorted sk, st_num_alloc = st_num_alloc sk, st_comp = st_comp sk\<rparr>)))"

definition parent_idx :: "nat \<Rightarrow> nat" where
  "parent_idx idx = (idx - 1) div 2"

definition left_idx :: "nat \<Rightarrow> nat" where
  "left_idx idx = 2 * idx + 1"

definition swap :: "nat \<Rightarrow> nat \<Rightarrow> 'a list \<Rightarrow> 'a list" where
  "swap i j xs = xs[i := xs ! j, j := xs ! i]"

function down_heap :: "'a cmp \<Rightarrow> nat \<Rightarrow> nat \<Rightarrow> 'a list \<Rightarrow> 'a list" where
  "down_heap cmp i num data =
     (let left = left_idx i
      in if left \<ge> num then data
         else
           let next = (if cmp (data ! i) (data ! left) < 0 then left else i);
               right = left + 1;
               next = (if right < num \<and> cmp (data ! next) (data ! right) < 0 then right else next)
           in if i = next then data else down_heap cmp next num (swap i next data))"
  by pat_completeness auto
termination
  by (relation "measure (\<lambda>(_, i, num, _). num - i)") (auto simp: left_idx_def split: if_splits)

declare down_heap.simps [simp del]

text \<open>The loops of the sort: \<open>i\<close> counts down to zero and wraps, and down to one.\<close>

fun sk_build_heap :: "'a cmp \<Rightarrow> nat \<Rightarrow> nat \<Rightarrow> 'a list \<Rightarrow> 'a list" where
  "sk_build_heap cmp num 0 data = down_heap cmp 0 num data"
| "sk_build_heap cmp num (Suc i) data = sk_build_heap cmp num i (down_heap cmp (Suc i) num data)"

fun sk_extract :: "'a cmp \<Rightarrow> nat \<Rightarrow> 'a list \<Rightarrow> 'a list" where
  "sk_extract cmp 0 data = data"
| "sk_extract cmp (Suc i) data = sk_extract cmp i (down_heap cmp 0 (Suc i) (swap 0 (Suc i) data))"

definition OPENSSL_sk_sort :: "('f \<Rightarrow> 'p ptr cmp) \<Rightarrow> ('p, 'f) stack option \<Rightarrow> ('p, 'f) stack option" where
  "OPENSSL_sk_sort call_cmp_func sk =
     (case sk of
        None \<Rightarrow> None
      | Some sk \<Rightarrow>
          (case st_comp sk of
             None \<Rightarrow> Some sk
           | Some comp_fn \<Rightarrow>
               if st_sorted sk then Some sk
               else
                 let num = st_num sk;
                     cmp = call_cmp_func comp_fn;
                     data = (if num \<ge> 2
                             then sk_extract cmp (num - 1) (sk_build_heap cmp num (parent_idx (num - 1)) (st_data sk))
                             else st_data sk)
                 in Some (sk\<lparr>st_data := data, st_sorted := True\<rparr>)))"

definition OPENSSL_sk_set_cmp_func :: "('p, 'f) stack \<Rightarrow> 'f option \<Rightarrow> 'f option \<times> ('p, 'f) stack" where
  "OPENSSL_sk_set_cmp_func sk comp_fn =
     (let old = st_comp sk;
          sk = (if st_comp sk \<noteq> comp_fn then sk\<lparr>st_sorted := False\<rparr> else sk)
      in (old, sk\<lparr>st_comp := comp_fn\<rparr>))"

text \<open>The loop of the deep copy: the array, or the copies that are freed when one of them fails.\<close>

fun sk_deep_copy_loop :: "('p \<Rightarrow> 'p ptr) \<Rightarrow> nat list \<Rightarrow> 'p ptr list \<Rightarrow> 'p list + 'p ptr list" where
  "sk_deep_copy_loop copy_func [] data = Inr data"
| "sk_deep_copy_loop copy_func (i # is) data =
     (case data ! i of
        None \<Rightarrow> sk_deep_copy_loop copy_func is data
      | Some p \<Rightarrow>
          (case copy_func p of
             None \<Rightarrow> Inl (concat (map (\<lambda>j. case data ! j of None \<Rightarrow> [] | Some q \<Rightarrow> [q]) [0..<i]))
           | Some q \<Rightarrow> sk_deep_copy_loop copy_func is (data[i := Some q])))"

definition OPENSSL_sk_deep_copy ::
  "malloc \<Rightarrow> ('p \<Rightarrow> 'p ptr) \<Rightarrow> ('p, 'f) stack option \<Rightarrow> ('p, 'f) stack option \<times> 'p list" where
  "OPENSSL_sk_deep_copy m copy_func sk =
     (case OPENSSL_sk_dup m sk of
        None \<Rightarrow> (None, [])
      | Some ret \<Rightarrow>
          (case sk_deep_copy_loop copy_func [0..<st_num ret] (st_data ret) of
             Inl freed \<Rightarrow> (None, freed)
           | Inr data \<Rightarrow> (Some (ret\<lparr>st_data := data\<rparr>), [])))"

section \<open>Heap sort\<close>

lemma find_append: "List.find P (xs @ ys) = (case List.find P xs of None \<Rightarrow> List.find P ys | Some x \<Rightarrow> Some x)"
  by (induction xs) auto

lemma upt_split: "i \<le> j \<Longrightarrow> j \<le> k \<Longrightarrow> [i..<k] = [i..<j] @ [j..<k]"
  using upt_add_eq_append [of i j "k - j"] by simp

lemma length_swap [simp]: "length (swap i j xs) = length xs"
  by (simp add: swap_def)

lemma mset_swap' [simp]: "i < length xs \<Longrightarrow> j < length xs \<Longrightarrow> mset (swap i j xs) = mset xs"
  unfolding swap_def by (rule Multiset.mset_swap)

lemma nth_swap:
  "i < length xs \<Longrightarrow> j < length xs \<Longrightarrow> swap i j xs ! k = (if k = j then xs ! i else if k = i then xs ! j else xs ! k)"
  by (auto simp: swap_def nth_list_update)

lemma parent_less: "0 < j \<Longrightarrow> parent_idx j < j"
  by (auto simp: parent_idx_def)

lemma parent_eq: "0 < j \<Longrightarrow> parent_idx j = i \<longleftrightarrow> j = left_idx i \<or> j = left_idx i + 1"
  by (auto simp: parent_idx_def left_idx_def)

text \<open>The position an element is moved to, and one round of the loop in terms of it.\<close>

definition heap_next :: "'a cmp \<Rightarrow> nat \<Rightarrow> nat \<Rightarrow> 'a list \<Rightarrow> nat" where
  "heap_next cmp i num data =
     (let left = left_idx i; next = (if cmp (data ! i) (data ! left) < 0 then left else i)
      in if left + 1 < num \<and> cmp (data ! next) (data ! (left + 1)) < 0 then left + 1 else next)"

lemma down_heap_round:
  "down_heap cmp i num data =
     (if num \<le> left_idx i \<or> i = heap_next cmp i num data then data
      else down_heap cmp (heap_next cmp i num data) num (swap i (heap_next cmp i num data) data))"
  unfolding heap_next_def by (subst down_heap.simps) (simp only: Let_def, simp)

lemma heap_next_bound:
  assumes "left_idx i < num" "heap_next cmp i num data \<noteq> i"
  shows "heap_next cmp i num data < num" "i < heap_next cmp i num data" "parent_idx (heap_next cmp i num data) = i"
  using assms by (auto simp: heap_next_def Let_def left_idx_def parent_idx_def split: if_splits)

lemma down_heap_induct [case_names stop move]:
  assumes "\<And>i data. num \<le> left_idx i \<or> i = heap_next cmp i num data \<Longrightarrow> P i data"
    and "\<And>i data. left_idx i < num \<Longrightarrow> heap_next cmp i num data \<noteq> i \<Longrightarrow>
      P (heap_next cmp i num data) (swap i (heap_next cmp i num data) data) \<Longrightarrow> P i data"
  shows "P i data"
proof (induction "num - i" arbitrary: i data rule: less_induct)
  case (less i data)
  show ?case
  proof (cases "num \<le> left_idx i \<or> i = heap_next cmp i num data")
    case False
    then have n: "left_idx i < num" "heap_next cmp i num data \<noteq> i" by auto
    from heap_next_bound [OF n] have "num - heap_next cmp i num data < num - i" by linarith
    then show ?thesis using assms(2) [OF n less] by simp
  qed (rule assms(1))
qed

lemma down_heap_frame:
  assumes "num \<le> length data" "i < num"
  shows "length (down_heap cmp i num data) = length data \<and> mset (down_heap cmp i num data) = mset data \<and>
    (\<forall>k \<ge> num. down_heap cmp i num data ! k = data ! k)"
  using assms
proof (induction i data rule: down_heap_induct [where num = num and cmp = cmp])
  case (stop i data)
  then show ?case by (simp add: down_heap_round [of cmp i])
next
  case (move i data)
  note b = heap_next_bound [OF move(1,2)]
  have "down_heap cmp i num data = down_heap cmp (heap_next cmp i num data) num (swap i (heap_next cmp i num data) data)"
    using move(1,2) by (subst down_heap_round) auto
  then show ?case using move b by (simp add: nth_swap)
qed

text \<open>The heap property of the nodes from \<open>lo\<close> on.\<close>

definition heap_from :: "'a cmp \<Rightarrow> nat \<Rightarrow> nat \<Rightarrow> 'a list \<Rightarrow> bool" where
  "heap_from cmp lo num xs \<longleftrightarrow> (\<forall>j. 0 < j \<and> j < num \<and> lo \<le> parent_idx j \<longrightarrow> cmp (xs ! j) (xs ! parent_idx j) \<le> 0)"

text \<open>The heap property broken at most between \<open>i\<close> and its children.\<close>

definition heap_but :: "'a cmp \<Rightarrow> nat \<Rightarrow> nat \<Rightarrow> nat \<Rightarrow> 'a list \<Rightarrow> bool" where
  "heap_but cmp i lo num xs \<longleftrightarrow>
     (\<forall>j. 0 < j \<and> j < num \<and> lo \<le> parent_idx j \<longrightarrow>
        (if parent_idx j = i then 0 < i \<and> lo \<le> parent_idx i \<longrightarrow> cmp (xs ! j) (xs ! parent_idx i) \<le> 0
         else cmp (xs ! j) (xs ! parent_idx j) \<le> 0))"

context comparator
begin

lemma heap_next_largest:
  assumes "left_idx i < num" "j = left_idx i \<or> j = left_idx i + 1" "j < num"
  shows "cmp (data ! j) (data ! heap_next cmp i num data) \<le> 0" "cmp (data ! i) (data ! heap_next cmp i num data) \<le> 0"
proof -
  let ?l = "left_idx i"
  let ?n = "if cmp (data ! i) (data ! ?l) < 0 then ?l else i"
  have 1: "cmp (data ! i) (data ! ?n) \<le> 0" "cmp (data ! ?l) (data ! ?n) \<le> 0"
    using cmp_sign [of "data ! i" "data ! ?l"] by auto
  let ?h = "heap_next cmp i num data"
  have h: "?h = (if ?l + 1 < num \<and> cmp (data ! ?n) (data ! (?l + 1)) < 0 then ?l + 1 else ?n)"
    by (simp add: heap_next_def Let_def)
  have 2: "cmp (data ! ?n) (data ! ?h) \<le> 0" unfolding h by auto
  have 3: "?l + 1 < num \<longrightarrow> cmp (data ! (?l + 1)) (data ! ?h) \<le> 0"
    unfolding h using cmp_sign [of "data ! ?n" "data ! (?l + 1)"] by auto
  show "cmp (data ! i) (data ! ?h) \<le> 0" using cmp_trans [OF 1(1) 2] .
  show "cmp (data ! j) (data ! ?h) \<le> 0" using assms(2,3) cmp_trans [OF 1(2) 2] 3 by auto
qed

lemma heap_but_move:
  assumes but: "heap_but cmp i lo num data" and "lo \<le> i" and l: "left_idx i < num" "heap_next cmp i num data \<noteq> i"
    and len: "num \<le> length data" "i < num"
  defines "h \<equiv> heap_next cmp i num data"
  shows "heap_but cmp h lo num (swap i h data)"
proof -
  note h = heap_next_bound [OF l, folded h_def]
  have nth: "swap i h data ! k = (if k = h then data ! i else if k = i then data ! h else data ! k)" for k
    using h(1) len by (simp add: nth_swap)
  show ?thesis unfolding heap_but_def
  proof (intro allI impI, elim conjE)
    fix j assume j: "0 < j" "j < num" "lo \<le> parent_idx j"
    have jp: "parent_idx j < j" using j(1) by (rule parent_less)
    consider (hc) "parent_idx j = h" | (ic) "parent_idx j = i" | (ii) "j = i" | (other) "parent_idx j \<noteq> h" "parent_idx j \<noteq> i" "j \<noteq> i"
      by blast
    then show "if parent_idx j = h then 0 < h \<and> lo \<le> parent_idx h \<longrightarrow> cmp (swap i h data ! j) (swap i h data ! parent_idx h) \<le> 0
         else cmp (swap i h data ! j) (swap i h data ! parent_idx j) \<le> 0"
    proof cases
      case hc
      then have "cmp (data ! j) (data ! parent_idx j) \<le> 0" using but j h(2) by (auto simp: heap_but_def)
      then show ?thesis using hc jp h(2,3) nth by auto
    next
      case ic
      then have "cmp (data ! j) (data ! h) \<le> 0" "cmp (data ! i) (data ! h) \<le> 0"
        using heap_next_largest [OF l(1), of j data] j parent_eq [of j i] by (auto simp: h_def)
      then show ?thesis using ic h jp nth by auto
    next
      case ii
      then have "cmp (data ! h) (data ! parent_idx i) \<le> 0"
        using but j h assms(2) by (auto simp: heap_but_def)
      then show ?thesis using ii h jp nth by auto
    next
      case other
      then have "cmp (data ! j) (data ! parent_idx j) \<le> 0" using but j by (auto simp: heap_but_def)
      then show ?thesis using other nth h by auto
    qed
  qed
qed

lemma down_heap_heap:
  assumes "heap_but cmp i lo num data" "lo \<le> i" "num \<le> length data" "i < num"
  shows "heap_from cmp lo num (down_heap cmp i num data)"
  using assms
proof (induction i data rule: down_heap_induct [where num = num and cmp = cmp])
  case (stop i data)
  have "cmp (data ! j) (data ! i) \<le> 0" if "0 < j" "j < num" "parent_idx j = i" for j
  proof -
    have c: "j = left_idx i \<or> j = left_idx i + 1" using that parent_eq by blast
    then have "left_idx i < num" using that by auto
    then show ?thesis using heap_next_largest(1) [OF _ c that(2), of data] stop(1) by auto
  qed
  then have "cmp (data ! j) (data ! parent_idx j) \<le> 0" if "0 < j" "j < num" "lo \<le> parent_idx j" for j
    using stop(2) that by (cases "parent_idx j = i") (auto simp: heap_but_def)
  then have "heap_from cmp lo num data" by (simp add: heap_from_def)
  then show ?case using stop(1) by (subst down_heap_round) simp
next
  case (move i data)
  note b = heap_next_bound [OF move(1,2)]
  have "heap_from cmp lo num (down_heap cmp (heap_next cmp i num data) num (swap i (heap_next cmp i num data) data))"
    using move(3) [OF heap_but_move [OF move(4,5,1,2,6,7)]] move b by simp
  then show ?case using move(1,2) by (subst down_heap_round) auto
qed

lemma build_heap:
  assumes "heap_from cmp (Suc i) num data" "num \<le> length data" "i < num"
  shows "heap_from cmp 0 num (sk_build_heap cmp num i data) \<and>
    length (sk_build_heap cmp num i data) = length data \<and> mset (sk_build_heap cmp num i data) = mset data \<and>
    (\<forall>k \<ge> num. sk_build_heap cmp num i data ! k = data ! k)"
  using assms
proof (induction i arbitrary: data)
  case 0
  have "heap_but cmp 0 0 num data" using 0(1) by (auto simp: heap_from_def heap_but_def)
  then show ?case using down_heap_heap [of 0 0 num data] down_heap_frame [of num data 0 cmp] 0 by simp
next
  case (Suc i)
  have "heap_but cmp (Suc i) (Suc i) num data"
    using Suc.prems(1) parent_less [of "Suc i"] by (auto simp: heap_from_def heap_but_def)
  then have "heap_from cmp (Suc i) num (down_heap cmp (Suc i) num data)"
    using down_heap_heap [of "Suc i" "Suc i" num data] Suc.prems by simp
  from Suc.IH [OF this] down_heap_frame [of num data "Suc i" cmp] show ?case using Suc.prems by simp
qed

lemma heap_root:
  assumes "heap_from cmp 0 num xs" "j < num"
  shows "cmp (xs ! j) (xs ! 0) \<le> 0"
  using assms(2)
proof (induction j rule: less_induct)
  case (less j)
  show ?case
  proof (cases "j = 0")
    case False
    then have "cmp (xs ! j) (xs ! parent_idx j) \<le> 0" using assms(1) less.prems by (simp add: heap_from_def)
    moreover have "cmp (xs ! parent_idx j) (xs ! 0) \<le> 0"
      using less.IH [of "parent_idx j"] parent_less [of j] False less.prems by simp
    ultimately show ?thesis by (rule cmp_trans)
  qed simp
qed

text \<open>The invariant of the extraction: a heap below \<open>n\<close>, sorted from \<open>n\<close> on, and nothing below
  \<open>n\<close> exceeds what follows.\<close>

definition extracting :: "nat \<Rightarrow> nat \<Rightarrow> 'a list \<Rightarrow> bool" where
  "extracting n num xs \<longleftrightarrow>
     heap_from cmp 0 n xs \<and> (\<forall>j k. j < k \<and> n \<le> k \<and> k < num \<longrightarrow> cmp (xs ! j) (xs ! k) \<le> 0)"

lemma mset_below:
  assumes "mset xs = mset ys" "length xs = length ys" "\<forall>k \<ge> n. xs ! k = ys ! k"
  shows "mset (take n xs) = mset (take n ys)"
proof -
  have "drop n xs = drop n ys" using assms(2,3) by (intro nth_equalityI) simp_all
  moreover have "mset (take n xs) + mset (drop n xs) = mset (take n ys) + mset (drop n ys)"
    using assms(1) by (metis append_take_drop_id mset_append)
  ultimately show ?thesis by simp
qed

lemma extract_step:
  assumes "extracting (Suc i) num xs" "num \<le> length xs" "i < num" "0 < i"
  shows "extracting i num (down_heap cmp 0 i (swap 0 i xs))"
proof -
  let ?s = "swap 0 i xs" and ?d = "down_heap cmp 0 i (swap 0 i xs)"
  have nth: "?s ! k = (if k = i then xs ! 0 else if k = 0 then xs ! i else xs ! k)" for k
    using assms by (subst nth_swap) auto
  have heap: "heap_from cmp 0 (Suc i) xs" using assms(1) by (simp add: extracting_def)
  have "cmp (?s ! j) (?s ! parent_idx j) \<le> 0" if "0 < j" "j < i" "parent_idx j \<noteq> 0" for j
    using heap parent_less [OF that(1)] that by (simp add: heap_from_def nth)
  then have but: "heap_but cmp 0 0 i ?s" by (auto simp: heap_but_def)
  have len: "i \<le> length ?s" using assms by simp
  note fr = down_heap_frame [OF len assms(4), of cmp]
  have below: "set (take i ?d) = set (take i ?s)"
    using mset_below [of ?d ?s i] fr mset_eq_setD by blast
  have small: "\<exists>j' \<le> i. ?d ! j = xs ! j'" if "j < i" for j
  proof -
    have "take i ?d ! j \<in> set (take i ?d)" using that len fr by (intro nth_mem) simp
    then have "?d ! j \<in> set (take i ?s)" using that below by simp
    then obtain k where k: "k < i" "?d ! j = ?s ! k" by (auto simp: in_set_conv_nth)
    then show ?thesis using nth [of k] by (cases "k = 0") (auto intro: exI [of _ k])
  qed
  have "cmp (?d ! j) (?d ! k) \<le> 0" if "j < k" "i \<le> k" "k < num" for j k
  proof -
    have k: "?d ! k = (if k = i then xs ! 0 else xs ! k)" using fr that assms(4) nth [of k] by auto
    have bound: "cmp (xs ! j') (?d ! k) \<le> 0" if "j' \<le> i" for j'
      using that k heap_root [OF heap, of j'] assms(1) \<open>i \<le> k\<close> \<open>k < num\<close> by (auto simp: extracting_def)
    show ?thesis
    proof (cases "j < i")
      case True
      then show ?thesis using small bound by metis
    next
      case False
      then have j: "?d ! j = (if j = i then xs ! 0 else xs ! j)" using fr assms(4) nth [of j] by auto
      then show ?thesis using bound [of 0] k False that assms(1) by (auto simp: extracting_def)
    qed
  qed
  then show ?thesis using down_heap_heap [OF but _ len assms(4)] by (auto simp: extracting_def)
qed

lemma extract_all:
  assumes "extracting (Suc i) num xs" "num \<le> length xs" "i < num"
  shows "sorted_by cmp (take num (sk_extract cmp i xs)) \<and> length (sk_extract cmp i xs) = length xs \<and>
    mset (sk_extract cmp i xs) = mset xs \<and> (\<forall>k \<ge> num. sk_extract cmp i xs ! k = xs ! k)"
  using assms
proof (induction i arbitrary: xs)
  case 0
  then have "cmp (xs ! j) (xs ! k) \<le> 0" if "j < k" "k < num" for j k
    using that by (simp add: extracting_def)
  then show ?case using 0(2) by (simp add: sorted_wrt_iff_nth_less)
next
  case (Suc i)
  let ?d = "down_heap cmp 0 (Suc i) (swap 0 (Suc i) xs)"
  have len: "Suc i \<le> length (swap 0 (Suc i) xs)" using Suc.prems by simp
  note fr = down_heap_frame [OF len zero_less_Suc, of cmp]
  have ne: "xs \<noteq> []" using Suc.prems by auto
  have "swap 0 (Suc i) xs ! k = xs ! k" if "num \<le> k" for k
    using that Suc.prems by (subst nth_swap) auto
  then have d: "mset ?d = mset xs" "length ?d = length xs" "\<forall>k \<ge> num. ?d ! k = xs ! k"
    using fr Suc.prems mset_swap' [of 0 xs "Suc i"] ne by (auto simp del: mset_swap')
  have "extracting (Suc i) num ?d" using extract_step [OF Suc.prems zero_less_Suc] .
  from Suc.IH [OF this] d Suc.prems show ?case by simp
qed

lemma heap_sort:
  assumes "num \<le> length data" "2 \<le> num"
  defines "res \<equiv> sk_extract cmp (num - 1) (sk_build_heap cmp num (parent_idx (num - 1)) data)"
  shows "sorted_by cmp (take num res)" "mset (take num res) = mset (take num data)" "length res = length data"
    "drop num res = drop num data"
proof -
  let ?h = "sk_build_heap cmp num (parent_idx (num - 1)) data"
  have p: "parent_idx (num - 1) < num" using parent_less [of "num - 1"] assms(2) by simp
  have "parent_idx j \<le> parent_idx (num - 1)" if "j < num" for j
    using that by (simp add: parent_idx_def div_le_mono)
  then have "heap_from cmp (Suc (parent_idx (num - 1))) num data"
    using not_less_eq_eq by (fastforce simp: heap_from_def)
  note b = build_heap [OF this assms(1) p]
  have ex: "extracting (Suc (num - 1)) num ?h" using b assms(2) by (simp add: extracting_def)
  have ln: "num \<le> length ?h" "num - 1 < num" using b assms(1,2) by auto
  note e = extract_all [OF ex ln, folded res_def]
  have res: "mset res = mset data" "length res = length data" "\<forall>k \<ge> num. res ! k = data ! k" using e b by auto
  show "sorted_by cmp (take num res)" using e by simp
  show "length res = length data" by (rule res(2))
  show "mset (take num res) = mset (take num data)" by (rule mset_below [OF res])
  show "drop num res = drop num data" using res(2,3) by (intro nth_equalityI) simp_all
qed

lemma bsearch_linear:
  assumes s: "sorted_by cmp (take num xs)" "num \<le> length xs" and "hi \<le> num"
  shows "sk_bsearch (cmp p) xs lo hi = List.find (\<lambda>i. cmp p (xs ! i) = 0) [lo..<hi]"
  using assms(3)
proof (induction "hi - lo" arbitrary: lo hi rule: less_induct)
  case (less lo hi)
  have mono: "cmp (xs ! i) (xs ! j) \<le> 0" if "i \<le> j" "j < num" for i j
    using s that by (cases "i = j") (auto simp: sorted_wrt_iff_nth_less)
  show ?case
  proof (cases "lo < hi")
    case True
    define mid where "mid = lo + (hi - lo - 1) div 2"
    have mid: "lo \<le> mid" "mid < hi" using True by (auto simp: mid_def)
    have rest: "hi - (mid + 1) < hi - lo" "mid - lo < hi - lo" "hi - lo \<noteq> 1 \<Longrightarrow> mid + 1 < hi"
      using mid True by (auto simp: mid_def)
    note round = sk_bsearch.simps [of "cmp p" xs lo hi, folded mid_def, unfolded Let_def]
    consider "cmp p (xs ! mid) > 0" | "cmp p (xs ! mid) < 0" | "cmp p (xs ! mid) = 0" by linarith
    then show ?thesis
    proof cases
      case 1
      then have "cmp p (xs ! i) \<noteq> 0" if "i \<le> mid" for i
        using cmp_less_trans' [OF mono [OF that], of p] cmp_sign [of "xs ! mid" p] cmp_sign [of "xs ! i" p] mid less.prems by auto
      then have "List.find (\<lambda>i. cmp p (xs ! i) = 0) [lo..<mid + 1] = None" by (auto simp: find_None_iff)
      then show ?thesis using 1 True less.hyps [OF rest(1)] less.prems mid upt_split [of lo "mid + 1" hi]
        by (auto simp: round find_append split: option.splits)
    next
      case 2
      then have "cmp p (xs ! i) \<noteq> 0" if "mid \<le> i" "i < hi" for i
        using cmp_less_trans [OF _ mono [OF that(1)], of p] that less.prems by fastforce
      then have "List.find (\<lambda>i. cmp p (xs ! i) = 0) [mid..<hi] = None" by (auto simp: find_None_iff)
      then show ?thesis using 2 True less.hyps [OF rest(2)] less.prems mid upt_split [of lo mid hi]
        by (simp add: round find_append split: option.splits)
    next
      case 3
      show ?thesis
      proof (cases "hi - lo = 1")
        case True
        then have "[lo..<hi] = [mid]" using mid by (simp add: mid_def upt_rec)
        then show ?thesis using True 3 mid by (simp add: round)
      next
        case False
        have "List.find (\<lambda>i. cmp p (xs ! i) = 0) [lo..<mid + 1] \<noteq> None"
          using 3 mid by (auto simp: find_None_iff)
        moreover have "mid + 1 - lo < hi - lo" using rest(3) [OF False] mid by simp
        ultimately show ?thesis using 3 True False less.hyps [of "mid + 1" lo] less.prems mid upt_split [of lo "mid + 1" hi]
          by (auto simp: round find_append split: option.splits)
      qed
    qed
  next
    case False
    then show ?thesis by (simp add: sk_bsearch.simps)
  qed
qed

end

section \<open>A stack as a sequence\<close>

text \<open>The contract of a sequence with insertion and deletion by index: an insertion returns the
  new length, or zero when it has changed nothing.\<close>

locale sequence =
  fixes elems :: "'s \<Rightarrow> 'a list" and ok :: "'s \<Rightarrow> bool"
    and insert_at :: "'s \<Rightarrow> 'a \<Rightarrow> nat \<Rightarrow> nat \<times> 's" and delete_at :: "'s \<Rightarrow> nat \<Rightarrow> 'a \<times> 's"
  assumes insert_law: "ok s \<Longrightarrow> insert_at s x i = (r, s') \<Longrightarrow> ok s' \<and>
      (if r = 0 then s' = s else elems s' = take i (elems s) @ x # drop i (elems s) \<and> r = length (elems s'))"
    and delete_law: "ok s \<Longrightarrow> i < length (elems s) \<Longrightarrow> delete_at s i = (x, s') \<Longrightarrow>
      ok s' \<and> x = elems s ! i \<and> elems s' = take i (elems s) @ drop (Suc i) (elems s)"
begin

lemma delete_inserted:
  assumes "ok s" "insert_at s x i = (r, s')" "r \<noteq> 0" "i \<le> length (elems s)" "delete_at s' i = (y, s'')"
  shows "y = x \<and> elems s'' = elems s"
proof -
  have s': "ok s'" "elems s' = take i (elems s) @ x # drop i (elems s)" using insert_law [OF assms(1,2)] assms(3) by simp_all
  then have "i < length (elems s')" using assms(4) by simp
  from delete_law [OF s'(1) this assms(5)] s'(2) assms(4) show ?thesis by (simp add: nth_append)
qed

lemma queue_order:
  assumes "ok s" "insert_at s x (length (elems s)) = (r, s')" "r \<noteq> 0" "elems s \<noteq> []" "delete_at s' 0 = (y, s'')"
  shows "y = hd (elems s) \<and> elems s'' = tl (elems s) @ [x]"
proof -
  have s': "ok s'" "elems s' = elems s @ [x]" using insert_law [OF assms(1,2)] assms(3) by simp_all
  then have "0 < length (elems s')" by simp
  from delete_law [OF s'(1) this assms(5)] s'(2) assms(4) show ?thesis
    by (cases "elems s") simp_all
qed

end

definition sk_elems :: "('p, 'f) stack \<Rightarrow> 'p ptr list" where
  "sk_elems sk = take (st_num sk) (st_data sk)"

text \<open>The invariant of a stack: the array has room for another element, and a set flag
  means ascending order for the comparison function.\<close>

definition stack_ok :: "('f \<Rightarrow> 'p ptr cmp) \<Rightarrow> ('p, 'f) stack \<Rightarrow> bool" where
  "stack_ok call_cmp_func sk \<longleftrightarrow>
     st_num sk < st_num_alloc sk \<and> length (st_data sk) = st_num_alloc sk \<and> st_num sk \<le> INT_MAX \<and>
     st_num_alloc sk * 8 \<le> SIZE_MAX \<and>
     (st_sorted sk \<longrightarrow> (case st_comp sk of None \<Rightarrow> False | Some f \<Rightarrow> sorted_by (call_cmp_func f) (sk_elems sk)))"

lemma stack_okD:
  "stack_ok call sk \<Longrightarrow> st_num sk < length (st_data sk)" "stack_ok call sk \<Longrightarrow> length (st_data sk) = st_num_alloc sk"
  "stack_ok call sk \<Longrightarrow> length (sk_elems sk) = st_num sk"
  by (simp_all add: stack_ok_def sk_elems_def)

lemma size_mul_exact: "size_mul a 8 div 8 = a \<Longrightarrow> a * 8 \<le> SIZE_MAX"
  unfolding size_mul_def by linarith

lemma sk_grow_ok:
  assumes "sk_grow m uninit sk = Some sk'" "stack_ok call sk"
  shows "stack_ok call sk' \<and> sk_elems sk' = sk_elems sk \<and> st_num sk' = st_num sk \<and> st_num sk + 1 < st_num_alloc sk'"
proof -
  let ?n = "st_num_alloc sk"
  have n: "?n * 8 \<le> SIZE_MAX" "st_num sk < ?n" "length (st_data sk) = ?n" using assms(2) by (simp_all add: stack_ok_def)
  have two: "size_mul ?n 2 = ?n * 2" "size_add ?n 1 = ?n + 1"
    using n by (simp_all add: size_mul_nowrap size_add_nowrap)
  obtain new where new: "?n < new" "new * 8 \<le> SIZE_MAX"
    "sk' = sk\<lparr>st_data := take new (st_data sk) @ map uninit [?n..<new], st_num_alloc := new\<rparr>"
  proof -
    consider "size_mul (?n * 2) 8 div 8 = ?n * 2" | "size_mul (?n + 1) 8 div 8 = ?n + 1"
        "sk' = sk\<lparr>st_data := take (?n + 1) (st_data sk) @ map uninit [?n..<?n + 1], st_num_alloc := ?n + 1\<rparr>"
      using assms(1) n by (auto simp: sk_grow_def Let_def two two(2) [unfolded One_nat_def] split: if_splits option.splits)
    then show thesis
    proof cases
      case 1
      then have "sk' = sk\<lparr>st_data := take (?n * 2) (st_data sk) @ map uninit [?n..<?n * 2], st_num_alloc := ?n * 2\<rparr>"
        using assms(1) n by (auto simp: sk_grow_def Let_def two two(2) [unfolded One_nat_def] split: if_splits option.splits)
      then show thesis using that [of "?n * 2"] size_mul_exact [OF 1] n by simp
    next
      case 2
      then show thesis using that [of "?n + 1"] size_mul_exact [OF 2(1)] by simp
    qed
  qed
  show ?thesis using new n assms(2) by (auto simp: stack_ok_def sk_elems_def split: option.splits)
qed

lemma take_Suc_update: "n < length xs \<Longrightarrow> take (Suc n) (xs[n := x]) = take n xs @ [x]"
  by (simp add: take_Suc_conv_app_nth)

lemma take_insert:
  "i < n \<Longrightarrow> n < length xs \<Longrightarrow> take (Suc n) ((memmove (Suc i) i (n - i) xs)[i := x]) = take i xs @ x # drop i (take n xs)"
proof -
  assume a: "i < n" "n < length xs"
  have "memmove (Suc i) i (n - i) xs = take (Suc i) xs @ drop i (take n xs) @ drop (Suc n) xs"
    using a by (simp add: memmove_def drop_take)
  also have "take (Suc i) xs = take i xs @ [xs ! i]" using a by (simp add: take_Suc_conv_app_nth)
  finally show ?thesis using a by (simp add: list_update_append Suc_diff_le)
qed

lemma sk_insert_ok:
  assumes "stack_ok call sk" "OPENSSL_sk_insert m uninit (Some sk) p i = (r, sk')"
  shows "\<exists>st. sk' = Some st \<and> stack_ok call st \<and>
    (if r = 0 then st = sk else sk_elems st = take i (sk_elems sk) @ p # drop i (sk_elems sk) \<and> r = length (sk_elems st))"
proof -
  define grown where "grown = (if st_num_alloc sk \<le> st_num sk + 1 then sk_grow m uninit sk else Some sk)"
  show ?thesis
  proof (cases "st_num sk \<ge> INT_MAX \<or> grown = None")
    case True
    then have "OPENSSL_sk_insert m uninit (Some sk) p i = (0, Some sk)"
      unfolding OPENSSL_sk_insert_def option.case grown_def [symmetric] by auto
    then show ?thesis using assms by simp
  next
    case False
    then obtain g where g: "grown = Some g" by auto
    have ok: "stack_ok call g" "sk_elems g = sk_elems sk" "st_num g = st_num sk" "st_num g + 1 < st_num_alloc g"
      using g assms(1) sk_grow_ok [of m uninit sk g call] by (auto simp: grown_def split: if_splits)
    define data where "data = (if i \<ge> st_num g then (st_data g)[st_num g := p]
        else (memmove (i + 1) i (st_num g - i) (st_data g))[i := p])"
    have st: "r = st_num g + 1" "sk' = Some (g\<lparr>st_data := data, st_num := st_num g + 1, st_sorted := False\<rparr>)"
      using assms(2) False g unfolding OPENSSL_sk_insert_def data_def grown_def by (auto simp: Let_def)
    have len: "st_num g < length (st_data g)" by (rule stack_okD(1) [OF ok(1)])
    let ?st = "g\<lparr>st_data := data, st_num := st_num g + 1, st_sorted := False\<rparr>"
    have "take (Suc (st_num g)) data = take i (sk_elems g) @ p # drop i (sk_elems g)"
      using len by (cases "st_num g \<le> i") (simp_all add: data_def sk_elems_def take_Suc_update take_insert)
    then have el: "sk_elems ?st = take i (sk_elems sk) @ p # drop i (sk_elems sk)"
      using ok(2) unfolding sk_elems_def [of ?st] by simp
    have "length data = length (st_data g)" using len by (auto simp: data_def memmove_def)
    then have "stack_ok call ?st" using ok False by (simp add: stack_ok_def)
    then show ?thesis using st el stack_okD(3) [of call ?st] by simp
  qed
qed

lemma sk_delete_ok:
  assumes "stack_ok call sk" "OPENSSL_sk_delete (Some sk) i = (x, sk')" "i < st_num sk"
  shows "\<exists>st. sk' = Some st \<and> stack_ok call st \<and> x = sk_elems sk ! i \<and>
    sk_elems st = take i (sk_elems sk) @ drop (Suc i) (sk_elems sk)"
proof -
  define data where "data = (if i \<noteq> st_num sk - 1 then memmove i (i + 1) (st_num sk - i - 1) (st_data sk) else st_data sk)"
  have st: "x = st_data sk ! i" "sk' = Some (sk\<lparr>st_data := data, st_num := st_num sk - 1\<rparr>)"
    using assms(2,3) by (auto simp: OPENSSL_sk_delete_def Let_def data_def)
  have len: "st_num sk < length (st_data sk)" by (rule stack_okD(1) [OF assms(1)])
  have el: "take (st_num sk - 1) data = take i (sk_elems sk) @ drop (Suc i) (sk_elems sk)"
    using len assms(3) by (auto simp: data_def memmove_def sk_elems_def drop_take min_def)
  have l: "length data = length (st_data sk)" using len assms(3) by (auto simp: data_def memmove_def)
  have "sorted_by c (take i (sk_elems sk) @ drop (Suc i) (sk_elems sk))" if "sorted_by c (sk_elems sk)" for c
  proof -
    have "sk_elems sk = take i (sk_elems sk) @ sk_elems sk ! i # drop (Suc i) (sk_elems sk)"
      using assms(3) len by (intro id_take_nth_drop) (simp add: sk_elems_def)
    with that have "sorted_by c (take i (sk_elems sk) @ sk_elems sk ! i # drop (Suc i) (sk_elems sk))" by metis
    then show ?thesis by (simp add: sorted_wrt_append)
  qed
  then show ?thesis using assms(1,3) st el l len by (auto simp: stack_ok_def sk_elems_def split: option.splits)
qed

lemma delete_if_loop:
  assumes "new_num \<le> i" "i + k \<le> length data" "sk_delete_if_loop f [i..<i + k] new_num data = (n, data')"
  shows "length data' = length data \<and> n \<le> new_num + k \<and>
    take n data' = take new_num data @ filter (\<lambda>p. \<not> f p) (take k (drop i data))"
  using assms
proof (induction k arbitrary: i new_num data)
  case (Suc k)
  have i: "i < length data" "[i..<i + Suc k] = i # [Suc i..<Suc i + k]" using Suc.prems by (simp_all add: upt_rec [of i])
  have d: "take (Suc k) (drop i data) = data ! i # take k (drop (Suc i) data)"
    using i(1) by (simp add: Cons_nth_drop_Suc [symmetric])
  show ?case
  proof (cases "f (data ! i)")
    case True
    then show ?thesis using Suc.IH [of new_num "Suc i" data] Suc.prems i d by auto
  next
    case False
    let ?d = "data[new_num := data ! i]"
    have t: "take (Suc new_num) ?d = take new_num data @ [data ! i]" using i Suc.prems by (intro take_Suc_update) simp
    have "drop (Suc i) ?d = drop (Suc i) data" using Suc.prems by simp
    with False t show ?thesis using Suc.IH [of "Suc new_num" "Suc i" ?d] Suc.prems i d by auto
  qed
qed simp

lemma sk_delete_if_ok:
  assumes "stack_ok call sk"
  shows "\<exists>st. OPENSSL_sk_delete_if f (Some sk) = Some st \<and> stack_ok call st \<and>
    sk_elems st = filter (\<lambda>p. \<not> f p) (sk_elems sk)"
proof -
  obtain n data where l: "sk_delete_if_loop f [0..<st_num sk] 0 (st_data sk) = (n, data)" by fastforce
  have r: "length data = length (st_data sk)" "n \<le> st_num sk" "take n data = filter (\<lambda>p. \<not> f p) (sk_elems sk)"
    using delete_if_loop [of 0 0 "st_num sk" "st_data sk" f n data] l stack_okD [OF assms] by (simp_all add: sk_elems_def)
  let ?st = "sk\<lparr>st_data := data, st_num := n\<rparr>"
  have el: "sk_elems ?st = filter (\<lambda>p. \<not> f p) (sk_elems sk)" using r(3) by (simp add: sk_elems_def)
  have "stack_ok call ?st" unfolding stack_ok_def el using assms r(1,2)
    by (auto simp: stack_ok_def sorted_wrt_filter split: option.splits)
  then show ?thesis using l el by (simp add: OPENSSL_sk_delete_if_def)
qed

lemma sk_sort_ok:
  assumes ok: "stack_ok call sk" and cmp: "\<forall>f. comparator (call f)"
  shows "\<exists>st. OPENSSL_sk_sort call (Some sk) = Some st \<and> stack_ok call st \<and> mset (sk_elems st) = mset (sk_elems sk) \<and>
    (st_comp sk \<noteq> None \<longrightarrow> st_sorted st) \<and> st_comp st = st_comp sk"
proof (cases "st_sorted sk \<or> st_comp sk = None")
  case True
  then show ?thesis using ok by (auto simp: OPENSSL_sk_sort_def split: option.splits)
next
  case False
  then obtain f where f: "st_comp sk = Some f" by auto
  define data where "data = (if st_num sk \<ge> 2
      then sk_extract (call f) (st_num sk - 1) (sk_build_heap (call f) (st_num sk) (parent_idx (st_num sk - 1)) (st_data sk))
      else st_data sk)"
  let ?st = "sk\<lparr>st_data := data, st_sorted := True\<rparr>"
  have len: "st_num sk \<le> length (st_data sk)" using stack_okD(1) [OF ok] by simp
  have "sorted_by (call f) (take (st_num sk) data) \<and> mset (take (st_num sk) data) = mset (sk_elems sk) \<and> length data = length (st_data sk)"
  proof (cases "2 \<le> st_num sk")
    case True
    then show ?thesis using comparator.heap_sort [OF cmp [rule_format] len True] by (simp add: data_def sk_elems_def)
  next
    case F: False
    then have "length (sk_elems sk) \<le> 1" using stack_okD(3) [OF ok] by simp
    then show ?thesis using F by (cases "sk_elems sk") (auto simp: data_def sk_elems_def [symmetric])
  qed
  then have "stack_ok call ?st" "mset (sk_elems ?st) = mset (sk_elems sk)"
    using ok f by (simp_all add: stack_ok_def sk_elems_def)
  then show ?thesis using f False by (auto simp: OPENSSL_sk_sort_def Let_def data_def)
qed

lemma sk_find_ok:
  assumes "stack_ok call sk" "\<forall>f. comparator (call f)"
  shows "OPENSSL_sk_find call (Some sk) p =
    (case st_comp sk of
       None \<Rightarrow> List.find (\<lambda>i. sk_elems sk ! i = p) [0..<length (sk_elems sk)]
     | Some f \<Rightarrow> if p = None then None else List.find (\<lambda>i. call f p (sk_elems sk ! i) = 0) [0..<length (sk_elems sk)])"
proof -
  have n: "st_num sk \<le> length (st_data sk)" "length (sk_elems sk) = st_num sk" using stack_okD [OF assms(1)] by simp_all
  have find: "List.find (\<lambda>i. P (sk_elems sk ! i)) [0..<st_num sk] = List.find (\<lambda>i. P (st_data sk ! i)) [0..<st_num sk]" for P
    by (rule find_cong) (simp_all add: sk_elems_def)
  show ?thesis
  proof (cases "st_comp sk")
    case None
    then show ?thesis using find [of "\<lambda>x. x = p"] by (simp add: OPENSSL_sk_find_def n)
  next
    case (Some f)
    have "sorted_by (call f) (take (st_num sk) (st_data sk))" if "OPENSSL_sk_is_sorted (Some sk)"
    proof (cases "st_sorted sk")
      case True
      then show ?thesis using assms(1) Some by (simp add: stack_ok_def sk_elems_def)
    next
      case False
      then have "length (sk_elems sk) \<le> 1" using that n by (auto simp: OPENSSL_sk_is_sorted_def)
      then show ?thesis by (cases "sk_elems sk") (auto simp: sk_elems_def [symmetric])
    qed
    then show ?thesis
      using comparator.bsearch_linear [OF assms(2) [rule_format] _ n(1) order.refl] Some
      using find [of "\<lambda>x. call f p x = 0"] by (simp add: OPENSSL_sk_find_def n)
  qed
qed

lemma sk_new_ok: "OPENSSL_sk_new m c = Some sk \<Longrightarrow> stack_ok call sk \<and> sk_elems sk = []"
  by (auto simp: OPENSSL_sk_new_def stack_ok_def sk_elems_def split: option.splits)

lemma sk_zero_ok: "stack_ok call sk \<Longrightarrow> OPENSSL_sk_zero (Some sk) = Some sk' \<Longrightarrow> stack_ok call sk' \<and> sk_elems sk' = []"
  by (auto simp: OPENSSL_sk_zero_def stack_ok_def sk_elems_def split: if_splits)

lemma sk_dup_ok:
  assumes "stack_ok call sk" "OPENSSL_sk_dup m (Some sk) = Some sk'"
  shows "stack_ok call sk' \<and> sk_elems sk' = sk_elems sk \<and> st_comp sk' = st_comp sk"
proof -
  have "size_mul 8 (st_num_alloc sk) = st_num_alloc sk * 8" using assms(1) by (simp add: stack_ok_def size_mul_nowrap mult.commute)
  then have "sk' = sk" using assms by (auto simp: OPENSSL_sk_dup_def Let_def stack_ok_def split: option.splits if_splits)
  then show ?thesis using assms(1) by simp
qed

lemma sk_set_cmp_ok: "stack_ok call sk \<Longrightarrow> OPENSSL_sk_set_cmp_func sk c = (old, sk') \<Longrightarrow> stack_ok call sk' \<and> sk_elems sk' = sk_elems sk"
  by (auto simp: OPENSSL_sk_set_cmp_func_def Let_def stack_ok_def sk_elems_def split: if_splits option.splits)

lemma sk_set_ok:
  "stack_ok call sk \<Longrightarrow> \<not> st_sorted sk \<Longrightarrow> OPENSSL_sk_set (Some sk) i p = (r, Some sk') \<Longrightarrow>
   stack_ok call sk' \<and> sk_elems sk' = (sk_elems sk)[i := p]"
  by (auto simp: OPENSSL_sk_set_def stack_ok_def sk_elems_def take_update_swap list_update_beyond split: if_splits)

interpretation sk: sequence sk_elems "stack_ok call"
  "\<lambda>sk p i. map_prod id the (OPENSSL_sk_insert m uninit (Some sk) p i)"
  "\<lambda>sk i. map_prod id the (OPENSSL_sk_delete (Some sk) i)"
proof
  fix s s' x i r
  assume "stack_ok call s" "map_prod id the (OPENSSL_sk_insert m uninit (Some s) x i) = (r, s')"
  then show "stack_ok call s' \<and> (if r = 0 then s' = s else sk_elems s' = take i (sk_elems s) @ x # drop i (sk_elems s) \<and> r = length (sk_elems s'))"
    using sk_insert_ok [of call s m uninit x i] by (cases "OPENSSL_sk_insert m uninit (Some s) x i") fastforce
next
  fix s s' x i
  assume "stack_ok call s" "i < length (sk_elems s)" "map_prod id the (OPENSSL_sk_delete (Some s) i) = (x, s')"
  then show "stack_ok call s' \<and> x = sk_elems s ! i \<and> sk_elems s' = take i (sk_elems s) @ drop (Suc i) (sk_elems s)"
    using sk_delete_ok [of call s i] stack_okD(3) [of call s] by (cases "OPENSSL_sk_delete (Some s) i") fastforce
qed

section \<open>Properties\<close>

text \<open>The stacks a program can reach.  \<open>OPENSSL_sk_set\<close> leaves the flag of a sorted stack
  alone, so it is a step only for stacks that are not marked as sorted.\<close>

inductive stack_reaches ::
  "malloc \<Rightarrow> (nat \<Rightarrow> 'p ptr) \<Rightarrow> ('f \<Rightarrow> 'p ptr cmp) \<Rightarrow> ('p, 'f) stack \<Rightarrow> bool" for m uninit call where
  sk_new: "OPENSSL_sk_new m c = Some sk \<Longrightarrow> stack_reaches m uninit call sk"
| sk_insert: "stack_reaches m uninit call sk \<Longrightarrow> OPENSSL_sk_insert m uninit (Some sk) p i = (r, Some sk') \<Longrightarrow>
    stack_reaches m uninit call sk'"
| sk_delete: "stack_reaches m uninit call sk \<Longrightarrow> OPENSSL_sk_delete (Some sk) i = (r, Some sk') \<Longrightarrow>
    stack_reaches m uninit call sk'"
| sk_delete_if: "stack_reaches m uninit call sk \<Longrightarrow> OPENSSL_sk_delete_if f (Some sk) = Some sk' \<Longrightarrow>
    stack_reaches m uninit call sk'"
| sk_zero: "stack_reaches m uninit call sk \<Longrightarrow> OPENSSL_sk_zero (Some sk) = Some sk' \<Longrightarrow> stack_reaches m uninit call sk'"
| sk_set: "stack_reaches m uninit call sk \<Longrightarrow> \<not> st_sorted sk \<Longrightarrow> OPENSSL_sk_set (Some sk) i p = (r, Some sk') \<Longrightarrow>
    stack_reaches m uninit call sk'"
| sk_sort: "stack_reaches m uninit call sk \<Longrightarrow> OPENSSL_sk_sort call (Some sk) = Some sk' \<Longrightarrow> stack_reaches m uninit call sk'"
| sk_set_cmp: "stack_reaches m uninit call sk \<Longrightarrow> OPENSSL_sk_set_cmp_func sk c = (old, sk') \<Longrightarrow>
    stack_reaches m uninit call sk'"
| sk_dup: "stack_reaches m uninit call sk \<Longrightarrow> OPENSSL_sk_dup m (Some sk) = Some sk' \<Longrightarrow> stack_reaches m uninit call sk'"

lemma sk_delete_keeps_ok: "stack_ok call sk \<Longrightarrow> OPENSSL_sk_delete (Some sk) i = (r, Some sk') \<Longrightarrow> stack_ok call sk'"
  using sk_delete_ok [of call sk i r "Some sk'"] by (cases "i < st_num sk") (auto simp: OPENSSL_sk_delete_def)

lemma sk_grow_works:
  assumes "\<forall>n. m n \<noteq> None" "st_num_alloc sk \<le> INT_MAX"
  shows "sk_grow m uninit sk \<noteq> None"
proof -
  have s: "size_mul (st_num_alloc sk) 2 = st_num_alloc sk * 2" "size_mul (st_num_alloc sk * 2) 8 = st_num_alloc sk * 16"
      "size_add (st_num_alloc sk * 16) 8 = st_num_alloc sk * 16 + 8"
    using assms(2) by (simp_all add: size_mul_nowrap size_add_nowrap)
  have "OPENSSL_malloc m (st_num_alloc sk * 16) \<noteq> None"
    using assms(1) by (auto simp: OPENSSL_malloc_def s(3) split: option.splits)
  then show ?thesis by (simp add: sk_grow_def Let_def s(1,2) split: option.split)
qed


text \<open>C20.  A stack is a sequence.  An insertion puts the element in front of the given position
  or at the end and returns the new length, or returns zero and changes nothing; it fails only
  for lack of memory or at \<open>INT_MAX\<close> elements.  A deletion returns the element it removes, and
  so do \<open>OPENSSL_sk_shift\<close> at the front and \<open>OPENSSL_sk_pop\<close> at the end.
  \<open>OPENSSL_sk_delete_if\<close> keeps the elements that do not match, in order.\<close>

theorem stack_is_sequence:
  assumes "stack_ok call sk"
  shows "(\<exists>r sk'. OPENSSL_sk_insert m uninit (Some sk) p i = (r, Some sk') \<and>
        (if r = 0 then sk' = sk \<and> (INT_MAX \<le> st_num sk \<or> (\<exists>n. m n = None))
         else sk_elems sk' = take i (sk_elems sk) @ p # drop i (sk_elems sk) \<and> r = length (sk_elems sk'))) \<and>
    (i < length (sk_elems sk) \<longrightarrow>
      (\<exists>sk'. OPENSSL_sk_delete (Some sk) i = (sk_elems sk ! i, Some sk') \<and>
        sk_elems sk' = take i (sk_elems sk) @ drop (Suc i) (sk_elems sk))) \<and>
    (sk_elems sk \<noteq> [] \<longrightarrow>
      (\<exists>sk'. OPENSSL_sk_shift (Some sk) = (hd (sk_elems sk), Some sk') \<and> sk_elems sk' = tl (sk_elems sk))) \<and>
    (sk_elems sk \<noteq> [] \<longrightarrow>
      (\<exists>sk'. OPENSSL_sk_pop (Some sk) = (last (sk_elems sk), Some sk') \<and> sk_elems sk' = butlast (sk_elems sk))) \<and>
    (\<exists>sk'. OPENSSL_sk_delete_if f (Some sk) = Some sk' \<and> sk_elems sk' = filter (\<lambda>p. \<not> f p) (sk_elems sk))"
proof (intro conjI impI)
  have len: "length (sk_elems sk) = st_num sk" by (rule stack_okD(3) [OF assms])
  have del: "\<exists>sk'. OPENSSL_sk_delete (Some sk) i = (sk_elems sk ! i, Some sk') \<and>
        sk_elems sk' = take i (sk_elems sk) @ drop (Suc i) (sk_elems sk)" if "i < length (sk_elems sk)" for i
    using sk_delete_ok [OF assms, of i] that len by (cases "OPENSSL_sk_delete (Some sk) i") auto
  show "\<exists>sk'. OPENSSL_sk_delete (Some sk) i = (sk_elems sk ! i, Some sk') \<and>
        sk_elems sk' = take i (sk_elems sk) @ drop (Suc i) (sk_elems sk)" if "i < length (sk_elems sk)"
    using del [OF that] .
  show "\<exists>sk'. OPENSSL_sk_shift (Some sk) = (hd (sk_elems sk), Some sk') \<and> sk_elems sk' = tl (sk_elems sk)"
    if "sk_elems sk \<noteq> []"
    using del [of 0] that len by (cases "sk_elems sk") (auto simp: OPENSSL_sk_shift_def)
  show "\<exists>sk'. OPENSSL_sk_pop (Some sk) = (last (sk_elems sk), Some sk') \<and> sk_elems sk' = butlast (sk_elems sk)"
    if "sk_elems sk \<noteq> []"
    using del [of "st_num sk - 1"] that len length_greater_0_conv [of "sk_elems sk"] by (auto simp: OPENSSL_sk_pop_def last_conv_nth butlast_conv_take)
  show "\<exists>sk'. OPENSSL_sk_delete_if f (Some sk) = Some sk' \<and> sk_elems sk' = filter (\<lambda>p. \<not> f p) (sk_elems sk)"
    using sk_delete_if_ok [OF assms] by blast
  obtain r sk' where ins: "OPENSSL_sk_insert m uninit (Some sk) p i = (r, Some sk')"
    using sk_insert_ok [OF assms, of m uninit p i] by (cases "OPENSSL_sk_insert m uninit (Some sk) p i") auto
  have "INT_MAX \<le> st_num sk \<or> (\<exists>n. m n = None)" if "r = 0"
  proof (rule ccontr)
    assume "\<not> ?thesis"
    then have a: "st_num sk < INT_MAX" "\<forall>n. m n \<noteq> None" by auto
    have "sk_grow m uninit sk \<noteq> None" if "st_num_alloc sk \<le> st_num sk + 1"
      using that a(1) by (intro sk_grow_works [OF a(2)]) simp
    then show False using ins that a(1) by (auto simp: OPENSSL_sk_insert_def Let_def split: if_splits option.splits)
  qed
  then show "\<exists>r sk'. OPENSSL_sk_insert m uninit (Some sk) p i = (r, Some sk') \<and>
        (if r = 0 then sk' = sk \<and> (INT_MAX \<le> st_num sk \<or> (\<exists>n. m n = None))
         else sk_elems sk' = take i (sk_elems sk) @ p # drop i (sk_elems sk) \<and> r = length (sk_elems sk'))"
    using ins sk_insert_ok [OF assms ins] by (intro exI [of _ r] exI [of _ sk']) auto
qed

text \<open>C6.  The search in a stack finds the first matching element, whichever way it runs: after
  sorting, when it is a binary search, and before, when it is a scan.  Sorting permutes the
  elements into ascending order.\<close>

theorem stack_sort_and_find:
  assumes "\<forall>f. comparator (call f)" and "stack_ok call sk" and "st_comp sk = Some f"
  shows "\<exists>st. OPENSSL_sk_sort call (Some sk) = Some st \<and> st_sorted st \<and>
      sorted_by (call f) (sk_elems st) \<and> mset (sk_elems st) = mset (sk_elems sk) \<and>
      (\<forall>s \<in> {sk, st}. \<forall>p. OPENSSL_sk_find call (Some s) (Some p) =
         List.find (\<lambda>i. call f (Some p) (sk_elems s ! i) = 0) [0..<length (sk_elems s)])"
proof -
  obtain st where st: "OPENSSL_sk_sort call (Some sk) = Some st" "stack_ok call st" "mset (sk_elems st) = mset (sk_elems sk)"
      "st_sorted st" "st_comp st = Some f"
    using sk_sort_ok [OF assms(2,1)] assms(3) by auto
  have "sorted_by (call f) (sk_elems st)" using st by (simp add: stack_ok_def)
  moreover have "\<forall>s \<in> {sk, st}. \<forall>p. OPENSSL_sk_find call (Some s) (Some p) =
         List.find (\<lambda>i. call f (Some p) (sk_elems s ! i) = 0) [0..<length (sk_elems s)]"
    using sk_find_ok [OF assms(2,1)] sk_find_ok [OF st(2) assms(1)] assms(3) st(5) by auto
  ultimately show ?thesis using st by blast
qed

section \<open>Concrete stacks\<close>

text \<open>Pointers to numbers, compared by the numbers.\<close>

definition nat_cmp :: "nat ptr cmp" where
  "nat_cmp a b = (case a of None \<Rightarrow> 0 | Some n \<Rightarrow> int n + 1) - (case b of None \<Rightarrow> 0 | Some n \<Rightarrow> int n + 1)"

lemma nat_cmp_comparator: "comparator nat_cmp"
  by unfold_locales (simp_all add: nat_cmp_def)

definition three :: "(nat, unit) stack" where
  "three = \<lparr>st_num = 3, st_data = [Some 2, Some 0, Some 1, None], st_sorted = False, st_num_alloc = 4, st_comp = Some ()\<rparr>"

lemma three_ok: "stack_ok (\<lambda>_. nat_cmp) three" "sk_elems three = [Some 2, Some 0, Some 1]"
  by (simp_all add: three_def stack_ok_def sk_elems_def)


lemma stack_is_sequence_witness:
  "(\<exists>sk'. OPENSSL_sk_pop (Some three) = (Some 1, Some sk') \<and> sk_elems sk' = [Some 2, Some 0]) \<and>
   (\<exists>sk'. OPENSSL_sk_delete (Some three) 1 = (Some 0, Some sk') \<and> sk_elems sk' = [Some 2, Some 1])"
  using stack_is_sequence [OF three_ok(1), of _ _ _ 1] by (simp add: three_ok(2))

lemma stack_sort_and_find_witness:
  "\<exists>st. OPENSSL_sk_sort (\<lambda>_. nat_cmp) (Some three) = Some st \<and> sorted_by nat_cmp (sk_elems st) \<and>
     OPENSSL_sk_find (\<lambda>_. nat_cmp) (Some three) (Some 1) = Some 2"
proof -
  have "List.find (\<lambda>i. nat_cmp (Some 1) (sk_elems three ! i) = 0) [0..<length (sk_elems three)] = Some 2"
    by (simp add: three_ok(2) nat_cmp_def upt_rec)
  then show ?thesis
    using stack_sort_and_find [of "\<lambda>_. nat_cmp" three "()"] nat_cmp_comparator three_ok(1) by (auto simp: three_def)
qed

text \<open>\<open>OPENSSL_sk_set\<close> does not clear the flag: after it, a stack can be marked as sorted without
  being sorted, and the binary search misses an element that is there.\<close>

lemma sk_set_breaks_search:
  "let sk = \<lparr>st_num = 2, st_data = [Some 1, Some 2, None], st_sorted = True, st_num_alloc = 3, st_comp = Some ()\<rparr>;
       sk' = snd (OPENSSL_sk_set (Some sk) 1 (Some 0))
   in stack_ok (\<lambda>_. nat_cmp) sk \<and> OPENSSL_sk_is_sorted sk' \<and>
      OPENSSL_sk_value sk' 1 = Some 0 \<and> OPENSSL_sk_find (\<lambda>_. nat_cmp) sk' (Some 0) = None"
  by (simp add: Let_def OPENSSL_sk_set_def stack_ok_def sk_elems_def nat_cmp_def OPENSSL_sk_is_sorted_def
      OPENSSL_sk_value_def OPENSSL_sk_find_def sk_bsearch.simps)

end
