(* ===== verification/Lhash.thy ===== *)
theory Lhash
  imports Mem Compare
begin

text \<open>
  The hash table of \<open>crypto/lhash/lhash.c\<close>: buckets with chains of items that cache their hash
  value.  A chain is the list of its items, and the pointer to a \<open>next\<close> field that the searches
  return is a bucket with a position in its chain.  The callback of an iteration works on a
  state of its own and does not change the table.
\<close>

section \<open>The code\<close>

record 'd lhash_item =
  it_data :: 'd
  it_hash :: uint32

record 'd lhash =
  num_items :: nat
  buckets :: "'d lhash_item list list"
  num_buckets :: nat
  callback_depth :: nat
  lh_comp :: "'d cmp"
  lh_hash :: "'d \<Rightarrow> uint32"

abbreviation (input) kMinNumBuckets :: nat where "kMinNumBuckets \<equiv> 16"
abbreviation (input) kMaxAverageChainLength :: nat where "kMaxAverageChainLength \<equiv> 2"
abbreviation (input) kMinAverageChainLength :: nat where "kMinAverageChainLength \<equiv> 1"
abbreviation (input) UINT_MAX :: nat where "UINT_MAX \<equiv> 4294967295"

definition OPENSSL_lh_new :: "malloc \<Rightarrow> ('d \<Rightarrow> uint32) \<Rightarrow> 'd cmp \<Rightarrow> 'd lhash option" where
  "OPENSSL_lh_new m hash cmp =
     (case OPENSSL_zalloc m 48 of
        None \<Rightarrow> None
      | Some _ \<Rightarrow>
          (case OPENSSL_calloc m kMinNumBuckets 8 of
             None \<Rightarrow> None
           | Some _ \<Rightarrow>
               Some \<lparr>num_items = 0, buckets = replicate kMinNumBuckets [], num_buckets = kMinNumBuckets,
                     callback_depth = 0, lh_comp = cmp, lh_hash = hash\<rparr>))"

text \<open>The items that are freed, in this order; the buckets and the table follow them.\<close>

definition OPENSSL_lh_free :: "'d lhash option \<Rightarrow> 'd lhash_item list" where
  "OPENSSL_lh_free lh = (case lh of None \<Rightarrow> [] | Some lh \<Rightarrow> concat (map (\<lambda>i. buckets lh ! i) [0..<num_buckets lh]))"

definition OPENSSL_lh_num_items :: "'d lhash \<Rightarrow> nat" where
  "OPENSSL_lh_num_items lh = num_items lh"

fun chain_search :: "('d \<Rightarrow> int) \<Rightarrow> 'd lhash_item list \<Rightarrow> nat" where
  "chain_search cmp [] = 0"
| "chain_search cmp (cur # nxt) = (if cmp (it_data cur) = 0 then 0 else Suc (chain_search cmp nxt))"

definition get_next_ptr_and_hash :: "'d lhash \<Rightarrow> 'd \<Rightarrow> uint32 \<times> nat \<times> nat" where
  "get_next_ptr_and_hash lh data =
     (let hash = lh_hash lh data;
          b = unat hash mod num_buckets lh
      in (hash, b, chain_search (\<lambda>d. lh_comp lh d data) (buckets lh ! b)))"

definition get_next_ptr_by_key :: "'d lhash \<Rightarrow> 'k \<Rightarrow> uint32 \<Rightarrow> ('k \<Rightarrow> 'd \<Rightarrow> int) \<Rightarrow> nat \<times> nat" where
  "get_next_ptr_by_key lh key key_hash cmp_key =
     (let b = unat key_hash mod num_buckets lh in (b, chain_search (cmp_key key) (buckets lh ! b)))"

text \<open>The item a \<open>next\<close> pointer points to.\<close>

definition item_at :: "'d lhash \<Rightarrow> nat \<Rightarrow> nat \<Rightarrow> 'd lhash_item option" where
  "item_at lh b i = (if i < length (buckets lh ! b) then Some (buckets lh ! b ! i) else None)"

definition OPENSSL_lh_retrieve :: "'d lhash \<Rightarrow> 'd \<Rightarrow> 'd option" where
  "OPENSSL_lh_retrieve lh data = (case get_next_ptr_and_hash lh data of (_, b, i) \<Rightarrow> map_option it_data (item_at lh b i))"

definition OPENSSL_lh_retrieve_key :: "'d lhash \<Rightarrow> 'k \<Rightarrow> uint32 \<Rightarrow> ('k \<Rightarrow> 'd \<Rightarrow> int) \<Rightarrow> 'd option" where
  "OPENSSL_lh_retrieve_key lh key key_hash cmp_key =
     (case get_next_ptr_by_key lh key key_hash cmp_key of (b, i) \<Rightarrow> map_option it_data (item_at lh b i))"

fun rebucket_chain :: "nat \<Rightarrow> 'd lhash_item list \<Rightarrow> 'd lhash_item list list \<Rightarrow> 'd lhash_item list list" where
  "rebucket_chain n [] new_buckets = new_buckets"
| "rebucket_chain n (cur # nxt) new_buckets =
     (let new_bucket = unat (it_hash cur) mod n
      in rebucket_chain n nxt (new_buckets[new_bucket := cur # new_buckets ! new_bucket]))"

fun rebucket_all :: "nat \<Rightarrow> 'd lhash_item list list \<Rightarrow> 'd lhash_item list list \<Rightarrow> 'd lhash_item list list" where
  "rebucket_all n [] new_buckets = new_buckets"
| "rebucket_all n (c # cs) new_buckets = rebucket_all n cs (rebucket_chain n c new_buckets)"

definition lh_rebucket :: "malloc \<Rightarrow> 'd lhash \<Rightarrow> nat \<Rightarrow> 'd lhash" where
  "lh_rebucket m lh new_num_buckets =
     (let alloc_size = size_mul 8 new_num_buckets
      in if alloc_size div 8 \<noteq> new_num_buckets then lh
         else (case OPENSSL_zalloc m alloc_size of
                 None \<Rightarrow> lh
               | Some _ \<Rightarrow>
                   lh\<lparr>num_buckets := new_num_buckets,
                      buckets := rebucket_all new_num_buckets (take (num_buckets lh) (buckets lh)) (replicate new_num_buckets [])\<rparr>))"

definition lh_maybe_resize :: "malloc \<Rightarrow> 'd lhash \<Rightarrow> 'd lhash" where
  "lh_maybe_resize m lh =
     (if callback_depth lh > 0 then lh
      else
        let avg_chain_length = num_items lh div num_buckets lh
        in if avg_chain_length > kMaxAverageChainLength then
             let new_num_buckets = size_mul (num_buckets lh) 2
             in if new_num_buckets > num_buckets lh then lh_rebucket m lh new_num_buckets else lh
           else if avg_chain_length < kMinAverageChainLength \<and> num_buckets lh > kMinNumBuckets then
             let new_num_buckets = num_buckets lh div 2;
                 new_num_buckets = (if new_num_buckets < kMinNumBuckets then kMinNumBuckets else new_num_buckets)
             in lh_rebucket m lh new_num_buckets
           else lh)"

text \<open>The return value, \<open>*old_data\<close> and the table.\<close>

definition OPENSSL_lh_insert :: "malloc \<Rightarrow> 'd lhash \<Rightarrow> 'd \<Rightarrow> bool \<times> 'd option \<times> 'd lhash" where
  "OPENSSL_lh_insert m lh data =
     (case get_next_ptr_and_hash lh data of
        (hash, b, i) \<Rightarrow>
          (case item_at lh b i of
             Some it \<Rightarrow>
               (True, Some (it_data it),
                lh\<lparr>buckets := (buckets lh)[b := (buckets lh ! b)[i := it\<lparr>it_data := data\<rparr>]]\<rparr>)
           | None \<Rightarrow>
               (case OPENSSL_malloc m 24 of
                  None \<Rightarrow> (False, None, lh)
                | Some _ \<Rightarrow>
                    let item = \<lparr>it_data = data, it_hash = hash\<rparr>;
                        lh = lh\<lparr>buckets := (buckets lh)[b := buckets lh ! b @ [item]], num_items := num_items lh + 1\<rparr>
                    in (True, None, lh_maybe_resize m lh))))"

definition OPENSSL_lh_delete :: "malloc \<Rightarrow> 'd lhash \<Rightarrow> 'd \<Rightarrow> 'd option \<times> 'd lhash" where
  "OPENSSL_lh_delete m lh data =
     (case get_next_ptr_and_hash lh data of
        (_, b, i) \<Rightarrow>
          (case item_at lh b i of
             None \<Rightarrow> (None, lh)
           | Some item \<Rightarrow>
               let lh = lh\<lparr>buckets := (buckets lh)[b := take i (buckets lh ! b) @ drop (Suc i) (buckets lh ! b)],
                           num_items := num_items lh - 1\<rparr>
               in (Some (it_data item), lh_maybe_resize m lh)))"

definition OPENSSL_lh_doall_arg :: "malloc \<Rightarrow> ('d \<Rightarrow> 's \<Rightarrow> 's) \<Rightarrow> 'd lhash option \<Rightarrow> 's \<Rightarrow> 's \<times> 'd lhash option" where
  "OPENSSL_lh_doall_arg m func lh s =
     (case lh of
        None \<Rightarrow> (s, None)
      | Some lh \<Rightarrow>
          let lh = (if callback_depth lh < UINT_MAX then lh\<lparr>callback_depth := callback_depth lh + 1\<rparr> else lh);
              s = fold (\<lambda>i. fold (\<lambda>cur. func (it_data cur)) (buckets lh ! i)) [0..<num_buckets lh] s;
              lh = (if callback_depth lh < UINT_MAX then lh\<lparr>callback_depth := callback_depth lh - 1\<rparr> else lh)
          in (s, Some (lh_maybe_resize m lh)))"

section \<open>The invariant\<close>

text \<open>What the table relies on of the functions it was created with: comparison is an
  equivalence, and equal elements have equal hash values.\<close>

locale hashable =
  fixes cmp :: "'d cmp" and hash :: "'d \<Rightarrow> uint32"
  assumes eq_refl: "cmp a a = 0"
    and eq_sym: "cmp a b = 0 \<Longrightarrow> cmp b a = 0"
    and eq_trans: "cmp a b = 0 \<Longrightarrow> cmp b c = 0 \<Longrightarrow> cmp a c = 0"
    and eq_hash: "cmp a b = 0 \<Longrightarrow> hash a = hash b"

definition lh_items :: "'d lhash \<Rightarrow> 'd lhash_item multiset" where
  "lh_items lh = mset (concat (buckets lh))"

text \<open>Every item is in the bucket of its hash value.\<close>

definition placed :: "nat \<Rightarrow> 'd lhash_item list list \<Rightarrow> bool" where
  "placed n bs \<longleftrightarrow> length bs = n \<and> (\<forall>b < n. \<forall>it \<in> set (bs ! b). unat (it_hash it) mod n = b)"

definition lh_ok :: "'d lhash \<Rightarrow> bool" where
  "lh_ok lh \<longleftrightarrow>
     kMinNumBuckets \<le> num_buckets lh \<and> placed (num_buckets lh) (buckets lh) \<and> num_items lh = size (lh_items lh) \<and>
     (\<forall>it \<in># lh_items lh. it_hash it = lh_hash lh (it_data it)) \<and>
     (\<forall>x. size (filter_mset (\<lambda>it. lh_comp lh (it_data it) x = 0) (lh_items lh)) \<le> 1)"

lemma mset_concat_update:
  assumes "b < length bs" "mset c + A = mset (bs ! b) + B"
  shows "mset (concat (bs[b := c])) + A = mset (concat bs) + B"
proof -
  have "mset (concat (bs[b := c])) = mset (concat (take b bs)) + mset c + mset (concat (drop (Suc b) bs))"
    using assms(1) by (simp add: upd_conv_take_nth_drop)
  moreover have "concat bs = concat (take b bs @ bs ! b # drop (Suc b) bs)" using assms(1) by (simp add: id_take_nth_drop [symmetric])
  then have "mset (concat bs) = mset (concat (take b bs)) + mset (bs ! b) + mset (concat (drop (Suc b) bs))" by simp
  ultimately show ?thesis using assms(2) by (simp add: ac_simps)
qed

lemma placed_update:
  assumes "placed n bs" "b < n" "\<forall>it \<in> set c. unat (it_hash it) mod n = b"
  shows "placed n (bs[b := c])"
  using assms by (auto simp: placed_def nth_list_update)

lemma rebucket_chain:
  assumes "placed n nb" "0 < n"
  shows "placed n (rebucket_chain n c nb) \<and> mset (concat (rebucket_chain n c nb)) = mset c + mset (concat nb)"
  using assms(1)
proof (induction c arbitrary: nb)
  case (Cons cur nxt)
  let ?b = "unat (it_hash cur) mod n"
  have b: "?b < n" using assms(2) by simp
  have "placed n (nb[?b := cur # nb ! ?b])" using Cons.prems b by (intro placed_update) (auto simp: placed_def)
  moreover have "mset (concat (nb[?b := cur # nb ! ?b])) + {#} = mset (concat nb) + {#cur#}"
    using Cons.prems b by (intro mset_concat_update) (auto simp: placed_def)
  ultimately show ?case using Cons.IH by (simp add: Let_def)
qed simp

lemma rebucket_all:
  assumes "placed n nb" "0 < n"
  shows "placed n (rebucket_all n cs nb) \<and> mset (concat (rebucket_all n cs nb)) = mset (concat cs) + mset (concat nb)"
  using assms(1)
proof (induction cs arbitrary: nb)
  case (Cons c cs)
  then show ?case using rebucket_chain [OF _ assms(2), of nb c] by simp
qed simp

lemma placed_empty: "placed n (replicate n [])"
  by (simp add: placed_def)

text \<open>Two tables with the same items and functions.\<close>

definition same_table :: "'d lhash \<Rightarrow> 'd lhash \<Rightarrow> bool" where
  "same_table a b \<longleftrightarrow> lh_ok b \<and> lh_items b = lh_items a \<and> lh_comp b = lh_comp a \<and> lh_hash b = lh_hash a"

lemma rebucket_same:
  assumes "lh_ok lh" "kMinNumBuckets \<le> n"
  shows "same_table lh (lh_rebucket m lh n)"
proof -
  have t: "take (num_buckets lh) (buckets lh) = buckets lh" using assms(1) by (simp add: lh_ok_def placed_def)
  have "placed n (rebucket_all n (buckets lh) (replicate n []))"
    "mset (concat (rebucket_all n (buckets lh) (replicate n []))) = lh_items lh"
    using rebucket_all [OF placed_empty, of n "buckets lh"] assms(2) by (simp_all add: lh_items_def)
  then have "same_table lh (lh\<lparr>num_buckets := n, buckets := rebucket_all n (buckets lh) (replicate n [])\<rparr>)"
    using assms by (simp add: same_table_def lh_ok_def lh_items_def)
  then show ?thesis using assms(1) unfolding lh_rebucket_def t
    by (simp add: Let_def same_table_def split: option.split)
qed

lemma maybe_resize_same: "lh_ok lh \<Longrightarrow> same_table lh (lh_maybe_resize m lh)"
proof -
  assume ok: "lh_ok lh"
  then have "same_table lh lh" "16 \<le> num_buckets lh" by (simp_all add: same_table_def lh_ok_def)
  then show ?thesis using rebucket_same [OF ok] by (simp add: lh_maybe_resize_def Let_def)
qed

lemma chain_search_spec:
  "chain_search f c < length c \<longleftrightarrow> (\<exists>it \<in> set c. f (it_data it) = 0)"
  "chain_search f c < length c \<Longrightarrow> f (it_data (c ! chain_search f c)) = 0"
  by (induction c) auto

lemma in_items_iff: "it \<in># lh_items lh \<longleftrightarrow> (\<exists>b < length (buckets lh). it \<in> set (buckets lh ! b))"
  by (simp add: lh_items_def) (metis in_set_conv_nth)

lemma size_le_1_eq: "size M \<le> 1 \<Longrightarrow> a \<in># M \<Longrightarrow> b \<in># M \<Longrightarrow> a = b"
proof -
  assume M: "size M \<le> 1" "a \<in># M" "b \<in># M"
  obtain N where "M = add_mset a N" using multi_member_split [OF M(2)] by blast
  moreover from this have "N = {#}" using M(1) by simp
  ultimately show ?thesis using M(3) by simp
qed

lemma option_eqI: "(\<And>v. a = Some v \<longleftrightarrow> b = Some v) \<Longrightarrow> a = b"
  by (metis not_None_eq)

lemma item_search:
  assumes ok: "lh_ok lh" and "hashable (lh_comp lh) (lh_hash lh)" and g: "get_next_ptr_and_hash lh x = (h, b, i)"
  shows "h = lh_hash lh x" "b < num_buckets lh" "b = unat h mod num_buckets lh"
    and "item_at lh b i = Some it \<longleftrightarrow> it \<in># lh_items lh \<and> lh_comp lh (it_data it) x = 0"
proof -
  show h: "h = lh_hash lh x" and b: "b < num_buckets lh" and bh: "b = unat h mod num_buckets lh"
    using g ok by (auto simp: get_next_ptr_and_hash_def Let_def lh_ok_def)
  have len: "length (buckets lh) = num_buckets lh" using ok by (simp add: lh_ok_def placed_def)
  have i: "i = chain_search (\<lambda>d. lh_comp lh d x) (buckets lh ! b)"
    using g by (auto simp: get_next_ptr_and_hash_def Let_def)
  have found: "it \<in># lh_items lh \<and> lh_comp lh (it_data it) x = 0" if "item_at lh b i = Some it" for it
    using that chain_search_spec(2) b len unfolding i item_at_def in_items_iff by (auto split: if_splits)
  have "\<exists>it'. item_at lh b i = Some it'" if a: "it \<in># lh_items lh" "lh_comp lh (it_data it) x = 0" for it
  proof -
    have "it_hash it = h" using a ok hashable.eq_hash [OF assms(2)] h by (auto simp: lh_ok_def)
    moreover obtain b' where "b' < num_buckets lh" "it \<in> set (buckets lh ! b')" using a(1) len by (auto simp: in_items_iff)
    moreover from this have "unat (it_hash it) mod num_buckets lh = b'" using ok by (auto simp: lh_ok_def placed_def)
    ultimately have "it \<in> set (buckets lh ! b)" using bh by simp
    then show ?thesis using a(2) chain_search_spec(1) unfolding i item_at_def by auto
  qed
  moreover have "it = it'" if "it \<in># lh_items lh \<and> lh_comp lh (it_data it) x = 0"
      "it' \<in># lh_items lh \<and> lh_comp lh (it_data it') x = 0" for it it'
    using that ok by (intro size_le_1_eq [of "filter_mset (\<lambda>it. lh_comp lh (it_data it) x = 0) (lh_items lh)"])
      (auto simp: lh_ok_def)
  ultimately show "item_at lh b i = Some it \<longleftrightarrow> it \<in># lh_items lh \<and> lh_comp lh (it_data it) x = 0"
    using found by metis
qed

lemma retrieve_iff:
  assumes "lh_ok lh" "hashable (lh_comp lh) (lh_hash lh)"
  shows "OPENSSL_lh_retrieve lh x = Some d \<longleftrightarrow> (\<exists>it \<in># lh_items lh. it_data it = d \<and> lh_comp lh d x = 0)"
proof -
  obtain h b i where g: "get_next_ptr_and_hash lh x = (h, b, i)" by (cases "get_next_ptr_and_hash lh x") auto
  show ?thesis using item_search(4) [OF assms g] by (auto simp: OPENSSL_lh_retrieve_def g)
qed

lemma same_table_retrieve:
  assumes "same_table a b" "lh_ok a" "hashable (lh_comp a) (lh_hash a)"
  shows "OPENSSL_lh_retrieve b x = OPENSSL_lh_retrieve a x"
  using assms retrieve_iff [of a] retrieve_iff [of b] by (intro option_eqI) (simp add: same_table_def)

section \<open>A table as a dictionary\<close>

text \<open>The contract of a dictionary whose elements carry their keys: keys are compared by an
  equivalence, an insertion replaces the equal element and returns it, or fails and changes nothing.\<close>

locale dictionary =
  fixes lookup :: "'t \<Rightarrow> 'd \<Rightarrow> 'd option" and ok :: "'t \<Rightarrow> bool" and eq :: "'d \<Rightarrow> 'd \<Rightarrow> bool"
    and put :: "'t \<Rightarrow> 'd \<Rightarrow> bool \<times> 'd option \<times> 't" and del :: "'t \<Rightarrow> 'd \<Rightarrow> 'd option \<times> 't"
  assumes eq_refl: "eq d d" and eq_sym: "eq d x \<Longrightarrow> eq x d"
    and put_ok: "ok t \<Longrightarrow> put t d = (r, old, t') \<Longrightarrow> ok t'"
    and put_lookup: "ok t \<Longrightarrow> put t d = (True, old, t') \<Longrightarrow>
      old = lookup t d \<and> lookup t' x = (if eq d x then Some d else lookup t x)"
    and put_fails: "put t d = (False, old, t') \<Longrightarrow> t' = t"
    and del_ok: "ok t \<Longrightarrow> del t d = (old, t') \<Longrightarrow> ok t'"
    and del_lookup: "ok t \<Longrightarrow> del t d = (old, t') \<Longrightarrow>
      old = lookup t d \<and> lookup t' x = (if eq d x then None else lookup t x)"
begin

lemma delete_inserted:
  assumes "ok t" "put t d = (True, None, t')" "del t' d = (old, t'')"
  shows "old = Some d \<and> lookup t'' x = (if eq d x then None else lookup t x)"
proof -
  note t' = put_ok [OF assms(1,2)] put_lookup [OF assms(1,2)]
  show ?thesis using del_lookup [OF t'(1) assms(3), of x] t'(2) eq_refl by simp
qed

lemma put_twice:
  assumes "ok t" "put t d = (True, o1, t1)" "put t1 e = (True, o2, t2)" "eq e d"
  shows "o2 = Some d"
  using put_lookup [OF put_ok [OF assms(1,2)] assms(3)] put_lookup [OF assms(1,2), of e] eq_sym [OF assms(4)] by simp

end

text \<open>A well-formed table with given functions.\<close>

definition lh_with :: "'d cmp \<Rightarrow> ('d \<Rightarrow> uint32) \<Rightarrow> 'd lhash \<Rightarrow> bool" where
  "lh_with cmp hash lh \<longleftrightarrow> lh_ok lh \<and> lh_comp lh = cmp \<and> lh_hash lh = hash \<and> hashable cmp hash"

lemma same_table_with: "same_table a b \<Longrightarrow> lh_with cmp hash a \<Longrightarrow> lh_with cmp hash b"
  by (simp add: same_table_def lh_with_def)

lemma lh_new_ok:
  "hashable cmp hash \<Longrightarrow> OPENSSL_lh_new m hash cmp = Some lh \<Longrightarrow> lh_with cmp hash lh \<and> lh_items lh = {#}"
  by (auto simp: OPENSSL_lh_new_def lh_with_def lh_ok_def lh_items_def placed_empty split: option.splits)

lemma lh_replace_ok:
  assumes w: "lh_with cmp hash lh" and g: "get_next_ptr_and_hash lh d = (h, b, i)" and it: "item_at lh b i = Some it"
  defines "lh' \<equiv> lh\<lparr>buckets := (buckets lh)[b := (buckets lh ! b)[i := it\<lparr>it_data := d\<rparr>]]\<rparr>"
  shows "lh_with cmp hash lh'" "lh_items lh' + {#it#} = lh_items lh + {#it\<lparr>it_data := d\<rparr>#}"
proof -
  have ok: "lh_ok lh" "hashable (lh_comp lh) (lh_hash lh)" and f: "lh_comp lh = cmp" "lh_hash lh = hash"
    using w by (simp_all add: lh_with_def)
  note s = item_search [OF ok g]
  have mem: "it \<in># lh_items lh" "cmp (it_data it) d = 0" using s(4) [of it] it f by simp_all
  have i: "i < length (buckets lh ! b)" "buckets lh ! b ! i = it" using it by (simp_all add: item_at_def split: if_splits)
  have len: "b < length (buckets lh)" using ok(1) s(2) by (simp add: lh_ok_def placed_def)
  let ?c = "(buckets lh ! b)[i := it\<lparr>it_data := d\<rparr>]"
  have c: "mset ?c + {#it#} = mset (buckets lh ! b) + {#it\<lparr>it_data := d\<rparr>#}"
    using i nth_mem [OF i(1)] by (simp add: mset_update)
  show items: "lh_items lh' + {#it#} = lh_items lh + {#it\<lparr>it_data := d\<rparr>#}"
    using mset_concat_update [OF len c] by (simp add: lh'_def lh_items_def)
  have key: "cmp d x = 0 \<longleftrightarrow> cmp (it_data it) x = 0" for x
    using mem(2) hashable.eq_trans [OF ok(2)] hashable.eq_sym [OF ok(2)] f by metis
  have "unat (it_hash x) mod num_buckets lh = b" if "x \<in> set ?c" for x
  proof -
    have "x \<in> set (buckets lh ! b) \<or> x = it\<lparr>it_data := d\<rparr>" using that set_update_subset_insert by fastforce
    moreover have "it \<in> set (buckets lh ! b)" using i by force
    ultimately show ?thesis using ok(1) s(2) by (auto simp: lh_ok_def placed_def)
  qed
  then have "placed (num_buckets lh) (buckets lh')"
    using ok(1) s(2) by (auto simp: lh'_def lh_ok_def intro: placed_update)
  moreover have "size (lh_items lh') = size (lh_items lh)" using arg_cong [OF items, of size] by simp
  moreover have "it_hash x = hash (it_data x)" if "x \<in># lh_items lh'" for x
  proof -
    have "x \<in># lh_items lh' + {#it#}" using that by simp
    then have "x \<in># lh_items lh \<or> x = it\<lparr>it_data := d\<rparr>" unfolding items by auto
    moreover have "it_hash it = hash d" using mem ok(1) hashable.eq_hash [OF ok(2)] f by (auto simp: lh_ok_def)
    ultimately show ?thesis using ok(1) f by (auto simp: lh_ok_def)
  qed
  moreover have "size (filter_mset (\<lambda>it. cmp (it_data it) x = 0) (lh_items lh')) \<le> 1" for x
  proof -
    have "size (filter_mset (\<lambda>it. cmp (it_data it) x = 0) (lh_items lh')) = size (filter_mset (\<lambda>it. cmp (it_data it) x = 0) (lh_items lh))"
      using arg_cong [OF items, of "\<lambda>M. size (filter_mset (\<lambda>it. cmp (it_data it) x = 0) M)"] key by (simp split: if_splits)
    then show ?thesis using ok(1) f by (simp add: lh_ok_def)
  qed
  ultimately show "lh_with cmp hash lh'"
    using w by (simp add: lh_with_def lh_ok_def lh'_def)
qed

lemma lh_append_ok:
  assumes w: "lh_with cmp hash lh" and g: "get_next_ptr_and_hash lh d = (h, b, i)" and it: "item_at lh b i = None"
  defines "lh' \<equiv> lh\<lparr>buckets := (buckets lh)[b := buckets lh ! b @ [\<lparr>it_data = d, it_hash = h\<rparr>]], num_items := num_items lh + 1\<rparr>"
  shows "lh_with cmp hash lh'" "lh_items lh' = add_mset \<lparr>it_data = d, it_hash = h\<rparr> (lh_items lh)"
proof -
  have ok: "lh_ok lh" "hashable (lh_comp lh) (lh_hash lh)" and f: "lh_comp lh = cmp" "lh_hash lh = hash"
    using w by (simp_all add: lh_with_def)
  note s = item_search [OF ok g]
  have none: "cmp (it_data x) d \<noteq> 0" if "x \<in># lh_items lh" for x using s(4) [of x] it f that by auto
  have len: "b < length (buckets lh)" using ok(1) s(2) by (simp add: lh_ok_def placed_def)
  let ?n = "\<lparr>it_data = d, it_hash = h\<rparr>"
  show items: "lh_items lh' = add_mset ?n (lh_items lh)"
    using mset_concat_update [OF len, of "buckets lh ! b @ [?n]" "{#}" "{#?n#}"] by (simp add: lh'_def lh_items_def)
  have pl: "placed (num_buckets lh) (buckets lh)" using ok(1) by (simp add: lh_ok_def)
  then have "\<forall>x \<in> set (buckets lh ! b @ [?n]). unat (it_hash x) mod num_buckets lh = b"
    using s(2,3) by (auto simp: placed_def)
  then have "placed (num_buckets lh) (buckets lh')" using placed_update [OF pl s(2)] by (simp add: lh'_def)
  moreover have "size (filter_mset (\<lambda>it. cmp (it_data it) x = 0) (lh_items lh')) \<le> 1" for x
  proof (cases "cmp d x = 0")
    case True
    have "cmp (it_data y) x \<noteq> 0" if "y \<in># lh_items lh" for y
      using none [OF that] hashable.eq_trans [OF ok(2), of "it_data y" x d] hashable.eq_sym [OF ok(2), of d x] True f by auto
    then have "filter_mset (\<lambda>it. cmp (it_data it) x = 0) (lh_items lh) = {#}" by simp
    then show ?thesis using True by (simp add: items)
  next
    case False
    then show ?thesis using ok(1) f by (simp add: items lh_ok_def)
  qed
  ultimately show "lh_with cmp hash lh'"
    using w items s(1) by (simp add: lh_with_def lh_ok_def lh'_def)
qed

lemma lh_remove_ok:
  assumes w: "lh_with cmp hash lh" and g: "get_next_ptr_and_hash lh d = (h, b, i)" and it: "item_at lh b i = Some it"
  defines "lh' \<equiv> lh\<lparr>buckets := (buckets lh)[b := take i (buckets lh ! b) @ drop (Suc i) (buckets lh ! b)], num_items := num_items lh - 1\<rparr>"
  shows "lh_with cmp hash lh'" "lh_items lh = add_mset it (lh_items lh')"
proof -
  have ok: "lh_ok lh" "hashable (lh_comp lh) (lh_hash lh)" and f: "lh_comp lh = cmp" "lh_hash lh = hash"
    using w by (simp_all add: lh_with_def)
  note s = item_search [OF ok g]
  have i: "i < length (buckets lh ! b)" "buckets lh ! b ! i = it" using it by (simp_all add: item_at_def split: if_splits)
  have len: "b < length (buckets lh)" using ok(1) s(2) by (simp add: lh_ok_def placed_def)
  let ?c = "take i (buckets lh ! b) @ drop (Suc i) (buckets lh ! b)"
  have "buckets lh ! b = take i (buckets lh ! b) @ it # drop (Suc i) (buckets lh ! b)"
    using id_take_nth_drop [OF i(1)] i(2) by simp
  then have "mset (buckets lh ! b) = add_mset it (mset ?c)" by (metis mset_append mset.simps(2) union_mset_add_mset_right)
  then show items: "lh_items lh = add_mset it (lh_items lh')"
    using mset_concat_update [OF len, of ?c "{#it#}" "{#}"] by (simp add: lh'_def lh_items_def)
  have "set ?c \<subseteq> set (buckets lh ! b)" by (auto dest: in_set_takeD in_set_dropD)
  moreover have pl: "placed (num_buckets lh) (buckets lh)" using ok(1) by (simp add: lh_ok_def)
  ultimately have "\<forall>x \<in> set ?c. unat (it_hash x) mod num_buckets lh = b" using s(2) unfolding placed_def by blast
  then have "placed (num_buckets lh) (buckets lh')" using placed_update [OF pl s(2)] by (simp add: lh'_def)
  moreover have "size (filter_mset (\<lambda>it. cmp (it_data it) x = 0) (lh_items lh')) \<le> 1" for x
  proof -
    have "size (filter_mset (\<lambda>it. cmp (it_data it) x = 0) (lh_items lh')) \<le> size (filter_mset (\<lambda>it. cmp (it_data it) x = 0) (lh_items lh))"
      unfolding items by simp
    then show ?thesis using ok(1) f order.trans by (fastforce simp: lh_ok_def)
  qed
  moreover have "num_buckets lh' = num_buckets lh" "lh_comp lh' = cmp" "lh_hash lh' = hash" "num_items lh' = num_items lh - 1"
    using f by (simp_all add: lh'_def)
  ultimately show "lh_with cmp hash lh'" using w unfolding lh_with_def lh_ok_def items by simp
qed

text \<open>Look-up in terms of the items.\<close>

lemma lookup_iff:
  "lh_with cmp hash lh \<Longrightarrow>
   OPENSSL_lh_retrieve lh x = Some v \<longleftrightarrow> (\<exists>it \<in># lh_items lh. it_data it = v \<and> cmp v x = 0)"
  by (auto simp: lh_with_def retrieve_iff)

lemma lookup_one:
  assumes "lh_with cmp hash lh" "it \<in># lh_items lh" "cmp (it_data it) x = 0"
  shows "OPENSSL_lh_retrieve lh x = Some (it_data it)"
  using assms by (auto simp: lookup_iff)

lemma lookup_added:
  assumes w: "lh_with cmp hash lh" and w': "lh_with cmp hash lh'" and items: "lh_items lh' = add_mset n (lh_items lh)"
  shows "OPENSSL_lh_retrieve lh' x = (if cmp (it_data n) x = 0 then Some (it_data n) else OPENSSL_lh_retrieve lh x)"
proof (cases "cmp (it_data n) x = 0")
  case True
  then show ?thesis using lookup_one [OF w', of n x] items by simp
next
  case False
  then show ?thesis using lookup_iff [OF w] lookup_iff [OF w'] items by (intro option_eqI) auto
qed

lemma lookup_removed:
  assumes w: "lh_with cmp hash lh" and w': "lh_with cmp hash lh'" and items: "lh_items lh = add_mset n (lh_items lh')"
  shows "OPENSSL_lh_retrieve lh' x = (if cmp (it_data n) x = 0 then None else OPENSSL_lh_retrieve lh x)"
proof (cases "cmp (it_data n) x = 0")
  case True
  have "size (filter_mset (\<lambda>it. cmp (it_data it) x = 0) (lh_items lh)) \<le> 1" using w by (auto simp: lh_with_def lh_ok_def)
  then have "filter_mset (\<lambda>it. cmp (it_data it) x = 0) (lh_items lh') = {#}" using True by (simp add: items)
  then have "OPENSSL_lh_retrieve lh' x \<noteq> Some v" for v using lookup_iff [OF w'] by auto
  then show ?thesis using True by auto
next
  case False
  then show ?thesis using lookup_iff [OF w] lookup_iff [OF w'] items by (intro option_eqI) auto
qed

lemma lookup_replaced:
  assumes w: "lh_with cmp hash lh" and w': "lh_with cmp hash lh'"
    and items: "lh_items lh' + {#it#} = lh_items lh + {#n#}" and it: "it \<in># lh_items lh" "cmp (it_data it) (it_data n) = 0"
  shows "OPENSSL_lh_retrieve lh' x = (if cmp (it_data n) x = 0 then Some (it_data n) else OPENSSL_lh_retrieve lh x)"
proof -
  have h: "hashable cmp hash" using w by (simp add: lh_with_def)
  have key: "cmp (it_data n) x = 0 \<longleftrightarrow> cmp (it_data it) x = 0" for x
    using it(2) hashable.eq_trans [OF h] hashable.eq_sym [OF h] by metis
  obtain rest where rest: "lh_items lh = add_mset it rest" using multi_member_split [OF it(1)] by blast
  then have new: "lh_items lh' = add_mset n rest" using items by simp
  show ?thesis
  proof (cases "cmp (it_data n) x = 0")
    case True
    then show ?thesis using lookup_one [OF w', of n x] new by simp
  next
    case False
    then show ?thesis using lookup_iff [OF w] lookup_iff [OF w'] rest new key by (intro option_eqI) auto
  qed
qed

lemma lh_insert_ok:
  assumes w: "lh_with cmp hash lh" and ins: "OPENSSL_lh_insert m lh d = (r, old, lh')"
  shows "lh_with cmp hash lh'" "r \<Longrightarrow> old = OPENSSL_lh_retrieve lh d"
    and "r \<Longrightarrow> OPENSSL_lh_retrieve lh' x = (if cmp d x = 0 then Some d else OPENSSL_lh_retrieve lh x)"
proof -
  have ok: "lh_ok lh" "hashable (lh_comp lh) (lh_hash lh)" and f: "lh_comp lh = cmp" "lh_hash lh = hash"
    using w by (simp_all add: lh_with_def)
  obtain h b i where g: "get_next_ptr_and_hash lh d = (h, b, i)" by (cases "get_next_ptr_and_hash lh d") auto
  have found: "OPENSSL_lh_retrieve lh d = map_option it_data (item_at lh b i)" by (simp add: OPENSSL_lh_retrieve_def g)
  have *: "lh_with cmp hash lh' \<and> (r \<longrightarrow> old = OPENSSL_lh_retrieve lh d \<and>
      OPENSSL_lh_retrieve lh' x = (if cmp d x = 0 then Some d else OPENSSL_lh_retrieve lh x))"
  proof (cases "item_at lh b i")
    case (Some it)
    let ?it = "it\<lparr>it_data := d\<rparr>"
    have lh': "lh' = lh\<lparr>buckets := (buckets lh)[b := (buckets lh ! b)[i := ?it]]\<rparr>" "old = Some (it_data it)"
      using ins g Some by (simp_all add: OPENSSL_lh_insert_def)
    note rep = lh_replace_ok [OF w g Some, folded lh'(1)]
    have "it \<in># lh_items lh" "cmp (it_data it) d = 0" using item_search(4) [OF ok g, of it] Some f by simp_all
    then show ?thesis using lookup_replaced [OF w rep] found lh' rep(1) Some by simp
  next
    case None
    let ?n = "\<lparr>it_data = d, it_hash = h\<rparr>"
    show ?thesis
    proof (cases "OPENSSL_malloc m 24")
      case n: None
      then show ?thesis using ins g None w by (simp add: OPENSSL_lh_insert_def)
    next
      case (Some blk)
      define lh1 where "lh1 = lh\<lparr>buckets := (buckets lh)[b := buckets lh ! b @ [?n]], num_items := num_items lh + 1\<rparr>"
      have lh': "lh' = lh_maybe_resize m lh1" "old = None"
        using ins g None Some by (simp_all add: OPENSSL_lh_insert_def lh1_def)
      note app = lh_append_ok [OF w g None, folded lh1_def]
      have ok1: "lh_ok lh1" "hashable (lh_comp lh1) (lh_hash lh1)" using app(1) by (simp_all add: lh_with_def)
      note same = maybe_resize_same [OF ok1(1), of m]
      have "OPENSSL_lh_retrieve lh' x = OPENSSL_lh_retrieve lh1 x"
        unfolding lh'(1) by (rule same_table_retrieve [OF same ok1])
      also have "\<dots> = (if cmp d x = 0 then Some d else OPENSSL_lh_retrieve lh x)"
        using lookup_added [OF w app] by simp
      finally show ?thesis using same_table_with [OF same app(1)] lh' found None by simp
    qed
  qed
  then show "lh_with cmp hash lh'" "r \<Longrightarrow> old = OPENSSL_lh_retrieve lh d"
    "r \<Longrightarrow> OPENSSL_lh_retrieve lh' x = (if cmp d x = 0 then Some d else OPENSSL_lh_retrieve lh x)" by simp_all
qed

lemma lh_delete_ok:
  assumes w: "lh_with cmp hash lh" and del: "OPENSSL_lh_delete m lh d = (old, lh')"
  shows "lh_with cmp hash lh'" "old = OPENSSL_lh_retrieve lh d"
    and "OPENSSL_lh_retrieve lh' x = (if cmp d x = 0 then None else OPENSSL_lh_retrieve lh x)"
proof -
  have ok: "lh_ok lh" "hashable (lh_comp lh) (lh_hash lh)" and f: "lh_comp lh = cmp" "lh_hash lh = hash"
    using w by (simp_all add: lh_with_def)
  obtain h b i where g: "get_next_ptr_and_hash lh d = (h, b, i)" by (cases "get_next_ptr_and_hash lh d") auto
  have found: "OPENSSL_lh_retrieve lh d = map_option it_data (item_at lh b i)" by (simp add: OPENSSL_lh_retrieve_def g)
  have key: "cmp d x = 0 \<longleftrightarrow> cmp e x = 0" if "cmp e d = 0" for e x
    using that hashable.eq_trans [OF ok(2)] hashable.eq_sym [OF ok(2)] f by metis
  have *: "lh_with cmp hash lh' \<and> old = OPENSSL_lh_retrieve lh d \<and>
      OPENSSL_lh_retrieve lh' x = (if cmp d x = 0 then None else OPENSSL_lh_retrieve lh x)"
  proof (cases "item_at lh b i")
    case None
    then have r: "lh' = lh" "old = None" using del g by (simp_all add: OPENSSL_lh_delete_def)
    have "OPENSSL_lh_retrieve lh x \<noteq> Some v" if "cmp d x = 0" for v
      using lookup_iff [OF w, of d v] lookup_iff [OF w, of x v] found None key [of v x] that
        hashable.eq_trans [OF ok(2)] hashable.eq_sym [OF ok(2)] f by (metis option.distinct(1) option.simps(8))
    then have "OPENSSL_lh_retrieve lh x = None" if "cmp d x = 0" using that by (cases "OPENSSL_lh_retrieve lh x") auto
    then show ?thesis using r w found None by auto
  next
    case (Some it)
    define lh1 where "lh1 = lh\<lparr>buckets := (buckets lh)[b := take i (buckets lh ! b) @ drop (Suc i) (buckets lh ! b)], num_items := num_items lh - 1\<rparr>"
    have lh': "lh' = lh_maybe_resize m lh1" "old = Some (it_data it)"
      using del g Some by (simp_all add: OPENSSL_lh_delete_def Let_def lh1_def)
    note rem = lh_remove_ok [OF w g Some, folded lh1_def]
    have "cmp (it_data it) d = 0" using item_search(4) [OF ok g, of it] Some f by simp
    from key [OF this] have k: "cmp d x = 0 \<longleftrightarrow> cmp (it_data it) x = 0" .
    have ok1: "lh_ok lh1" "hashable (lh_comp lh1) (lh_hash lh1)" using rem(1) by (simp_all add: lh_with_def)
    note same = maybe_resize_same [OF ok1(1), of m]
    have "OPENSSL_lh_retrieve lh' x = OPENSSL_lh_retrieve lh1 x"
      unfolding lh'(1) by (rule same_table_retrieve [OF same ok1])
    also have "\<dots> = (if cmp d x = 0 then None else OPENSSL_lh_retrieve lh x)"
      using lookup_removed [OF w rem] k by simp
    finally show ?thesis using same_table_with [OF same rem(1)] lh' found Some by simp
  qed
  then show "lh_with cmp hash lh'" "old = OPENSSL_lh_retrieve lh d"
    "OPENSSL_lh_retrieve lh' x = (if cmp d x = 0 then None else OPENSSL_lh_retrieve lh x)" by simp_all
qed

lemma lh_insert_fails: "OPENSSL_lh_insert m lh d = (False, old, lh') \<Longrightarrow> lh' = lh"
  by (auto simp: OPENSSL_lh_insert_def Let_def split: prod.splits option.splits)

text \<open>The table is a dictionary, for functions that fit together.\<close>

lemma lh_dictionary:
  assumes "hashable cmp hash"
  shows "dictionary OPENSSL_lh_retrieve (lh_with cmp hash) (\<lambda>d x. cmp d x = 0) (OPENSSL_lh_insert m) (OPENSSL_lh_delete m)"
proof
  show "cmp d d = 0" for d by (rule hashable.eq_refl [OF assms])
  show "cmp x d = 0" if "cmp d x = 0" for d x using that by (rule hashable.eq_sym [OF assms])
  fix t d r old t' x
  assume t: "lh_with cmp hash t"
  show "lh_with cmp hash t'" if "OPENSSL_lh_insert m t d = (r, old, t')" using lh_insert_ok(1) [OF t that] .
  show "old = OPENSSL_lh_retrieve t d \<and> OPENSSL_lh_retrieve t' x = (if cmp d x = 0 then Some d else OPENSSL_lh_retrieve t x)"
    if "OPENSSL_lh_insert m t d = (True, old, t')" using lh_insert_ok(2,3) [OF t that] by simp
  show "lh_with cmp hash t'" if "OPENSSL_lh_delete m t d = (old, t')" using lh_delete_ok(1) [OF t that] .
  show "old = OPENSSL_lh_retrieve t d \<and> OPENSSL_lh_retrieve t' x = (if cmp d x = 0 then None else OPENSSL_lh_retrieve t x)"
    if "OPENSSL_lh_delete m t d = (old, t')" using lh_delete_ok(2,3) [OF t that] by simp
qed (rule lh_insert_fails)

lemma doall_visits:
  assumes "lh_ok lh"
  shows "\<exists>xs lh'. OPENSSL_lh_doall_arg m func (Some lh) s = (fold func (map it_data xs) s, Some lh') \<and>
    mset xs = lh_items lh \<and> same_table lh lh'"
proof -
  define lh1 where "lh1 = (if callback_depth lh < UINT_MAX then lh\<lparr>callback_depth := callback_depth lh + 1\<rparr> else lh)"
  define lh2 where "lh2 = (if callback_depth lh1 < UINT_MAX then lh1\<lparr>callback_depth := callback_depth lh1 - 1\<rparr> else lh1)"
  have fields: "buckets lh1 = buckets lh" "num_buckets lh1 = num_buckets lh" by (simp_all add: lh1_def)
  have same: "same_table lh lh2" using assms by (simp add: lh1_def lh2_def same_table_def lh_ok_def lh_items_def)
  have "same_table lh (lh_maybe_resize m lh2)"
    using maybe_resize_same [of lh2 m] same by (auto simp: same_table_def)
  moreover have "map (\<lambda>i. buckets lh ! i) [0..<num_buckets lh] = buckets lh"
    using assms map_nth [of "buckets lh"] by (simp add: lh_ok_def placed_def)
  from arg_cong [OF this, of "\<lambda>bs. fold (\<lambda>c. fold (\<lambda>cur. func (it_data cur)) c) bs s"]
  have "fold (\<lambda>i. fold (\<lambda>cur. func (it_data cur)) (buckets lh ! i)) [0..<num_buckets lh] s =
      fold (\<lambda>c. fold (\<lambda>cur. func (it_data cur)) c) (buckets lh) s" by (simp add: fold_map comp_def)
  moreover have "fold (\<lambda>c. fold (\<lambda>cur. func (it_data cur)) c) cs s = fold func (map it_data (concat cs)) s" for cs
    by (induction cs arbitrary: s) (simp_all add: fold_map comp_def)
  ultimately show ?thesis
    by (intro exI [of _ "concat (buckets lh)"] exI [of _ "lh_maybe_resize m lh2"])
      (simp add: OPENSSL_lh_doall_arg_def Let_def fields lh_items_def flip: lh1_def lh2_def)
qed

section \<open>Properties\<close>

text \<open>C7.  A hash table is a dictionary, whatever the sizes it goes through.  An insertion returns
  the equal element that was there and makes the new element the one that is found, or it fails,
  for lack of memory, and changes nothing.  A deletion returns the element it removes.  Look-ups
  of other elements are not affected, and the invariant of the table is kept.\<close>

theorem lhash_is_dictionary:
  assumes "lh_with cmp hash lh"
  shows "(case OPENSSL_lh_insert m lh d of (r, old, lh') \<Rightarrow>
      lh_with cmp hash lh' \<and>
      (if r then old = OPENSSL_lh_retrieve lh d \<and>
         (\<forall>x. OPENSSL_lh_retrieve lh' x = (if cmp d x = 0 then Some d else OPENSSL_lh_retrieve lh x))
       else lh' = lh \<and> OPENSSL_lh_retrieve lh d = None \<and> OPENSSL_malloc m 24 = None)) \<and>
    (case OPENSSL_lh_delete m lh d of (old, lh') \<Rightarrow>
      lh_with cmp hash lh' \<and> old = OPENSSL_lh_retrieve lh d \<and>
      (\<forall>x. OPENSSL_lh_retrieve lh' x = (if cmp d x = 0 then None else OPENSSL_lh_retrieve lh x)))"
proof -
  obtain r old lh' where i: "OPENSSL_lh_insert m lh d = (r, old, lh')" by (cases "OPENSSL_lh_insert m lh d") auto
  obtain old2 lh2 where d: "OPENSSL_lh_delete m lh d = (old2, lh2)" by fastforce
  have "OPENSSL_lh_retrieve lh d = None \<and> OPENSSL_malloc m 24 = None" if "\<not> r"
    using i that by (auto simp: OPENSSL_lh_insert_def OPENSSL_lh_retrieve_def Let_def split: prod.splits option.splits)
  then show ?thesis
    using lh_insert_ok [OF assms i] lh_insert_fails [of m lh d old lh'] i lh_delete_ok [OF assms d] d by (cases r) auto
qed

text \<open>An iteration over a table calls the callback once for each element and leaves a table
  with the same elements, resized or not.\<close>

theorem lhash_doall_visits_all:
  assumes "lh_with cmp hash lh"
  shows "\<exists>xs lh'. OPENSSL_lh_doall_arg m func (Some lh) s = (fold func xs s, Some lh') \<and>
    mset xs = image_mset it_data (lh_items lh) \<and> length xs = OPENSSL_lh_num_items lh \<and>
    lh_with cmp hash lh' \<and> (\<forall>x. OPENSSL_lh_retrieve lh' x = OPENSSL_lh_retrieve lh x)"
proof -
  have ok: "lh_ok lh" "hashable (lh_comp lh) (lh_hash lh)" using assms by (simp_all add: lh_with_def)
  obtain xs lh' where v: "OPENSSL_lh_doall_arg m func (Some lh) s = (fold func (map it_data xs) s, Some lh')"
      "mset xs = lh_items lh" "same_table lh lh'"
    using doall_visits [OF ok(1), where m = m and func = func and s = s] by blast
  have "length xs = num_items lh" using v(2) ok(1) by (metis lh_ok_def size_mset)
  then show ?thesis
    using v same_table_with [OF v(3) assms] same_table_retrieve [OF v(3) ok]
    by (intro exI [of _ "map it_data xs"] exI [of _ lh']) (simp add: OPENSSL_lh_num_items_def)
qed

text \<open>A table of numbers.\<close>

definition number_table :: "nat lhash" where
  "number_table = \<lparr>num_items = 1, buckets = (replicate 16 [])[7 := [\<lparr>it_data = 7, it_hash = 7\<rparr>]], num_buckets = 16,
     callback_depth = 0, lh_comp = (\<lambda>a b. int a - int b), lh_hash = of_nat\<rparr>"

lemma number_table_ok: "lh_with (\<lambda>a b. int a - int b) of_nat number_table"
proof -
  have "hashable (\<lambda>a b. int a - int b) of_nat" by unfold_locales simp_all
  moreover have "placed 16 ((replicate 16 [])[7 := [\<lparr>it_data = 7 :: nat, it_hash = 7\<rparr>]])"
    by (rule placed_update [OF placed_empty]) simp_all
  moreover have "lh_items number_table = {#\<lparr>it_data = 7, it_hash = 7\<rparr>#}"
    using mset_concat_update [of 7 "replicate 16 []" "[\<lparr>it_data = 7 :: nat, it_hash = 7\<rparr>]" "{#}"]
    by (simp add: number_table_def lh_items_def)
  ultimately show ?thesis by (simp add: lh_with_def lh_ok_def number_table_def)
qed

lemma number_table_lookup: "OPENSSL_lh_retrieve number_table 7 = Some 7" "OPENSSL_lh_retrieve number_table 3 = None"
  by (simp_all add: OPENSSL_lh_retrieve_def get_next_ptr_and_hash_def item_at_def number_table_def)

lemma lhash_is_dictionary_witness:
  "fst (OPENSSL_lh_delete (\<lambda>n. None) number_table 7) = Some 7 \<and>
   OPENSSL_lh_retrieve (snd (OPENSSL_lh_delete (\<lambda>n. None) number_table 7)) 7 = None"
proof -
  note d = conjunct2 [OF lhash_is_dictionary [OF number_table_ok, where m = "\<lambda>n. None" and d = 7], unfolded case_prod_beta]
  show ?thesis using d by (simp add: number_table_lookup)
qed

lemma lhash_doall_visits_all_witness:
  "\<exists>xs lh'. OPENSSL_lh_doall_arg (\<lambda>n. None) (\<lambda>d s. d + s) (Some number_table) 0 = (fold (\<lambda>d s. d + s) xs 0, Some lh') \<and> length xs = 1"
  using lhash_doall_visits_all [OF number_table_ok, where m = "\<lambda>n. None" and func = "\<lambda>d s. d + s" and s = 0]
  by (auto simp: OPENSSL_lh_num_items_def number_table_def)

end
