(* ===== verification/Cstring.thy ===== *)
theory Cstring
  imports Cbs
begin

text \<open>
  The C string helpers of \<open>crypto/mem.c\<close>.  A pointer to characters is the list of the bytes from
  there to the end of the object; \<open>None\<close> is the result of a call that reads or writes past it.
  A \<open>char\<close> is signed, as on the platforms the application is built for.
\<close>

section \<open>The code\<close>

fun strlen :: "byte list \<Rightarrow> nat option" where
  "strlen [] = None"
| "strlen (c # s) = (if c = 0 then Some 0 else map_option Suc (strlen s))"

fun OPENSSL_strnlen :: "byte list \<Rightarrow> nat \<Rightarrow> nat option" where
  "OPENSSL_strnlen s 0 = Some 0"
| "OPENSSL_strnlen [] (Suc len) = None"
| "OPENSSL_strnlen (c # s) (Suc len) = (if c = 0 then Some 0 else map_option Suc (OPENSSL_strnlen s len))"

text \<open>The inner option is the pointer, which is null when there is no memory.\<close>

definition OPENSSL_strdup :: "malloc \<Rightarrow> byte list option \<Rightarrow> block option option" where
  "OPENSSL_strdup m s =
     (case s of
        None \<Rightarrow> Some None
      | Some s \<Rightarrow> (case strlen s of None \<Rightarrow> None | Some n \<Rightarrow> Some (OPENSSL_memdup m (take (n + 1) s))))"

definition OPENSSL_isalpha :: "byte \<Rightarrow> bool" where
  "OPENSSL_isalpha c \<longleftrightarrow> (c \<ge> 0x61 \<and> c \<le> 0x7a) \<or> (c \<ge> 0x41 \<and> c \<le> 0x5a)"

definition OPENSSL_isxdigit :: "byte \<Rightarrow> bool" where
  "OPENSSL_isxdigit c \<longleftrightarrow> OPENSSL_isdigit c \<or> (c \<ge> 0x61 \<and> c \<le> 0x66) \<or> (c \<ge> 0x41 \<and> c \<le> 0x46)"

definition OPENSSL_fromxdigit :: "byte \<Rightarrow> byte option" where
  "OPENSSL_fromxdigit c =
     (if OPENSSL_isdigit c then Some (c - 0x30)
      else if 0x61 \<le> c \<and> c \<le> 0x66 then Some (c - 0x61 + 10)
      else if 0x41 \<le> c \<and> c \<le> 0x46 then Some (c - 0x41 + 10)
      else None)"

definition OPENSSL_isalnum :: "byte \<Rightarrow> bool" where
  "OPENSSL_isalnum c \<longleftrightarrow> OPENSSL_isalpha c \<or> OPENSSL_isdigit c"

definition OPENSSL_tolower :: "byte \<Rightarrow> int" where
  "OPENSSL_tolower c = (if c \<ge> 0x41 \<and> c \<le> 0x5a then sint c + 32 else sint c)"

definition OPENSSL_isspace :: "byte \<Rightarrow> bool" where
  "OPENSSL_isspace c \<longleftrightarrow> c = 0x09 \<or> c = 0x0a \<or> c = 0x0b \<or> c = 0x0c \<or> c = 0x0d \<or> c = 0x20"

fun OPENSSL_strcasecmp :: "byte list \<Rightarrow> byte list \<Rightarrow> int option" where
  "OPENSSL_strcasecmp (a # as) (b # bs) =
     (let aa = OPENSSL_tolower a; bb = OPENSSL_tolower b
      in if aa < bb then Some (-1) else if aa > bb then Some 1 else if aa = 0 then Some 0
         else OPENSSL_strcasecmp as bs)"
| "OPENSSL_strcasecmp _ _ = None"

fun OPENSSL_strncasecmp :: "byte list \<Rightarrow> byte list \<Rightarrow> nat \<Rightarrow> int option" where
  "OPENSSL_strncasecmp _ _ 0 = Some 0"
| "OPENSSL_strncasecmp (a # as) (b # bs) (Suc n) =
     (let aa = OPENSSL_tolower a; bb = OPENSSL_tolower b
      in if aa < bb then Some (-1) else if aa > bb then Some 1 else if aa = 0 then Some 0
         else OPENSSL_strncasecmp as bs n)"
| "OPENSSL_strncasecmp _ _ (Suc n) = None"

definition OPENSSL_strndup :: "malloc \<Rightarrow> byte list \<Rightarrow> nat \<Rightarrow> block option option" where
  "OPENSSL_strndup m str num =
     (case OPENSSL_strnlen str num of
        None \<Rightarrow> None
      | Some num \<Rightarrow>
          Some (if size_add num 1 < num then None
                else case OPENSSL_malloc m (size_add num 1) of
                       None \<Rightarrow> None
                     | Some ret \<Rightarrow> Some (poke ret 0 (take num str @ [0]))))"

text \<open>The copy loop: the characters copied, what is left of \<open>src\<close>, and of \<open>dst_size\<close>.\<close>

fun strlcpy_loop :: "byte list \<Rightarrow> nat \<Rightarrow> (byte list \<times> byte list \<times> nat) option" where
  "strlcpy_loop src dst_size =
     (if dst_size > 1 then
        (case src of
           [] \<Rightarrow> None
         | c # src' \<Rightarrow>
             if c \<noteq> 0 then map_option (\<lambda>(copied, src, n). (c # copied, src, n)) (strlcpy_loop src' (dst_size - 1))
             else Some ([], src, dst_size))
      else Some ([], src, dst_size))"

text \<open>The return value and the object \<open>dst\<close> points into.\<close>

definition OPENSSL_strlcpy :: "block \<Rightarrow> byte list \<Rightarrow> nat \<Rightarrow> (nat \<times> block) option" where
  "OPENSSL_strlcpy dst src dst_size =
     (case strlcpy_loop src dst_size of
        None \<Rightarrow> None
      | Some (copied, src, dst_size) \<Rightarrow>
          let written = copied @ (if dst_size \<noteq> 0 then [0] else [])
          in if length written > length dst then None
             else (case strlen src of None \<Rightarrow> None | Some n \<Rightarrow> Some (length copied + n, poke dst 0 written)))"

fun strlcat_loop :: "byte list \<Rightarrow> nat \<Rightarrow> nat option" where
  "strlcat_loop dst 0 = Some 0"
| "strlcat_loop [] (Suc n) = None"
| "strlcat_loop (c # dst) (Suc n) = (if c \<noteq> 0 then map_option Suc (strlcat_loop dst n) else Some 0)"

definition OPENSSL_strlcat :: "block \<Rightarrow> byte list \<Rightarrow> nat \<Rightarrow> (nat \<times> block) option" where
  "OPENSSL_strlcat dst src dst_size =
     (case strlcat_loop dst dst_size of
        None \<Rightarrow> None
      | Some l \<Rightarrow>
          (case OPENSSL_strlcpy (drop l dst) src (dst_size - l) of
             None \<Rightarrow> None
           | Some (n, rest) \<Rightarrow> Some (l + n, take l dst @ rest)))"

text \<open>The return value and \<open>*out_ptr\<close>, whose old object is freed.\<close>

definition CBS_strdup :: "malloc \<Rightarrow> cbs \<Rightarrow> (bool \<times> block option) option" where
  "CBS_strdup m c = map_option (\<lambda>p. (p \<noteq> None, p)) (OPENSSL_strndup m c (length c))"

section \<open>Strings\<close>

text \<open>An object that holds the string \<open>s\<close>.\<close>

definition holds :: "block \<Rightarrow> byte list \<Rightarrow> bool" where
  "holds obj s \<longleftrightarrow> 0 \<notin> set s \<and> take (length s + 1) obj = s @ [0]"

lemma holds_iff: "holds obj s \<longleftrightarrow> 0 \<notin> set s \<and> (\<exists>rest. obj = s @ 0 # rest)"
proof
  assume h: "holds obj s"
  then have "obj = (s @ [0]) @ drop (length s + 1) obj" unfolding holds_def by (metis append_take_drop_id)
  then show "0 \<notin> set s \<and> (\<exists>rest. obj = s @ 0 # rest)" using h unfolding holds_def by auto
qed (auto simp: holds_def)

lemma strlen_append: "0 \<notin> set s \<Longrightarrow> strlen (s @ 0 # rest) = Some (length s)"
  by (induction s) auto

declare strlcpy_loop.simps [simp del]

lemma strlcpy_loop_steps:
  "n \<le> 1 \<Longrightarrow> strlcpy_loop src n = Some ([], src, n)"
  "1 < n \<Longrightarrow> strlcpy_loop (0 # src) n = Some ([], 0 # src, n)"
  "c \<noteq> 0 \<Longrightarrow> strlcpy_loop (c # src) (Suc (Suc k)) =
     map_option (\<lambda>(copied, src, n). (c # copied, src, n)) (strlcpy_loop src (Suc k))"
  by (subst strlcpy_loop.simps, simp)+

lemma strlcpy_loop_eq:
  assumes "0 \<notin> set s"
  shows "strlcpy_loop (s @ 0 # rest) n = Some (take (n - 1) s, drop (n - 1) s @ 0 # rest, n - length (take (n - 1) s))"
  using assms
proof (induction s arbitrary: n)
  case Nil
  then show ?case by (cases "n \<le> 1") (auto simp: strlcpy_loop_steps)
next
  case (Cons c s)
  show ?case
  proof (cases "n \<le> 1")
    case True
    then show ?thesis by (simp add: strlcpy_loop_steps)
  next
    case False
    then obtain k where "n = Suc (Suc k)" by (metis One_nat_def Suc_leI not_le less_Suc_eq_0_disj less_imp_Suc_add add_Suc)
    then show ?thesis using Cons by (simp add: strlcpy_loop_steps)
  qed
qed

lemma strlcpy_eq:
  assumes "holds src s" "n \<le> length dst"
  shows "OPENSSL_strlcpy dst src n =
    Some (length s, if n = 0 then dst else poke dst 0 (take (n - 1) s @ [0]))"
proof -
  obtain rest where s: "0 \<notin> set s" "src = s @ 0 # rest" using assms(1) by (auto simp: holds_iff)
  have d: "0 \<notin> set (drop (n - 1) s)" using s(1) by (auto dest: in_set_dropD)
  have len: "length (take (n - 1) s) + length (drop (n - 1) s) = length s" by (metis append_take_drop_id length_append)
  show ?thesis
  proof (cases n)
    case 0
    then show ?thesis using strlen_append [OF s(1)] by (simp add: OPENSSL_strlcpy_def s(2) strlcpy_loop_eq [OF s(1)] poke_def)
  next
    case (Suc k)
    have "min (length s) k < Suc k" "length (take (n - 1) s @ [0]) \<le> length dst" using Suc assms(2) by simp_all
    then show ?thesis using Suc len unfolding OPENSSL_strlcpy_def s(2) strlcpy_loop_eq [OF s(1)]
      by (simp add: strlen_append [OF d [unfolded Suc diff_Suc_1]])
  qed
qed

lemma strlcat_loop_eq: "0 \<notin> set d \<Longrightarrow> strlcat_loop (d @ 0 # rest) n = Some (min n (length d))"
  by (induction "d @ 0 # rest" n arbitrary: d rule: strlcat_loop.induct) (auto simp: Cons_eq_append_conv)

lemma strndup_eq:
  assumes "malloc_ok m" "length c < SIZE_MAX"
  shows "OPENSSL_strndup m c (length c) = Some None \<or>
    (\<exists>p. OPENSSL_strndup m c (length c) = Some (Some p) \<and> holds p (takeWhile (\<lambda>b. b \<noteq> 0) c))"
proof -
  define t where "t = takeWhile (\<lambda>b. b \<noteq> 0) c"
  have n: "OPENSSL_strnlen c (length c) = Some (length t)" unfolding t_def by (induction c) auto
  have l: "length t \<le> length c" by (simp add: t_def length_takeWhile_le)
  have "take (length t) c = t" by (simp add: t_def flip: takeWhile_eq_take)
  have s: "size_add (length t) 1 = length t + 1" using l assms(2) by (simp add: size_add_nowrap)
  show ?thesis
  proof (cases "OPENSSL_malloc m (length t + 1)")
    case None
    then show ?thesis using n s by (simp add: OPENSSL_strndup_def)
  next
    case (Some ret)
    then have "length ret = length t + 1" using OPENSSL_malloc_length [OF assms(1) Some] l assms(2) by simp
    then have "holds (poke ret 0 (t @ [0])) t"
      using set_takeWhileD [of 0 "\<lambda>b. b \<noteq> 0" c] by (auto simp: holds_def poke_def t_def)
    then show ?thesis using n s Some \<open>take (length t) c = t\<close> by (simp add: OPENSSL_strndup_def flip: t_def)
  qed
qed

text \<open>C40.  \<open>OPENSSL_strlcat\<close> is safe for every size of the destination.  It returns the length of
  the string it tried to make.  The result is that string cut to fit, with its NUL, and no byte
  outside the first \<open>dst_size\<close> is touched; a destination that is not terminated within this
  size is left as it is.\<close>

theorem strlcat_safe:
  assumes "holds dst d" "holds src s" "dst_size \<le> length dst"
  shows "\<exists>dst'. OPENSSL_strlcat dst src dst_size = Some (min dst_size (length d) + length s, dst') \<and>
    length dst' = length dst \<and> drop dst_size dst' = drop dst_size dst \<and>
    (if dst_size \<le> length d then dst' = dst else holds dst' (take (dst_size - 1) (d @ s)))"
proof -
  obtain rest where d: "0 \<notin> set d" "dst = d @ 0 # rest" using assms(1) by (auto simp: holds_iff)
  let ?l = "min dst_size (length d)"
  have loop: "strlcat_loop dst dst_size = Some ?l" unfolding d(2) by (rule strlcat_loop_eq [OF d(1)])
  have len: "dst_size - ?l \<le> length (drop ?l dst)" using assms(3) by simp
  note cpy = strlcpy_eq [OF assms(2) len]
  show ?thesis
  proof (cases "dst_size \<le> length d")
    case True
    then show ?thesis using loop cpy by (simp add: OPENSSL_strlcat_def)
  next
    case False
    define k where "k = dst_size - length d - 1"
    have k: "dst_size = length d + Suc k" using False by (simp add: k_def)
    let ?w = "take k s @ [0]"
    have w: "length ?w \<le> Suc k" by simp
    have res: "OPENSSL_strlcat dst src dst_size = Some (length d + length s, d @ poke (0 # rest) 0 ?w)"
      using loop cpy k by (simp add: OPENSSL_strlcat_def d(2))
    have "holds (d @ poke (0 # rest) 0 ?w) (d @ take k s)"
      using d(1) assms(2) by (cases "k \<le> length s") (auto simp: holds_def poke_def min_def dest: in_set_takeD)
    moreover have "take (dst_size - 1) (d @ s) = d @ take k s" using k by simp
    moreover have "length rest \<ge> k" using assms(3) k by (simp add: d(2))
    ultimately show ?thesis using res k w by (auto simp: d(2) poke_def Suc_diff_le)
  qed
qed

lemma strlcat_safe_witness:
  "\<exists>r dst'. OPENSSL_strlcat [0x61, 0x62, 0, 9, 9] [0x63, 0x64, 0] 4 = Some (r, dst') \<and> r = 4 \<and> holds dst' [0x61, 0x62, 0x63]"
  using strlcat_safe [of "[0x61, 0x62, 0, 9, 9]" "[0x61, 0x62]" "[0x63, 0x64, 0]" "[0x63, 0x64]" 4]
  by (auto simp: holds_def)

end
