(* ===== verification/Conf.thy ===== *)
theory Conf
  imports Lhash Stack Cstring Cbb_Set_Of
begin

text \<open>
  Configurations, \<open>crypto/conf/conf.c\<close>: a hash table of sections by name and a hash table of values
  by section and name; a section also lists its values in a stack.  The stack and the tables hold
  pointers.  A value does not change once it is in a table, so a pointer to one is its address
  together with its contents.  A section is an address with a name, and the stacks of the
  sections are in a store under these addresses; looking up the stack of a freed section
  gives \<open>None\<close>, and so does an operation that would use it.  C strings are the lists of their
  bytes without the NUL, and \<open>strcmp\<close> compares them lexicographically.
\<close>

section \<open>The code\<close>

type_synonym cstring = "byte list"

abbreviation (input) strcmp :: "cstring \<Rightarrow> cstring \<Rightarrow> int" where "strcmp \<equiv> lex_compare"

definition OPENSSL_strhash :: "cstring \<Rightarrow> uint32" where
  "OPENSSL_strhash s = OPENSSL_hash32 s"

text \<open>The copy of a string.\<close>

definition strdup :: "malloc \<Rightarrow> cstring \<Rightarrow> cstring option" where
  "strdup m s = (case OPENSSL_strdup m (Some (s @ [0])) of Some (Some p) \<Rightarrow> Some (butlast p) | _ \<Rightarrow> None)"

record conf_value =
  cv_at :: nat
  cv_section :: cstring
  cv_name :: cstring
  cv_value :: cstring

record conf_section =
  cs_at :: nat
  cs_name :: cstring

type_synonym value_stack = "(conf_value, unit) stack"

record conf =
  cf_sections :: "conf_section lhash"
  cf_values :: "conf_value lhash"
  cf_stacks :: "nat \<Rightarrow> value_stack option"
  cf_next :: nat

definition kDefaultSectionName :: cstring where
  "kDefaultSectionName = [0x64, 0x65, 0x66, 0x61, 0x75, 0x6c, 0x74]"

definition conf_section_hash :: "conf_section \<Rightarrow> uint32" where
  "conf_section_hash s = OPENSSL_strhash (cs_name s)"

definition conf_section_cmp :: "conf_section cmp" where
  "conf_section_cmp a b = strcmp (cs_name a) (cs_name b)"

definition conf_value_hash :: "conf_value \<Rightarrow> uint32" where
  "conf_value_hash v =
     (let section_hash = OPENSSL_strhash (cv_section v);
          name_hash = OPENSSL_strhash (cv_name v)
      in push_bit 2 section_hash XOR name_hash)"

definition conf_value_cmp :: "conf_value cmp" where
  "conf_value_cmp a b =
     (let cmp = strcmp (cv_section a) (cv_section b)
      in if cmp \<noteq> 0 then cmp else strcmp (cv_name a) (cv_name b))"

definition NCONF_new :: "malloc \<Rightarrow> conf option" where
  "NCONF_new m =
     (case OPENSSL_malloc m 16 of
        None \<Rightarrow> None
      | Some _ \<Rightarrow>
          (case (OPENSSL_lh_new m conf_section_hash conf_section_cmp, OPENSSL_lh_new m conf_value_hash conf_value_cmp) of
             (Some sections, Some values) \<Rightarrow>
               Some \<lparr>cf_sections = sections, cf_values = values, cf_stacks = \<lambda>_. None, cf_next = 0\<rparr>
           | _ \<Rightarrow> None))"

text \<open>Addresses are drawn in sequence, so a new object has an address of its own.\<close>

definition CONF_VALUE_new :: "malloc \<Rightarrow> conf \<Rightarrow> (conf_value \<times> conf) option" where
  "CONF_VALUE_new m conf =
     (case OPENSSL_zalloc m 24 of
        None \<Rightarrow> None
      | Some _ \<Rightarrow> Some (\<lparr>cv_at = cf_next conf, cv_section = [], cv_name = [], cv_value = []\<rparr>, conf\<lparr>cf_next := cf_next conf + 1\<rparr>))"

definition section_free :: "conf_section option \<Rightarrow> conf \<Rightarrow> conf" where
  "section_free s conf = (case s of None \<Rightarrow> conf | Some s \<Rightarrow> conf\<lparr>cf_stacks := (cf_stacks conf)(cs_at s := None)\<rparr>)"

definition NCONF_new_section :: "malloc \<Rightarrow> conf \<Rightarrow> cstring \<Rightarrow> conf_section option \<times> conf" where
  "NCONF_new_section m conf section =
     (case OPENSSL_malloc m 16 of
        None \<Rightarrow> (None, conf)
      | Some _ \<Rightarrow>
          (case (strdup m section, OPENSSL_sk_new_null m) of
             (Some name, Some values) \<Rightarrow>
               let s = \<lparr>cs_at = cf_next conf, cs_name = name\<rparr>;
                   conf = conf\<lparr>cf_stacks := (cf_stacks conf)(cs_at s := Some values), cf_next := cf_next conf + 1\<rparr>
               in (case OPENSSL_lh_insert m (cf_sections conf) s of
                     (False, _, _) \<Rightarrow> (None, section_free (Some s) conf)
                   | (True, old_section, sections) \<Rightarrow> (Some s, section_free old_section (conf\<lparr>cf_sections := sections\<rparr>)))
           | _ \<Rightarrow> (None, conf)))"

definition get_section :: "conf \<Rightarrow> cstring \<Rightarrow> conf_section option" where
  "get_section conf section = OPENSSL_lh_retrieve (cf_sections conf) \<lparr>cs_at = 0, cs_name = section\<rparr>"

text \<open>The inner option is the pointer.\<close>

definition NCONF_get_section :: "conf \<Rightarrow> cstring \<Rightarrow> value_stack option option" where
  "NCONF_get_section conf section =
     (case get_section conf section of
        None \<Rightarrow> Some None
      | Some section_obj \<Rightarrow> map_option Some (cf_stacks conf (cs_at section_obj)))"

definition NCONF_get_string :: "conf \<Rightarrow> cstring option \<Rightarrow> cstring \<Rightarrow> cstring option" where
  "NCONF_get_string conf section name =
     (let section = (case section of None \<Rightarrow> kDefaultSectionName | Some section \<Rightarrow> section)
      in (case OPENSSL_lh_retrieve (cf_values conf) \<lparr>cv_at = 0, cv_section = section, cv_name = name, cv_value = []\<rparr> of
            None \<Rightarrow> None
          | Some value \<Rightarrow> Some (cv_value value)))"

definition add_string ::
  "malloc \<Rightarrow> (nat \<Rightarrow> conf_value option) \<Rightarrow> conf \<Rightarrow> conf_section \<Rightarrow> conf_value \<Rightarrow> (bool \<times> conf) option" where
  "add_string m uninit conf section value =
     (case strdup m (cs_name section) of
        None \<Rightarrow> Some (False, conf)
      | Some name \<Rightarrow>
          let value = value\<lparr>cv_section := name\<rparr>
          in (case cf_stacks conf (cs_at section) of
                None \<Rightarrow> None
              | Some values \<Rightarrow>
                  (case OPENSSL_sk_push m uninit values (Some value) of
                     (r, values) \<Rightarrow>
                       let conf = conf\<lparr>cf_stacks := (cf_stacks conf)(cs_at section := values)\<rparr>
                       in if r = 0 then Some (False, conf)
                          else
                            (case OPENSSL_lh_insert m (cf_values conf) value of
                               (False, _, _) \<Rightarrow>
                                 Some (False, conf\<lparr>cf_stacks := (cf_stacks conf)(cs_at section := snd (OPENSSL_sk_pop values))\<rparr>)
                             | (True, old_value, table) \<Rightarrow>
                                 let conf = conf\<lparr>cf_values := table\<rparr>
                                 in (case old_value of
                                       None \<Rightarrow> Some (True, conf)
                                     | Some old \<Rightarrow>
                                         Some (True, conf\<lparr>cf_stacks := (cf_stacks conf)
                                           (cs_at section := snd (OPENSSL_sk_delete_ptr values (Some old)))\<rparr>))))))"

section \<open>The tables\<close>

lemma conf_value_cmp_eq: "conf_value_cmp a b = 0 \<longleftrightarrow> cv_section a = cv_section b \<and> cv_name a = cv_name b"
  by (auto simp: conf_value_cmp_def Let_def lex_compare_eq_0)

lemma conf_section_cmp_eq: "conf_section_cmp a b = 0 \<longleftrightarrow> cs_name a = cs_name b"
  by (auto simp: conf_section_cmp_def lex_compare_eq_0)

interpretation conf_value: hashable conf_value_cmp conf_value_hash
  by unfold_locales (simp_all add: conf_value_cmp_eq conf_value_hash_def)

interpretation conf_section: hashable conf_section_cmp conf_section_hash
  by unfold_locales (simp_all add: conf_section_cmp_eq conf_section_hash_def)

interpretation conf_values: dictionary OPENSSL_lh_retrieve "lh_with conf_value_cmp conf_value_hash"
  "\<lambda>a b. conf_value_cmp a b = 0" "OPENSSL_lh_insert m" "OPENSSL_lh_delete m" for m
  by (rule lh_dictionary) (rule conf_value.hashable_axioms)

interpretation conf_sections: dictionary OPENSSL_lh_retrieve "lh_with conf_section_cmp conf_section_hash"
  "\<lambda>a b. conf_section_cmp a b = 0" "OPENSSL_lh_insert m" "OPENSSL_lh_delete m" for m
  by (rule lh_dictionary) (rule conf_section.hashable_axioms)

text \<open>Look-ups depend on the key alone.\<close>

definition value_at :: "conf \<Rightarrow> cstring \<Rightarrow> cstring \<Rightarrow> conf_value option" where
  "value_at conf sec name = OPENSSL_lh_retrieve (cf_values conf) \<lparr>cv_at = 0, cv_section = sec, cv_name = name, cv_value = []\<rparr>"

lemma retrieve_key:
  assumes "lh_with cmp hash lh" "OPENSSL_lh_retrieve lh x = Some d"
  shows "cmp d x = 0"
  using assms retrieve_iff [of lh x d] by (auto simp: lh_with_def)

lemma get_section_name: "lh_with conf_section_cmp conf_section_hash (cf_sections conf) \<Longrightarrow> get_section conf n = Some s \<Longrightarrow> cs_name s = n"
  using retrieve_key [of conf_section_cmp conf_section_hash] by (fastforce simp: get_section_def conf_section_cmp_eq)

lemma value_at_key:
  "lh_with conf_value_cmp conf_value_hash (cf_values conf) \<Longrightarrow> value_at conf sec name = Some v \<Longrightarrow> cv_section v = sec \<and> cv_name v = name"
  using retrieve_key [of conf_value_cmp conf_value_hash] by (fastforce simp: value_at_def conf_value_cmp_eq)

section \<open>The abstract configuration\<close>

text \<open>A configuration is a partial map from section names to the names and values of the section,
  in order.\<close>

type_synonym conf_map = "cstring \<Rightarrow> (cstring \<times> cstring) list option"

definition section_repr :: "conf \<Rightarrow> cstring \<Rightarrow> (cstring \<times> cstring) list \<Rightarrow> bool" where
  "section_repr conf n es \<longleftrightarrow> 0 \<notin> set n \<and>
     (\<exists>s st vs. get_section conf n = Some s \<and> cs_at s < cf_next conf \<and> cf_stacks conf (cs_at s) = Some st \<and>
        stack_ok (\<lambda>_ _ _. 0) st \<and> sk_elems st = map Some vs \<and> es = map (\<lambda>v. (cv_name v, cv_value v)) vs \<and>
        distinct (map cv_name vs) \<and> (\<forall>name. value_at conf n name = List.find (\<lambda>v. cv_name v = name) vs))"

definition conf_repr :: "conf \<Rightarrow> conf_map \<Rightarrow> bool" where
  "conf_repr conf A \<longleftrightarrow>
     lh_with conf_section_cmp conf_section_hash (cf_sections conf) \<and> lh_with conf_value_cmp conf_value_hash (cf_values conf) \<and>
     (\<forall>n. A n = None \<longrightarrow> get_section conf n = None \<and> (\<forall>name. value_at conf n name = None)) \<and>
     (\<forall>n es. A n = Some es \<longrightarrow> section_repr conf n es) \<and>
     (\<forall>n n' s s'. get_section conf n = Some s \<longrightarrow> get_section conf n' = Some s' \<longrightarrow> cs_at s = cs_at s' \<longrightarrow> n = n') \<and>
     (\<forall>n name v. value_at conf n name = Some v \<longrightarrow> cv_at v < cf_next conf)"

lemma conf_reprD:
  assumes "conf_repr conf A"
  shows "lh_with conf_section_cmp conf_section_hash (cf_sections conf)" "lh_with conf_value_cmp conf_value_hash (cf_values conf)"
    "A n = None \<Longrightarrow> get_section conf n = None \<and> value_at conf n name = None" "A n = Some es \<Longrightarrow> section_repr conf n es"
    "get_section conf n = Some s \<Longrightarrow> get_section conf n' = Some s' \<Longrightarrow> cs_at s = cs_at s' \<Longrightarrow> n = n'"
    "value_at conf n name = Some v \<Longrightarrow> cv_at v < cf_next conf"
  using assms unfolding conf_repr_def by (auto split: option.splits)

text \<open>What a section depends on.\<close>

lemma section_repr_cong:
  assumes "section_repr conf n es" "get_section conf' n = get_section conf n" "cf_next conf \<le> cf_next conf'"
    "\<And>s. get_section conf n = Some s \<Longrightarrow> cs_at s < cf_next conf \<Longrightarrow> cf_stacks conf' (cs_at s) = cf_stacks conf (cs_at s)"
    "\<And>name. value_at conf' n name = value_at conf n name"
  shows "section_repr conf' n es"
proof -
  obtain s st vs where *: "0 \<notin> set n" "get_section conf n = Some s" "cs_at s < cf_next conf" "cf_stacks conf (cs_at s) = Some st"
      "stack_ok (\<lambda>_ _ _. 0) st" "sk_elems st = map Some vs" "es = map (\<lambda>v. (cv_name v, cv_value v)) vs"
      "distinct (map cv_name vs)" "\<forall>name. value_at conf n name = List.find (\<lambda>v. cv_name v = name) vs"
    using assms(1) by (auto simp: section_repr_def)
  then have "cf_stacks conf' (cs_at s) = Some st" using assms(4) by simp
  then show ?thesis using * assms(2,3,5) unfolding section_repr_def
    by (intro conjI exI [of _ s] exI [of _ st] exI [of _ vs]) auto
qed

lemma strdup_eq:
  assumes "0 \<notin> set s"
  shows "strdup m s = (case OPENSSL_malloc m (length s + 1) of None \<Rightarrow> None | Some _ \<Rightarrow> Some s)"
  using assms strlen_append [OF assms, of "[]"]
  by (simp add: strdup_def OPENSSL_strdup_def OPENSSL_memdup_def split: option.splits)

lemma get_section_insert:
  assumes "lh_with conf_section_cmp conf_section_hash t" "OPENSSL_lh_insert m t s = (True, old, t')"
  shows "OPENSSL_lh_retrieve t' \<lparr>cs_at = 0, cs_name = n\<rparr> =
      (if n = cs_name s then Some s else OPENSSL_lh_retrieve t \<lparr>cs_at = 0, cs_name = n\<rparr>)"
    "old = OPENSSL_lh_retrieve t s"
  using conf_sections.put_lookup [OF assms] by (auto simp: conf_section_cmp_eq)

lemma retrieve_cong:
  assumes "lh_with cmp hash lh" "cmp x y = 0"
  shows "OPENSSL_lh_retrieve lh x = OPENSSL_lh_retrieve lh y"
proof -
  have h: "lh_ok lh" "hashable cmp hash" "lh_comp lh = cmp" "lh_hash lh = hash" using assms(1) by (simp_all add: lh_with_def)
  have "cmp d x = 0 \<longleftrightarrow> cmp d y = 0" for d
    using assms(2) hashable.eq_trans [OF h(2), of d] hashable.eq_sym [OF h(2)] by blast
  then show ?thesis using retrieve_iff [of lh] h by (intro option_eqI) simp
qed

lemma conf_repr_frame:
  assumes "conf_repr conf A" "cf_sections conf' = cf_sections conf" "cf_values conf' = cf_values conf"
    "cf_next conf \<le> cf_next conf'" "\<And>a. a < cf_next conf \<Longrightarrow> cf_stacks conf' a = cf_stacks conf a"
  shows "conf_repr conf' A" "value_at conf' = value_at conf"
proof -
  have g: "get_section conf' = get_section conf" by (rule ext) (simp add: get_section_def assms(2))
  show v: "value_at conf' = value_at conf" by (intro ext) (simp add: value_at_def assms(3))
  have "section_repr conf' n es" if "section_repr conf n es" for n es
    by (rule section_repr_cong [OF that]) (use assms(4,5) g v in auto)
  moreover have "cv_at w < cf_next conf'" if "value_at conf n name = Some w" for n name w
    using conf_reprD(6) [OF assms(1) that] assms(4) by simp
  ultimately show "conf_repr conf' A" using assms(1) unfolding conf_repr_def assms(2,3) g v by blast
qed

lemma new_section_repr:
  assumes r: "conf_repr conf A" and sec: "0 \<notin> set sec" "A sec = None \<or> A sec = Some []"
    and new: "NCONF_new_section m conf sec = (res, conf')"
  shows "case res of None \<Rightarrow> conf_repr conf' A
    | Some s \<Rightarrow> conf_repr conf' (A(sec \<mapsto> [])) \<and> get_section conf' sec = Some s"
    "value_at conf' = value_at conf" "cf_next conf \<le> cf_next conf'" "k \<noteq> sec \<Longrightarrow> get_section conf' k = get_section conf k"
proof -
  note R = conf_reprD [OF r]
  define s where "s = \<lparr>cs_at = cf_next conf, cs_name = sec\<rparr>"
  consider (mem) "res = None" "conf' = conf"
    | (ins) vals r1 old t where "OPENSSL_sk_new_null m = Some vals" "OPENSSL_lh_insert m (cf_sections conf) s = (r1, old, t)"
        "(res, conf') = (if r1 then (Some s, section_free old (conf\<lparr>cf_stacks := (cf_stacks conf)(cf_next conf := Some vals),
            cf_next := cf_next conf + 1, cf_sections := t\<rparr>))
          else (None, section_free (Some s) (conf\<lparr>cf_stacks := (cf_stacks conf)(cf_next conf := Some vals), cf_next := cf_next conf + 1\<rparr>)))"
    using new strdup_eq [OF sec(1), of m]
    by (auto simp: NCONF_new_section_def s_def Let_def split: option.splits prod.splits bool.splits)
  then have "(case res of None \<Rightarrow> conf_repr conf' A | Some s \<Rightarrow> conf_repr conf' (A(sec \<mapsto> [])) \<and> get_section conf' sec = Some s) \<and>
    value_at conf' = value_at conf \<and> cf_next conf \<le> cf_next conf' \<and> (\<forall>k. k \<noteq> sec \<longrightarrow> get_section conf' k = get_section conf k)"
  proof cases
    case mem
    then show ?thesis using r by simp
  next
    case ins
    show ?thesis
    proof (cases r1)
      case False
      then have c: "res = None" "conf' = conf\<lparr>cf_stacks := (cf_stacks conf)(cf_next conf := None), cf_next := cf_next conf + 1\<rparr>"
        using ins(3) by (simp_all add: section_free_def s_def)
      show ?thesis using conf_repr_frame [OF r, of conf'] by (simp add: c get_section_def)
    next
      case True
      have i: "OPENSSL_lh_insert m (cf_sections conf) s = (True, old, t)" using ins(2) True by simp
      note t = conf_sections.put_ok [OF R(1) i] get_section_insert [OF R(1) i]
      have old: "old = get_section conf sec"
        using retrieve_cong [OF R(1), of s "\<lparr>cs_at = 0, cs_name = sec\<rparr>"] t(3) by (simp add: get_section_def conf_section_cmp_eq s_def)
      have c: "res = Some s" "cf_sections conf' = t" "cf_values conf' = cf_values conf" "cf_next conf' = cf_next conf + 1"
          "cf_stacks conf' = (case old of None \<Rightarrow> (cf_stacks conf)(cf_next conf := Some vals)
             | Some o' \<Rightarrow> (cf_stacks conf)(cf_next conf := Some vals, cs_at o' := None))"
        using ins(3) True by (simp_all add: section_free_def split: option.splits)
      have g: "get_section conf' n = (if n = sec then Some s else get_section conf n)" for n
        using t(2) [of n] by (simp add: get_section_def c(2) s_def)
      have v: "value_at conf' = value_at conf" by (intro ext) (simp add: value_at_def c(3))
      have lt: "cs_at s' < cf_next conf" if "get_section conf n = Some s'" for n s'
        using that R(3) [of n] R(4) [of n] by (cases "A n") (auto simp: section_repr_def)
      have st: "cf_stacks conf' (cs_at s') = cf_stacks conf (cs_at s')" if "n \<noteq> sec" "get_section conf n = Some s'" for n s'
        using that lt [OF that(2)] R(5) [OF that(2), of sec] old by (auto simp: c(5) split: option.splits)
      have own: "cf_stacks conf' (cs_at s) = Some vals"
        using old lt [of sec] by (auto simp: c(5) s_def split: option.splits)
      have vals: "stack_ok (\<lambda>_ _ _. 0) vals" "sk_elems vals = []"
        using sk_new_ok [OF ins(1) [unfolded OPENSSL_sk_new_null_def]] by auto
      have "value_at conf sec name = None" for name
        using sec(2) R(3) [of sec name] R(4) [of sec "[]"] by (auto simp: section_repr_def)
      then have "section_repr conf' sec []"
        using own vals sec(1) by (simp add: section_repr_def g c(4) v s_def)
      moreover have "section_repr conf' n es" if "n \<noteq> sec" "A n = Some es" for n es
        by (rule section_repr_cong [OF R(4) [OF that(2)]]) (use that(1) st in \<open>auto simp: g c(4) v\<close>)
      ultimately have some: "section_repr conf' n es" if "(A(sec \<mapsto> [])) n = Some es" for n es
        using that by (cases "n = sec") auto
      have none: "get_section conf' n = None \<and> (\<forall>name. value_at conf' n name = None)" if "(A(sec \<mapsto> [])) n = None" for n
        using that R(3) [of n] by (auto simp: g v split: if_splits)
      have inj: "n = n'" if "get_section conf' n = Some a" "get_section conf' n' = Some b" "cs_at a = cs_at b" for n n' a b
        using that lt [of n a] lt [of n' b] R(5) [of n a n' b] by (auto simp: g s_def split: if_splits)
      have at: "cv_at w < cf_next conf'" if "value_at conf' n name = Some w" for n name w
        using R(6) [of n name w] that by (simp add: v c(4))
      have "conf_repr conf' (A(sec \<mapsto> []))"
        unfolding conf_repr_def c(2,3) using t(1) R(2) none some inj at by blast
      then show ?thesis using c g v by simp
    qed
  qed
  then show "case res of None \<Rightarrow> conf_repr conf' A
    | Some s \<Rightarrow> conf_repr conf' (A(sec \<mapsto> [])) \<and> get_section conf' sec = Some s"
    "value_at conf' = value_at conf" "cf_next conf \<le> cf_next conf'" "k \<noteq> sec \<Longrightarrow> get_section conf' k = get_section conf k" by auto
qed

lemma sk_push_ok:
  assumes "stack_ok call sk" "OPENSSL_sk_push m uninit sk p = (r, sk')"
  shows "\<exists>st. sk' = Some st \<and> stack_ok call st \<and> (if r = 0 then st = sk else sk_elems st = sk_elems sk @ [p])"
  using sk_insert_ok [OF assms(1) assms(2) [unfolded OPENSSL_sk_push_def]] stack_okD(3) [OF assms(1)] by auto

lemma sk_pop_ok:
  assumes "stack_ok call sk" "sk_elems sk \<noteq> []"
  shows "\<exists>st. snd (OPENSSL_sk_pop (Some sk)) = Some st \<and> stack_ok call st \<and> sk_elems st = butlast (sk_elems sk)"
proof -
  have n: "length (sk_elems sk) = st_num sk" "0 < st_num sk"
    using assms(2) stack_okD(3) [OF assms(1)] length_greater_0_conv [of "sk_elems sk"] by simp_all
  obtain x sk' where d: "OPENSSL_sk_delete (Some sk) (st_num sk - 1) = (x, sk')" by force
  show ?thesis using sk_delete_ok [OF assms(1) d] n by (auto simp: OPENSSL_sk_pop_def d [unfolded One_nat_def] butlast_conv_take)
qed

lemma remove1_nth:
  "List.find (\<lambda>i. xs ! i = x) [0..<length xs] = Some i \<Longrightarrow> i < length xs \<and> take i xs @ drop (Suc i) xs = remove1 x xs"
proof -
  assume "List.find (\<lambda>i. xs ! i = x) [0..<length xs] = Some i"
  then have i: "i < length xs" "xs ! i = x" "\<forall>j < i. xs ! j \<noteq> x" by (auto simp: find_Some_iff)
  then have "x \<notin> set (take i xs)" by (auto simp: in_set_conv_nth)
  moreover have "xs = take i xs @ x # drop (Suc i) xs" using i id_take_nth_drop by metis
  ultimately show ?thesis using i(1) remove1_append [of x "take i xs" "x # drop (Suc i) xs"] by simp
qed

lemma sk_delete_ptr_ok:
  assumes "stack_ok call sk"
  shows "\<exists>st. snd (OPENSSL_sk_delete_ptr (Some sk) p) = Some st \<and> stack_ok call st \<and> sk_elems st = remove1 p (sk_elems sk)"
proof -
  have n: "st_num sk \<le> length (st_data sk)" "length (sk_elems sk) = st_num sk" using stack_okD [OF assms] by simp_all
  have f: "List.find (\<lambda>i. st_data sk ! i = p) [0..<st_num sk] = List.find (\<lambda>i. sk_elems sk ! i = p) [0..<length (sk_elems sk)]"
    unfolding n(2) by (rule find_cong) (simp_all add: sk_elems_def)
  show ?thesis
  proof (cases "List.find (\<lambda>i. sk_elems sk ! i = p) [0..<length (sk_elems sk)]")
    case None
    then have "p \<notin> set (sk_elems sk)" by (auto simp: find_None_iff in_set_conv_nth)
    then show ?thesis using None f assms by (simp add: OPENSSL_sk_delete_ptr_def remove1_idem)
  next
    case (Some i)
    obtain x sk' where d: "OPENSSL_sk_delete (Some sk) i = (x, sk')" by force
    show ?thesis using Some f remove1_nth [OF Some] sk_delete_ok [OF assms d] n(2) by (auto simp: OPENSSL_sk_delete_ptr_def d)
  qed
qed

lemma remove1_map_Some: "remove1 (Some x) (map Some xs) = map Some (remove1 x xs)"
  by (induction xs) auto

text \<open>The list of a section after a value was stored under a name.\<close>

definition store_value :: "cstring \<Rightarrow> cstring \<Rightarrow> (cstring \<times> cstring) list \<Rightarrow> (cstring \<times> cstring) list" where
  "store_value name val es = filter (\<lambda>e. fst e \<noteq> name) es @ [(name, val)]"

lemma find_by_name: "distinct (map cv_name vs) \<Longrightarrow> w \<in> set vs \<Longrightarrow> List.find (\<lambda>v. cv_name v = cv_name w) vs = Some w"
  by (induction vs) auto

lemma find_filter_name:
  "List.find (\<lambda>v. cv_name v = nm) (filter (\<lambda>v. cv_name v \<noteq> name) vs @ [v]) =
    (if nm = name then (if cv_name v = name then Some v else None) else
       (case List.find (\<lambda>v. cv_name v = nm) vs of None \<Rightarrow> if cv_name v = nm then Some v else None | Some w \<Rightarrow> Some w))"
  by (induction vs) auto

lemma remove1_by_name:
  assumes "distinct (map cv_name vs)" "w \<in> set vs"
  shows "remove1 w vs = filter (\<lambda>v. cv_name v \<noteq> cv_name w) vs"
proof -
  have "remove1 w vs = filter (\<lambda>v. v \<noteq> w) vs" using assms(1) by (simp add: distinct_map distinct_remove1_removeAll removeAll_filter_not_eq eq_commute)
  also have "\<dots> = filter (\<lambda>v. cv_name v \<noteq> cv_name w) vs"
    using assms by (intro filter_cong) (auto simp: distinct_map inj_on_def)
  finally show ?thesis .
qed

lemma value_at_insert:
  assumes "lh_with conf_value_cmp conf_value_hash t" "OPENSSL_lh_insert m t v = (True, old, t')"
  shows "OPENSSL_lh_retrieve t' \<lparr>cv_at = 0, cv_section = n, cv_name = name, cv_value = []\<rparr> =
      (if n = cv_section v \<and> name = cv_name v then Some v
       else OPENSSL_lh_retrieve t \<lparr>cv_at = 0, cv_section = n, cv_name = name, cv_value = []\<rparr>)"
    "old = OPENSSL_lh_retrieve t \<lparr>cv_at = 0, cv_section = cv_section v, cv_name = cv_name v, cv_value = []\<rparr>"
  using conf_values.put_lookup [OF assms]
    retrieve_cong [OF assms(1), of v "\<lparr>cv_at = 0, cv_section = cv_section v, cv_name = cv_name v, cv_value = []\<rparr>"]
  by (auto simp: conf_value_cmp_eq)

text \<open>An address that no value of the configuration has.\<close>

definition unused :: "conf \<Rightarrow> nat \<Rightarrow> bool" where
  "unused conf a \<longleftrightarrow> (\<forall>n name v. value_at conf n name = Some v \<longrightarrow> cv_at v \<noteq> a)"

text \<open>A change to the values of one section.\<close>

lemma section_update:
  assumes r: "conf_repr conf A" and sec: "get_section conf n = Some sec" and A: "A n = Some es"
    and sections: "cf_sections conf' = cf_sections conf" and nx: "cf_next conf' = cf_next conf"
    and stacks: "cf_stacks conf' = (cf_stacks conf)(cs_at sec := Some st')"
    and tab: "lh_with conf_value_cmp conf_value_hash (cf_values conf')" "\<And>k name. k \<noteq> n \<Longrightarrow> value_at conf' k name = value_at conf k name"
    and st': "stack_ok (\<lambda>_ _ _. 0) st'" "sk_elems st' = map Some vs'" "distinct (map cv_name vs')"
      "\<And>name. value_at conf' n name = List.find (\<lambda>v. cv_name v = name) vs'" "\<forall>v \<in> set vs'. cv_at v < cf_next conf"
  shows "conf_repr conf' (A(n \<mapsto> map (\<lambda>v. (cv_name v, cv_value v)) vs'))"
proof -
  note R = conf_reprD [OF r]
  have g: "get_section conf' = get_section conf" by (rule ext) (simp add: get_section_def sections)
  have own: "0 \<notin> set n" "cs_at sec < cf_next conf" using R(4) [OF A] sec by (auto simp: section_repr_def)
  then have "section_repr conf' n (map (\<lambda>v. (cv_name v, cv_value v)) vs')"
    using sec st' by (auto simp: section_repr_def g nx stacks)
  moreover have "section_repr conf' k es'" if "k \<noteq> n" "A k = Some es'" for k es'
    by (rule section_repr_cong [OF R(4) [OF that(2)]]) (use that(1) R(5) [OF sec] tab(2) in \<open>auto simp: g nx stacks\<close>)
  ultimately have some: "section_repr conf' k es'" if "(A(n \<mapsto> map (\<lambda>v. (cv_name v, cv_value v)) vs')) k = Some es'" for k es'
    using that by (cases "k = n") auto
  have none: "get_section conf' k = None \<and> (\<forall>name. value_at conf' k name = None)"
    if "(A(n \<mapsto> map (\<lambda>v. (cv_name v, cv_value v)) vs')) k = None" for k
    using that R(3) [of k] tab(2) by (auto simp: g split: if_splits)
  have inj: "k = k'" if "get_section conf' k = Some a" "get_section conf' k' = Some b" "cs_at a = cs_at b" for k k' a b
    using R(5) that unfolding g by blast
  have "cv_at v < cf_next conf'" if "value_at conf' k name = Some v" for k name v
    using that R(6) [of k name v] tab(2) [of k name] st'(4) [of name] st'(5) by (cases "k = n") (auto simp: nx find_Some_iff)
  then show ?thesis unfolding conf_repr_def sections using R(1) tab(1) none some inj by blast
qed

lemma add_string_repr:
  assumes r: "conf_repr conf A" and sec: "get_section conf n = Some sec" and A: "A n = Some es"
    and fresh: "unused conf (cv_at value)" "cv_at value < cf_next conf"
  shows "\<exists>res conf'. add_string m uninit conf sec value = Some (res, conf') \<and> cf_sections conf' = cf_sections conf \<and>
    conf_repr conf' (if res then A(n \<mapsto> store_value (cv_name value) (cv_value value) es) else A)"
proof -
  note R = conf_reprD [OF r]
  obtain st vs where *: "0 \<notin> set n" "cf_stacks conf (cs_at sec) = Some st"
      "stack_ok (\<lambda>_ _ _. 0) st" "sk_elems st = map Some vs" "es = map (\<lambda>v. (cv_name v, cv_value v)) vs"
      "distinct (map cv_name vs)" "\<And>name. value_at conf n name = List.find (\<lambda>v. cv_name v = name) vs"
    using R(4) [OF A] sec by (auto simp: section_repr_def)
  have name: "cs_name sec = n" by (rule get_section_name [OF R(1) sec])
  have same: "A(n \<mapsto> es) = A" using A by auto
  have lt: "\<forall>w \<in> set vs. cv_at w < cf_next conf" using R(6) *(7) find_by_name [OF *(6)] by metis
  define v where "v = value\<lparr>cv_section := n\<rparr>"
  have keep: "conf_repr (conf\<lparr>cf_stacks := (cf_stacks conf)(cs_at sec := Some st')\<rparr>) A"
    if "stack_ok (\<lambda>_ _ _. 0) st'" "sk_elems st' = map Some vs" for st'
    using section_update [OF r sec A, of "conf\<lparr>cf_stacks := (cf_stacks conf)(cs_at sec := Some st')\<rparr>" st' vs] R(2) that *(6,7) lt
    by (simp add: value_at_def same flip: *(5))
  obtain res1 sk1 where push: "OPENSSL_sk_push m uninit st (Some v) = (res1, sk1)" by force
  obtain st1 where st1: "sk1 = Some st1" "stack_ok (\<lambda>_ _ _. 0) st1" "if res1 = 0 then st1 = st else sk_elems st1 = map Some (vs @ [v])"
    using sk_push_ok [OF *(3) push] *(4) by auto
  obtain res2 old t where ins: "OPENSSL_lh_insert m (cf_values conf) v = (res2, old, t)" by (cases "OPENSSL_lh_insert m (cf_values conf) v")
  consider (nomem) "OPENSSL_malloc m (length n + 1) = None" | (full) "OPENSSL_malloc m (length n + 1) \<noteq> None" "res1 = 0"
    | (table) "OPENSSL_malloc m (length n + 1) \<noteq> None" "res1 \<noteq> 0" "\<not> res2"
    | (stored) "OPENSSL_malloc m (length n + 1) \<noteq> None" "res1 \<noteq> 0" "res2" by blast
  then show ?thesis
  proof cases
    case nomem
    then show ?thesis using r by (intro exI [of _ False]) (simp add: add_string_def name strdup_eq [OF *(1)])
  next
    case full
    then show ?thesis using push st1 keep [of st1] *(2-4)
      by (auto simp: add_string_def name strdup_eq [OF *(1)] v_def [symmetric] Let_def)
  next
    case table
    then have "sk_elems st1 = map Some (vs @ [v])" using st1(3) by simp
    then obtain st2 where "snd (OPENSSL_sk_pop (Some st1)) = Some st2" "stack_ok (\<lambda>_ _ _. 0) st2" "sk_elems st2 = map Some vs"
      using sk_pop_ok [OF st1(2)] by auto
    then show ?thesis using table push st1(1) ins keep [of st2] *(2)
      by (auto simp: add_string_def name strdup_eq [OF *(1)] v_def [symmetric] Let_def)
  next
    case stored
    define vs' where "vs' = filter (\<lambda>w. cv_name w \<noteq> cv_name v) vs @ [v]"
    have i: "OPENSSL_lh_insert m (cf_values conf) v = (True, old, t)" using ins stored(3) by simp
    note t = conf_values.put_ok [OF R(2) i] value_at_insert [OF R(2) i]
    have old: "old = List.find (\<lambda>w. cv_name w = cv_name v) vs" using t(3) *(7) [of "cv_name v"] by (simp add: value_at_def v_def)
    have el1: "sk_elems st1 = map Some (vs @ [v])" using stored st1(3) by simp
    define sk2 where "sk2 = (case old of None \<Rightarrow> Some st1 | Some o' \<Rightarrow> snd (OPENSSL_sk_delete_ptr (Some st1) (Some o')))"
    have "\<exists>st2. sk2 = Some st2 \<and> stack_ok (\<lambda>_ _ _. 0) st2 \<and> sk_elems st2 = map Some vs'"
    proof (cases old)
      case None
      then have "filter (\<lambda>w. cv_name w \<noteq> cv_name v) vs = vs" using old by (auto simp: find_None_iff filter_id_conv)
      then show ?thesis using None st1(2) el1 by (simp add: sk2_def vs'_def)
    next
      case (Some w)
      then have w: "w \<in> set vs" "cv_name w = cv_name v" using old by (auto simp: find_Some_iff)
      have "value_at conf n (cv_name v) = Some w" using Some old *(7) by simp
      then have "cv_at w \<noteq> cv_at value" using fresh(1) unfolding unused_def by blast
      then have "w \<noteq> v" by (auto simp: v_def)
      then have "remove1 (Some w) (map Some (vs @ [v])) = map Some (remove1 w vs @ [v])"
        using w(1) by (simp add: remove1_append remove1_map_Some)
      then show ?thesis using sk_delete_ptr_ok [OF st1(2), of "Some w"] Some el1 remove1_by_name [OF *(6) w(1)] w(2)
        by (simp add: sk2_def vs'_def)
    qed
    then obtain st2 where st2: "sk2 = Some st2" "stack_ok (\<lambda>_ _ _. 0) st2" "sk_elems st2 = map Some vs'" by blast
    define conf' where "conf' = conf\<lparr>cf_stacks := (cf_stacks conf)(cs_at sec := Some st2), cf_values := t\<rparr>"
    have "add_string m uninit conf sec value = Some (True, conf')"
      using stored push st1(1) i *(2) st2(1)
      by (auto simp: add_string_def name strdup_eq [OF *(1)] v_def [symmetric] Let_def conf'_def sk2_def split: option.splits)
    moreover have "conf_repr conf' (A(n \<mapsto> map (\<lambda>v. (cv_name v, cv_value v)) vs'))"
    proof (rule section_update [OF r sec A _ _ _ _ _ st2(2,3)])
      show "distinct (map cv_name vs')" using *(6) by (auto simp: vs'_def distinct_map_filter)
      show "value_at conf' n name = List.find (\<lambda>v. cv_name v = name) vs'" for name
        using t(2) [of n name] *(7) [of name] unfolding vs'_def find_filter_name
        by (auto simp: conf'_def value_at_def v_def split: option.splits)
      show "value_at conf' k name = value_at conf k name" if "k \<noteq> n" for k name
        using t(2) [of k name] that by (simp add: conf'_def value_at_def v_def)
      show "\<forall>v \<in> set vs'. cv_at v < cf_next conf" using lt fresh(2) by (auto simp: vs'_def v_def)
    qed (simp_all add: conf'_def t(1))
    moreover have "map (\<lambda>v. (cv_name v, cv_value v)) vs' = store_value (cv_name value) (cv_value value) es"
      by (simp add: vs'_def store_value_def *(5) filter_map o_def v_def)
    ultimately show ?thesis by (intro exI [of _ True]) (simp add: conf'_def)
  qed
qed

lemma find_map_of:
  "map_option cv_value (List.find (\<lambda>v. cv_name v = name) vs) = map_of (map (\<lambda>v. (cv_name v, cv_value v)) vs) name"
  by (induction vs) auto

lemma get_string_repr:
  assumes "conf_repr conf A"
  shows "NCONF_get_string conf (Some n) name = (case A n of None \<Rightarrow> None | Some es \<Rightarrow> map_of es name)"
    "NCONF_get_string conf None name = NCONF_get_string conf (Some kDefaultSectionName) name"
proof -
  have s: "NCONF_get_string conf (Some n) name = map_option cv_value (value_at conf n name)"
    by (simp add: NCONF_get_string_def value_at_def split: option.split)
  show "NCONF_get_string conf (Some n) name = (case A n of None \<Rightarrow> None | Some es \<Rightarrow> map_of es name)"
    using conf_reprD(3) [OF assms, of n name] conf_reprD(4) [OF assms, of n] unfolding s
    by (auto simp: section_repr_def find_map_of split: option.split)
qed (simp add: NCONF_get_string_def)

text \<open>The entries of a section, as its stack lists them.\<close>

definition stack_entries :: "value_stack \<Rightarrow> (cstring \<times> cstring) list" where
  "stack_entries st = map (\<lambda>p. (cv_name (the p), cv_value (the p))) (sk_elems st)"

lemma get_section_repr:
  assumes "conf_repr conf A"
  shows "\<exists>st. NCONF_get_section conf n = Some st \<and> A n = map_option stack_entries st"
proof (cases "A n")
  case None
  then show ?thesis using conf_reprD(3) [OF assms, of n] by (simp add: NCONF_get_section_def)
next
  case (Some es)
  then show ?thesis using conf_reprD(4) [OF assms, of n]
    by (auto simp: NCONF_get_section_def section_repr_def stack_entries_def)
qed

lemma lh_empty_retrieve:
  assumes "lh_with cmp hash lh" "lh_items lh = {#}"
  shows "OPENSSL_lh_retrieve lh x = None"
  using assms retrieve_iff [of lh x] by (auto simp: lh_with_def)

lemma new_conf_repr: "NCONF_new m = Some conf \<Longrightarrow> conf_repr conf (\<lambda>_. None)"
proof -
  assume "NCONF_new m = Some conf"
  then obtain s v where c: "OPENSSL_lh_new m conf_section_hash conf_section_cmp = Some s" "OPENSSL_lh_new m conf_value_hash conf_value_cmp = Some v"
      "conf = \<lparr>cf_sections = s, cf_values = v, cf_stacks = \<lambda>_. None, cf_next = 0\<rparr>"
    by (auto simp: NCONF_new_def split: option.splits)
  note s = lh_new_ok [OF conf_section.hashable_axioms c(1)] and v = lh_new_ok [OF conf_value.hashable_axioms c(2)]
  have "OPENSSL_lh_retrieve s x = None" "OPENSSL_lh_retrieve v y = None" for x y
    by (rule lh_empty_retrieve; use s v in blast)+
  then show ?thesis unfolding conf_repr_def get_section_def value_at_def using s v by (simp add: c(3))
qed

lemma new_value_unused:
  assumes "conf_repr conf A" "CONF_VALUE_new m conf = Some (v, conf')"
  shows "conf_repr conf' A" "unused conf' (cv_at v)" "cv_at v < cf_next conf'" "get_section conf' = get_section conf"
proof -
  have c: "v = \<lparr>cv_at = cf_next conf, cv_section = [], cv_name = [], cv_value = []\<rparr>" "conf' = conf\<lparr>cf_next := cf_next conf + 1\<rparr>"
    using assms(2) by (auto simp: CONF_VALUE_new_def split: option.splits)
  note f = conf_repr_frame [OF assms(1), of conf']
  show "conf_repr conf' A" by (rule f; simp add: c(2))
  have v: "value_at conf' = value_at conf" by (rule f; simp add: c(2))
  show "unused conf' (cv_at v)" using conf_reprD(6) [OF assms(1)] by (fastforce simp: unused_def v c(1))
  show "cv_at v < cf_next conf'" "get_section conf' = get_section conf" by (auto simp: c get_section_def)
qed

end
