(* ===== verification/Buf.thy ===== *)
theory Buf
  imports Cstring
begin

text \<open>
  The growable byte buffer of \<open>crypto/buf/buf.c\<close>.
\<close>

section \<open>The code\<close>

record buf_mem =
  bm_length :: nat
  bm_data :: "block option"
  bm_max :: nat

definition BUF_MEM_new :: "malloc \<Rightarrow> buf_mem option" where
  "BUF_MEM_new m = map_option (\<lambda>_. \<lparr>bm_length = 0, bm_data = None, bm_max = 0\<rparr>) (OPENSSL_zalloc m 24)"

definition BUF_MEM_reserve :: "malloc \<Rightarrow> buf_mem \<Rightarrow> nat \<Rightarrow> bool \<times> buf_mem" where
  "BUF_MEM_reserve m buf cap =
     (if bm_max buf \<ge> cap then (True, buf)
      else
        let n = size_add cap 3
        in if n < cap then (False, buf)
           else
             let n = n div 3; alloc_size = size_mul n 4
             in if alloc_size div 4 \<noteq> n then (False, buf)
                else (case OPENSSL_realloc m (bm_data buf) alloc_size of
                        None \<Rightarrow> (False, buf)
                      | Some new_buf \<Rightarrow> (True, buf\<lparr>bm_data := Some new_buf, bm_max := alloc_size\<rparr>)))"

definition BUF_MEM_grow :: "malloc \<Rightarrow> buf_mem \<Rightarrow> nat \<Rightarrow> nat \<times> buf_mem" where
  "BUF_MEM_grow m buf len =
     (case BUF_MEM_reserve m buf len of
        (False, buf) \<Rightarrow> (0, buf)
      | (True, buf) \<Rightarrow>
          let buf = (if bm_length buf < len
                     then buf\<lparr>bm_data := map_option (\<lambda>d. poke d (bm_length buf) (replicate (len - bm_length buf) 0)) (bm_data buf)\<rparr>
                     else buf)
          in (len, buf\<lparr>bm_length := len\<rparr>))"

definition BUF_MEM_grow_clean :: "malloc \<Rightarrow> buf_mem \<Rightarrow> nat \<Rightarrow> nat \<times> buf_mem" where
  "BUF_MEM_grow_clean m buf len = BUF_MEM_grow m buf len"

definition BUF_MEM_append :: "malloc \<Rightarrow> buf_mem \<Rightarrow> byte list \<Rightarrow> bool \<times> buf_mem" where
  "BUF_MEM_append m buf inp =
     (if length inp = 0 then (True, buf)
      else
        let new_len = size_add (bm_length buf) (length inp)
        in if new_len < length inp then (False, buf)
           else (case BUF_MEM_reserve m buf new_len of
                   (False, buf) \<Rightarrow> (False, buf)
                 | (True, buf) \<Rightarrow>
                     (True, buf\<lparr>bm_data := map_option (\<lambda>d. poke d (bm_length buf) inp) (bm_data buf), bm_length := new_len\<rparr>)))"

definition BUF_strdup :: "malloc \<Rightarrow> byte list option \<Rightarrow> block option option" where
  "BUF_strdup m str = OPENSSL_strdup m str"

definition BUF_strnlen :: "byte list \<Rightarrow> nat \<Rightarrow> nat option" where
  "BUF_strnlen str max_len = OPENSSL_strnlen str max_len"

definition BUF_strndup :: "malloc \<Rightarrow> byte list \<Rightarrow> nat \<Rightarrow> block option option" where
  "BUF_strndup m str num = OPENSSL_strndup m str num"

definition BUF_strlcpy :: "block \<Rightarrow> byte list \<Rightarrow> nat \<Rightarrow> (nat \<times> block) option" where
  "BUF_strlcpy dst src dst_size = OPENSSL_strlcpy dst src dst_size"

definition BUF_strlcat :: "block \<Rightarrow> byte list \<Rightarrow> nat \<Rightarrow> (nat \<times> block) option" where
  "BUF_strlcat dst src dst_size = OPENSSL_strlcat dst src dst_size"

definition BUF_memdup :: "malloc \<Rightarrow> block \<Rightarrow> block option" where
  "BUF_memdup m data = OPENSSL_memdup m data"

section \<open>Contents\<close>

definition buf_ok :: "buf_mem \<Rightarrow> bool" where
  "buf_ok buf \<longleftrightarrow> bm_length buf \<le> bm_max buf \<and> bm_max buf \<le> SIZE_MAX \<and>
     (case bm_data buf of None \<Rightarrow> bm_max buf = 0 | Some d \<Rightarrow> length d = bm_max buf)"

definition buf_contents :: "buf_mem \<Rightarrow> byte list" where
  "buf_contents buf = (case bm_data buf of None \<Rightarrow> [] | Some d \<Rightarrow> take (bm_length buf) d)"

lemma length_buf_contents: "buf_ok buf \<Longrightarrow> length (buf_contents buf) = bm_length buf"
  by (auto simp: buf_ok_def buf_contents_def split: option.splits)

lemma reserve_size:
  assumes "\<not> size_add cap 3 < cap" "size_mul (size_add cap 3 div 3) 4 div 4 = size_add cap 3 div 3" "cap \<le> SIZE_MAX"
  shows "cap \<le> size_mul (size_add cap 3 div 3) 4" "size_mul (size_add cap 3 div 3) 4 \<le> SIZE_MAX"
proof -
  have a: "size_add cap 3 = cap + 3" using assms(1,3) by (intro size_add_no_overflow) auto
  have "size_mul (size_add cap 3 div 3) 4 \<ge> 4 * (size_add cap 3 div 3)" using assms(2) by (metis times_div_less_eq_dividend)
  then show "cap \<le> size_mul (size_add cap 3 div 3) 4" unfolding a by linarith
  show "size_mul (size_add cap 3 div 3) 4 \<le> SIZE_MAX" by (simp add: size_mul_def)
qed

lemma reserve_ok:
  assumes m: "malloc_ok m" and ok: "buf_ok buf" and cap: "cap \<le> SIZE_MAX" and r: "BUF_MEM_reserve m buf cap = (r, buf')"
  shows "buf_ok buf' \<and> bm_length buf' = bm_length buf \<and> buf_contents buf' = buf_contents buf \<and> (r \<longrightarrow> cap \<le> bm_max buf') \<and> (\<not> r \<longrightarrow> buf' = buf)"
proof (cases "bm_max buf \<ge> cap \<or> \<not> r")
  case True
  then show ?thesis using ok r by (auto simp: BUF_MEM_reserve_def Let_def split: if_splits option.splits)
next
  case False
  let ?a = "size_mul (size_add cap 3 div 3) 4"
  obtain nb where nb: "OPENSSL_realloc m (bm_data buf) ?a = Some nb" "buf' = buf\<lparr>bm_data := Some nb, bm_max := ?a\<rparr>"
      "\<not> size_add cap 3 < cap" "?a div 4 = size_add cap 3 div 3"
    using False r by (auto simp: BUF_MEM_reserve_def Let_def split: if_splits option.splits)
  note s = reserve_size [OF nb(3,4) cap]
  note re = OPENSSL_realloc_Some [OF m nb(1) s(2)]
  have "take (bm_length buf) nb = buf_contents buf"
  proof (cases "bm_data buf")
    case None
    then show ?thesis using ok by (simp add: buf_ok_def buf_contents_def)
  next
    case (Some d)
    then have "length d = bm_max buf" "bm_length buf \<le> length d" using ok by (simp_all add: buf_ok_def)
    moreover have "take (length d) nb = d" using re(2) [OF Some] calculation(1) False s(1) by simp
    ultimately show ?thesis using Some by (metis buf_contents_def min.absorb1 option.simps(5) take_take)
  qed
  moreover have "buf_contents buf' = take (bm_length buf) nb" by (simp add: nb(2) buf_contents_def)
  moreover have "buf_ok buf'" using re(1) s ok False by (auto simp: nb(2) buf_ok_def)
  moreover have "bm_length buf' = bm_length buf" "cap \<le> bm_max buf'" using s(1) by (simp_all add: nb(2))
  ultimately show ?thesis using False by simp
qed

lemma reserve_False: "BUF_MEM_reserve m buf cap = (False, buf') \<Longrightarrow> buf' = buf"
  by (auto simp: BUF_MEM_reserve_def Let_def split: if_splits option.splits)

lemma buf_poke:
  assumes "buf_ok buf" "bm_length buf + length inp \<le> bm_max buf"
  shows "buf_ok (buf\<lparr>bm_data := map_option (\<lambda>d. poke d (bm_length buf) inp) (bm_data buf), bm_length := bm_length buf + length inp\<rparr>)"
    and "buf_contents (buf\<lparr>bm_data := map_option (\<lambda>d. poke d (bm_length buf) inp) (bm_data buf), bm_length := bm_length buf + length inp\<rparr>)
      = buf_contents buf @ inp"
  using assms by (auto simp: buf_ok_def buf_contents_def poke_def split: option.splits)

lemma append_contents:
  assumes "malloc_ok m" "buf_ok buf" "length inp \<le> SIZE_MAX" "BUF_MEM_append m buf inp = (r, buf')"
  shows "buf_ok buf' \<and> buf_contents buf' = (if r then buf_contents buf @ inp else buf_contents buf)"
proof (cases "inp = [] \<or> size_add (bm_length buf) (length inp) < length inp")
  case True
  then show ?thesis using assms(2,4) by (auto simp: BUF_MEM_append_def Let_def split: if_splits)
next
  case False
  have "bm_length buf \<le> SIZE_MAX" using assms(2) by (auto simp: buf_ok_def)
  moreover have c: "size_add (length inp) (bm_length buf) = size_add (bm_length buf) (length inp)" by (simp add: size_add_def add.commute)
  ultimately have n: "size_add (bm_length buf) (length inp) = bm_length buf + length inp"
    using False assms(3) size_add_no_overflow [of "length inp" "bm_length buf"] by simp
  have n2: "bm_length buf + length inp \<le> SIZE_MAX" using size_add_bound [of "bm_length buf" "length inp"] n by simp
  obtain r1 b1 where r1: "BUF_MEM_reserve m buf (bm_length buf + length inp) = (r1, b1)" by force
  note re = reserve_ok [OF assms(1,2) n2 r1]
  show ?thesis
  proof (cases r1)
    case True
    have "r" "buf' = b1\<lparr>bm_data := map_option (\<lambda>d. poke d (bm_length b1) inp) (bm_data b1), bm_length := bm_length b1 + length inp\<rparr>"
      using assms(4) True False re by (simp_all add: BUF_MEM_append_def Let_def n r1)
    then show ?thesis using buf_poke [of b1 inp] re True by simp
  next
    case False': False
    then show ?thesis using assms(2,4) re False by (simp add: BUF_MEM_append_def Let_def n r1)
  qed
qed

lemma grow_contents:
  assumes "malloc_ok m" "buf_ok buf" "len \<le> SIZE_MAX" "BUF_MEM_grow m buf len = (n, buf')"
  shows "buf_ok buf' \<and> (if n = len then buf_contents buf' = take len (buf_contents buf @ replicate len 0)
                     else n = 0 \<and> buf' = buf)"
proof -
  obtain r b1 where r: "BUF_MEM_reserve m buf len = (r, b1)" by force
  note re = reserve_ok [OF assms(1-3) r] and lb = length_buf_contents [OF assms(2)]
  have z: "len \<noteq> 0" if "\<not> r" using r that by (auto simp: BUF_MEM_reserve_def split: if_splits)
  show ?thesis
  proof (cases "r \<and> bm_length b1 < len")
    case True
    let ?z = "replicate (len - bm_length b1) (0 :: byte)"
    have "n = len" "buf' = b1\<lparr>bm_data := map_option (\<lambda>d. poke d (bm_length b1) ?z) (bm_data b1), bm_length := bm_length b1 + length ?z\<rparr>"
      using assms(4) True by (auto simp: BUF_MEM_grow_def r)
    moreover have "take len (buf_contents buf @ replicate len 0) = buf_contents buf @ ?z"
      using True re lb by simp
    ultimately show ?thesis using buf_poke [of b1 ?z] re True by simp
  next
    case False
    have "len \<le> length (buf_contents buf)" if r using that False re lb by simp
    moreover have "buf_contents (b1\<lparr>bm_length := len\<rparr>) = take len (buf_contents b1)" if r
      using that False by (cases "bm_data b1") (simp_all add: buf_contents_def min_def)
    ultimately show ?thesis using assms(2,4) False re z by (cases r) (auto simp: BUF_MEM_grow_def r buf_ok_def split: option.splits)
  qed
qed

text \<open>A buffer keeps its contents.  \<open>BUF_MEM_append\<close> adds the bytes at the end and
  \<open>BUF_MEM_grow\<close> cuts the contents or extends them with zeros, or they fail and leave the
  contents as they are.  The length never exceeds what is allocated.\<close>

theorem buf_mem_contents:
  assumes "malloc_ok m" "buf_ok buf" "length inp \<le> SIZE_MAX" "len \<le> SIZE_MAX"
  shows "(case BUF_MEM_append m buf inp of (r, buf') \<Rightarrow>
      buf_ok buf' \<and> buf_contents buf' = (if r then buf_contents buf @ inp else buf_contents buf)) \<and>
    (case BUF_MEM_grow m buf len of (n, buf') \<Rightarrow>
      buf_ok buf' \<and> (if n = len then buf_contents buf' = take len (buf_contents buf @ replicate len 0)
                     else n = 0 \<and> buf' = buf))"
  using append_contents [OF assms(1-3)] grow_contents [OF assms(1,2,4)] by (auto split: prod.split)

theorem buf_mem_contents_witness:
  "malloc_ok (\<lambda>n. if n \<le> SIZE_MAX then Some (replicate n 0) else None) \<and>
   (case BUF_MEM_append (\<lambda>n. if n \<le> SIZE_MAX then Some (replicate n 0) else None) \<lparr>bm_length = 0, bm_data = None, bm_max = 0\<rparr> [1, 2] of
     (r, buf') \<Rightarrow> buf_contents buf' = (if r then [1, 2] else []))"
  using buf_mem_contents [of "\<lambda>n. if n \<le> SIZE_MAX then Some (replicate n 0) else None" "\<lparr>bm_length = 0, bm_data = None, bm_max = 0\<rparr>" "[1, 2]" 0]
  by (auto simp: malloc_ok_def buf_ok_def buf_contents_def split: prod.splits)

end
