(* ===== verification/Bio_Mem.thy ===== *)
theory Bio_Mem
  imports Buf
begin

text \<open>
  Memory BIOs, \<open>crypto/bio/bio_mem.c\<close>, and the dispatching functions of \<open>crypto/bio/bio.c\<close> for
  them.  A BIO is a record with the fields of its struct.  The data of a read-only BIO is the
  caller's buffer: the code advances \<open>b->data\<close> over it, and \<open>mb_off\<close> is how far it has come.
  A dereferenced null pointer and a pointer outside its buffer give \<open>None\<close>.
\<close>

section \<open>The code\<close>

record mem_bio =
  mb_init :: bool
  mb_shutdown :: int
  mb_num :: int
  mb_retry_read :: bool
  mb_rdonly :: bool
  mb_ptr :: "buf_mem option"
  mb_off :: nat
  mb_num_read :: uint64
  mb_num_write :: uint64

definition mem_new :: "malloc \<Rightarrow> mem_bio \<Rightarrow> bool \<times> mem_bio" where
  "mem_new m bio =
     (case BUF_MEM_new m of
        None \<Rightarrow> (False, bio)
      | Some b \<Rightarrow> (True, bio\<lparr>mb_shutdown := 1, mb_init := True, mb_num := -1, mb_ptr := Some b\<rparr>))"

definition BIO_new_mem :: "malloc \<Rightarrow> mem_bio option" where
  "BIO_new_mem m =
     (case OPENSSL_zalloc m 72 of
        None \<Rightarrow> None
      | Some _ \<Rightarrow>
          (case mem_new m \<lparr>mb_init = False, mb_shutdown = 1, mb_num = 0, mb_retry_read = False, mb_rdonly = False,
                           mb_ptr = None, mb_off = 0, mb_num_read = 0, mb_num_write = 0\<rparr> of
             (False, _) \<Rightarrow> None
           | (True, ret) \<Rightarrow> Some ret))"

text \<open>The inner option is the pointer that is returned.\<close>

definition BIO_new_mem_buf :: "malloc \<Rightarrow> byte list option \<Rightarrow> int \<Rightarrow> mem_bio option option" where
  "BIO_new_mem_buf m buf len =
     (case (if len < 0 then (case buf of None \<Rightarrow> None | Some s \<Rightarrow> strlen s) else Some (nat len)) of
        None \<Rightarrow> None
      | Some sz \<Rightarrow>
          if buf = None \<and> len \<noteq> 0 then Some None
          else
            (case BIO_new_mem m of
               None \<Rightarrow> Some None
             | Some ret \<Rightarrow>
                 (case mb_ptr ret of
                    None \<Rightarrow> None
                  | Some b \<Rightarrow>
                      Some (Some (ret\<lparr>mb_ptr := Some (b\<lparr>bm_data := map_option (take sz) buf, bm_length := sz, bm_max := sz\<rparr>),
                                      mb_rdonly := True, mb_num := 0\<rparr>)))))"

definition mem_free :: "mem_bio \<Rightarrow> mem_bio" where
  "mem_free bio =
     (if mb_shutdown bio = 0 \<or> \<not> mb_init bio \<or> mb_ptr bio = None then bio
      else bio\<lparr>mb_ptr := None\<rparr>)"

text \<open>The return value, the bytes written to \<open>out\<close>, and the BIO.\<close>

definition mem_read :: "mem_bio \<Rightarrow> int \<Rightarrow> (int \<times> byte list \<times> mem_bio) option" where
  "mem_read bio outl =
     (let bio = bio\<lparr>mb_retry_read := False\<rparr>
      in if outl \<le> 0 then Some (0, [], bio)
         else
           (case mb_ptr bio of
              None \<Rightarrow> None
            | Some b \<Rightarrow>
                let ret = (if nat outl > bm_length b then bm_length b else nat outl)
                in if ret > 0 then
                     (case bm_data b of
                        None \<Rightarrow> None
                      | Some data \<Rightarrow>
                          let out = take ret (drop (mb_off bio) data);
                              b = b\<lparr>bm_length := bm_length b - ret\<rparr>
                          in if mb_rdonly bio
                             then Some (int ret, out, bio\<lparr>mb_ptr := Some b, mb_off := mb_off bio + ret\<rparr>)
                             else Some (int ret, out,
                               bio\<lparr>mb_ptr := Some (b\<lparr>bm_data := Some (poke data 0 (take (bm_length b) (drop ret data)))\<rparr>)\<rparr>))
                   else if bm_length b = 0 then Some (mb_num bio, [], bio\<lparr>mb_retry_read := mb_num bio \<noteq> 0\<rparr>)
                   else Some (int ret, [], bio)))"

definition mem_write :: "malloc \<Rightarrow> mem_bio \<Rightarrow> byte list \<Rightarrow> (int \<times> mem_bio) option" where
  "mem_write m bio inp =
     (let bio = bio\<lparr>mb_retry_read := False\<rparr>
      in if length inp = 0 then Some (0, bio)
         else if mb_rdonly bio then Some (-1, bio)
         else
           (case mb_ptr bio of
              None \<Rightarrow> None
            | Some b \<Rightarrow>
                (case BUF_MEM_append m b inp of
                   (False, b) \<Rightarrow> Some (-1, bio\<lparr>mb_ptr := Some b\<rparr>)
                 | (True, b) \<Rightarrow> Some (int (length inp), bio\<lparr>mb_ptr := Some b\<rparr>))))"

definition mem_gets :: "mem_bio \<Rightarrow> int \<Rightarrow> (int \<times> byte list \<times> mem_bio) option" where
  "mem_gets bio sz =
     (let bio = bio\<lparr>mb_retry_read := False\<rparr>
      in if sz \<le> 0 then Some (0, [], bio)
         else
           (case mb_ptr bio of
              None \<Rightarrow> None
            | Some b \<Rightarrow>
                let ret = (if nat sz - 1 > bm_length b then bm_length b else nat sz - 1)
                in (case bm_data b of
                      None \<Rightarrow> if ret > 0 then None else map_option (\<lambda>(r, out, bio). (r, out @ [0], bio)) (mem_read bio 0)
                    | Some data \<Rightarrow>
                        let ret = (case OPENSSL_memchr (take ret (drop (mb_off bio) data)) 10 of None \<Rightarrow> ret | Some newline \<Rightarrow> newline + 1)
                        in (case mem_read bio (int ret) of
                              None \<Rightarrow> None
                            | Some (r, out, bio) \<Rightarrow> Some (r, if r \<ge> 0 then out @ [0] else out, bio)))))"

datatype mem_cmd =
  MEM_RESET | MEM_EOF | MEM_SET_EOF_RETURN int | MEM_INFO | MEM_SET_BUF "buf_mem option" int | MEM_GET_PTR
| MEM_GET_CLOSE | MEM_SET_CLOSE int | MEM_WPENDING | MEM_PENDING | MEM_FLUSH | MEM_other

text \<open>What is stored through the pointer argument.\<close>

datatype mem_out = No_out | Out_data "byte list option" | Out_buf "buf_mem option"

definition mem_ctrl :: "mem_bio \<Rightarrow> mem_cmd \<Rightarrow> (int \<times> mem_out \<times> mem_bio) option" where
  "mem_ctrl bio cmd =
     (case cmd of
        MEM_RESET \<Rightarrow>
          (case mb_ptr bio of
             None \<Rightarrow> None
           | Some b \<Rightarrow>
               if bm_data b = None then Some (1, No_out, bio)
               else if mb_rdonly bio then
                 (if mb_off bio < bm_max b - bm_length b then None
                  else Some (1, No_out, bio\<lparr>mb_ptr := Some (b\<lparr>bm_length := bm_max b\<rparr>), mb_off := mb_off bio - (bm_max b - bm_length b)\<rparr>))
               else Some (1, No_out, bio\<lparr>mb_ptr := Some (b\<lparr>bm_data := Some (replicate (bm_max b) 0), bm_length := 0\<rparr>)\<rparr>))
      | MEM_EOF \<Rightarrow> map_option (\<lambda>b. (if bm_length b = 0 then 1 else 0, No_out, bio)) (mb_ptr bio)
      | MEM_SET_EOF_RETURN num \<Rightarrow> Some (1, No_out, bio\<lparr>mb_num := num\<rparr>)
      | MEM_INFO \<Rightarrow> map_option (\<lambda>b. (int (bm_length b), Out_data (map_option (drop (mb_off bio)) (bm_data b)), bio)) (mb_ptr bio)
      | MEM_SET_BUF ptr num \<Rightarrow> Some (1, No_out, (mem_free bio)\<lparr>mb_shutdown := num, mb_ptr := ptr, mb_off := 0\<rparr>)
      | MEM_GET_PTR \<Rightarrow> Some (1, Out_buf (mb_ptr bio), bio)
      | MEM_GET_CLOSE \<Rightarrow> Some (mb_shutdown bio, No_out, bio)
      | MEM_SET_CLOSE num \<Rightarrow> Some (1, No_out, bio\<lparr>mb_shutdown := num\<rparr>)
      | MEM_WPENDING \<Rightarrow> Some (0, No_out, bio)
      | MEM_PENDING \<Rightarrow> map_option (\<lambda>b. (int (bm_length b), No_out, bio)) (mb_ptr bio)
      | MEM_FLUSH \<Rightarrow> Some (1, No_out, bio)
      | MEM_other \<Rightarrow> Some (0, No_out, bio))"

definition BIO_mem_contents :: "mem_bio \<Rightarrow> (byte list option \<times> nat) option" where
  "BIO_mem_contents bio = map_option (\<lambda>b. (map_option (drop (mb_off bio)) (bm_data b), bm_length b)) (mb_ptr bio)"

definition BIO_get_mem_data :: "mem_bio \<Rightarrow> (int \<times> mem_out \<times> mem_bio) option" where
  "BIO_get_mem_data bio = mem_ctrl bio MEM_INFO"

definition BIO_get_mem_ptr :: "mem_bio \<Rightarrow> (int \<times> mem_out \<times> mem_bio) option" where
  "BIO_get_mem_ptr bio = mem_ctrl bio MEM_GET_PTR"

definition BIO_set_mem_buf :: "mem_bio \<Rightarrow> buf_mem option \<Rightarrow> int \<Rightarrow> (int \<times> mem_out \<times> mem_bio) option" where
  "BIO_set_mem_buf bio b take_ownership = mem_ctrl bio (MEM_SET_BUF b take_ownership)"

definition BIO_set_mem_eof_return :: "mem_bio \<Rightarrow> int \<Rightarrow> (int \<times> mem_out \<times> mem_bio) option" where
  "BIO_set_mem_eof_return bio eof_value = mem_ctrl bio (MEM_SET_EOF_RETURN eof_value)"

text \<open>The dispatching functions.\<close>

definition BIO_read :: "mem_bio \<Rightarrow> int \<Rightarrow> (int \<times> byte list \<times> mem_bio) option" where
  "BIO_read bio len =
     (if \<not> mb_init bio then Some (-2, [], bio)
      else if len \<le> 0 then Some (0, [], bio)
      else map_option
        (\<lambda>(ret, out, bio). (ret, out, if ret > 0 then bio\<lparr>mb_num_read := mb_num_read bio + of_int ret\<rparr> else bio))
        (mem_read bio len))"

definition BIO_gets :: "mem_bio \<Rightarrow> int \<Rightarrow> (int \<times> byte list \<times> mem_bio) option" where
  "BIO_gets bio len =
     (if \<not> mb_init bio then Some (-2, [], bio)
      else if len \<le> 0 then Some (0, [], bio)
      else map_option
        (\<lambda>(ret, out, bio). (ret, out, if ret > 0 then bio\<lparr>mb_num_read := mb_num_read bio + of_int ret\<rparr> else bio))
        (mem_gets bio len))"

definition BIO_write :: "malloc \<Rightarrow> mem_bio \<Rightarrow> byte list \<Rightarrow> (int \<times> mem_bio) option" where
  "BIO_write m bio inp =
     (if \<not> mb_init bio then Some (-2, bio)
      else if length inp = 0 then Some (0, bio)
      else map_option
        (\<lambda>(ret, bio). (ret, if ret > 0 then bio\<lparr>mb_num_write := mb_num_write bio + of_int ret\<rparr> else bio))
        (mem_write m bio inp))"

function BIO_write_all :: "malloc \<Rightarrow> mem_bio \<Rightarrow> byte list \<Rightarrow> (bool \<times> mem_bio) option" where
  "BIO_write_all m bio data =
     (if length data > 0 then
        (case BIO_write m bio (if length data > INT_MAX then take INT_MAX data else data) of
           None \<Rightarrow> None
         | Some (ret, bio) \<Rightarrow> if ret \<le> 0 then Some (False, bio) else BIO_write_all m bio (drop (nat ret) data))
      else Some (True, bio))"
  by pat_completeness auto
termination
  by (relation "measure (\<lambda>(_, _, data). length data)") auto

declare BIO_write_all.simps [simp del]

definition BIO_puts :: "malloc \<Rightarrow> mem_bio \<Rightarrow> byte list \<Rightarrow> (int \<times> mem_bio) option" where
  "BIO_puts m bio inp =
     (case strlen inp of
        None \<Rightarrow> None
      | Some len \<Rightarrow> if len > INT_MAX then Some (-1, bio) else BIO_write m bio (take len inp))"

section \<open>Contents\<close>

definition mem_contents :: "mem_bio \<Rightarrow> byte list" where
  "mem_contents bio =
     (case mb_ptr bio of
        None \<Rightarrow> []
      | Some b \<Rightarrow> (case bm_data b of None \<Rightarrow> [] | Some d \<Rightarrow> take (bm_length b) (drop (mb_off bio) d)))"

text \<open>A BIO that the functions above have made.\<close>

definition mem_ok :: "mem_bio \<Rightarrow> bool" where
  "mem_ok bio \<longleftrightarrow> mb_init bio \<and>
     (\<exists>b. mb_ptr bio = Some b \<and> buf_ok b \<and> mb_off bio = (if mb_rdonly bio then bm_max b - bm_length b else 0))"

lemma mem_okE:
  assumes "mem_ok bio"
  obtains b where "mb_init bio" "mb_ptr bio = Some b" "buf_ok b" "mb_off bio = (if mb_rdonly bio then bm_max b - bm_length b else 0)"
    "bm_length b = length (mem_contents bio)"
  using assms by (auto simp: mem_ok_def mem_contents_def buf_ok_def split: option.splits if_splits)

lemma mem_contents_update [simp]:
  "mem_contents (bio\<lparr>mb_retry_read := r\<rparr>) = mem_contents bio" "mem_contents (bio\<lparr>mb_num := n\<rparr>) = mem_contents bio"
  "mem_contents (bio\<lparr>mb_num_read := k\<rparr>) = mem_contents bio" "mem_contents (bio\<lparr>mb_num_write := k\<rparr>) = mem_contents bio"
  "mem_ok (bio\<lparr>mb_retry_read := r\<rparr>) = mem_ok bio" "mem_ok (bio\<lparr>mb_num := n\<rparr>) = mem_ok bio"
  "mem_ok (bio\<lparr>mb_num_read := k\<rparr>) = mem_ok bio" "mem_ok (bio\<lparr>mb_num_write := k\<rparr>) = mem_ok bio"
  by (simp_all add: mem_contents_def mem_ok_def split: option.split)

text \<open>A read of at least one byte.\<close>

lemma mem_read_spec:
  assumes "mem_ok bio" "0 < n"
  shows "\<exists>bio'. mem_read bio (int n) =
      Some (if mem_contents bio = [] then mb_num bio else int (min n (length (mem_contents bio))), take n (mem_contents bio), bio') \<and>
    mem_ok bio' \<and> mem_contents bio' = drop n (mem_contents bio) \<and>
    mb_rdonly bio' = mb_rdonly bio \<and> mb_num bio' = mb_num bio \<and>
    (mb_retry_read bio' \<longleftrightarrow> mem_contents bio = [] \<and> mb_num bio \<noteq> 0)"
proof -
  obtain b where b: "mb_init bio" "mb_ptr bio = Some b" "buf_ok b" "mb_off bio = (if mb_rdonly bio then bm_max b - bm_length b else 0)"
      "bm_length b = length (mem_contents bio)" using mem_okE [OF assms(1)] by blast
  show ?thesis
  proof (cases "mem_contents bio = []")
    case True
    then show ?thesis using assms b by (simp add: mem_read_def)
  next
    case False
    then obtain d where d: "bm_data b = Some d" using b(2,5) by (auto simp: mem_contents_def split: option.splits)
    define k where "k = (if n > bm_length b then bm_length b else n)"
    have k: "0 < k" "k \<le> bm_length b" "k = min n (length (mem_contents bio))" using False b(5) assms(2) by (auto simp: k_def)
    have c: "mem_contents bio = take (bm_length b) (drop (mb_off bio) d)" using b(2) d by (simp add: mem_contents_def)
    have out: "take k (drop (mb_off bio) d) = take n (mem_contents bio)" "drop n (mem_contents bio) = take (bm_length b - k) (drop (mb_off bio + k) d)"
      using k b(5) unfolding c by (auto simp: min_def drop_take add.commute split: if_splits)
    have l: "length d = bm_max b" "bm_length b \<le> bm_max b" using b(3) d by (auto simp: buf_ok_def)
    define bio' where "bio' = (if mb_rdonly bio
        then bio\<lparr>mb_retry_read := False, mb_ptr := Some (b\<lparr>bm_length := bm_length b - k\<rparr>), mb_off := mb_off bio + k\<rparr>
        else bio\<lparr>mb_retry_read := False, mb_ptr := Some (b\<lparr>bm_length := bm_length b - k, bm_data := Some (poke d 0 (take (bm_length b - k) (drop k d)))\<rparr>)\<rparr>)"
    have "mem_read bio (int n) = Some (int k, take k (drop (mb_off bio) d), bio')"
      using assms(2) k(1) k_def by (auto simp: mem_read_def b(2) d Let_def bio'_def split: if_splits)
    moreover have "mem_ok bio'"
      using b(1,3,4) d k(2) l by (simp add: mem_ok_def buf_ok_def bio'_def)
    moreover have "mem_contents bio' = take (bm_length b - k) (drop (mb_off bio + k) d)"
      using b(4) d k(2) l by (simp add: mem_contents_def bio'_def poke_def)
    moreover have "mb_rdonly bio' = mb_rdonly bio" "mb_num bio' = mb_num bio" "\<not> mb_retry_read bio'" by (simp_all add: bio'_def)
    ultimately show ?thesis using False k(3) out by simp
  qed
qed

lemma mem_read_0: "mem_read bio 0 = Some (0, [], bio\<lparr>mb_retry_read := False\<rparr>)"
  by (simp add: mem_read_def)

text \<open>A line: up to and including the first newline.\<close>

fun first_line :: "byte list \<Rightarrow> byte list" where
  "first_line [] = []"
| "first_line (c # cs) = (if c = 10 then [c] else c # first_line cs)"

lemma first_line_take: "take (length (first_line cs)) cs = first_line cs" "length (first_line cs) \<le> length cs" "first_line cs = [] \<longleftrightarrow> cs = []"
  by (induction cs) auto

lemma memchr_first_line: "(case OPENSSL_memchr s 10 of None \<Rightarrow> length s | Some i \<Rightarrow> i + 1) = length (first_line s)"
  by (induction s) (auto split: option.splits)

lemma mem_gets_spec:
  assumes "mem_ok bio" "0 < n"
  defines "line \<equiv> first_line (take (n - 1) (mem_contents bio))"
  shows "\<exists>bio'. mem_gets bio (int n) = Some (int (length line), line @ [0], bio') \<and> mem_ok bio' \<and>
    mem_contents bio = line @ mem_contents bio' \<and> mb_rdonly bio' = mb_rdonly bio \<and> mb_num bio' = mb_num bio \<and> \<not> mb_retry_read bio'"
proof -
  let ?c = "mem_contents bio" and ?bio = "bio\<lparr>mb_retry_read := False\<rparr>"
  obtain b where b: "mb_init bio" "mb_ptr bio = Some b" "buf_ok b" "mb_off bio = (if mb_rdonly bio then bm_max b - bm_length b else 0)"
      "bm_length b = length ?c" using mem_okE [OF assms(1)] by blast
  define k where "k = (if bm_length b < n - Suc 0 then bm_length b else n - Suc 0)"
  have k: "take k ?c = take (n - 1) ?c" "k \<le> length ?c" using b(5) by (auto simp: k_def)
  show ?thesis
  proof (cases "bm_data b")
    case None
    then have "?c = []" using b(2) by (simp add: mem_contents_def)
    then show ?thesis using assms(1,2) b(2,5) None by (simp add: mem_gets_def mem_read_0 line_def)
  next
    case (Some d)
    have c: "?c = take (bm_length b) (drop (mb_off bio) d)" using b(2) Some by (simp add: mem_contents_def)
    have "length ?c \<le> length (drop (mb_off bio) d)" unfolding c by simp
    then have lk: "length (take k (drop (mb_off bio) d)) = k" using k(2) by simp
    have "take k (drop (mb_off bio) d) = take k ?c" unfolding c using k(2) b(5) by (simp add: min_def)
    then have ret: "(case OPENSSL_memchr (take k (drop (mb_off bio) d)) 10 of None \<Rightarrow> k | Some i \<Rightarrow> i + 1) = length line"
      using memchr_first_line [of "take k (drop (mb_off bio) d)", unfolded lk] k by (simp add: line_def)
    have g: "mem_gets bio (int n) = (case mem_read ?bio (int (length line)) of None \<Rightarrow> None
        | Some (r, out, bio) \<Rightarrow> Some (r, if r \<ge> 0 then out @ [0] else out, bio))"
      using assms(2) ret by (simp add: mem_gets_def Let_def b(2) Some flip: k_def split del: if_split cong: if_cong)
    have line: "take (length line) ?c = line" "length line \<le> length ?c"
      using first_line_take(1,2) [of "take (n - 1) ?c"] by (auto simp: line_def min_def split: if_splits)
    show ?thesis
    proof (cases "line = []")
      case True
      then show ?thesis using assms(1) by (simp add: g mem_read_0)
    next
      case False
      then have "?c \<noteq> []" using line by auto
      then show ?thesis
        using mem_read_spec [of ?bio "length line"] assms(1) False line append_take_drop_id [of "length line" ?c] by (auto simp: g min_def)
    qed
  qed
qed

lemma BIO_gets_spec:
  assumes "mem_ok bio" "0 < n"
  defines "line \<equiv> first_line (take (n - 1) (mem_contents bio))"
  shows "\<exists>bio'. BIO_gets bio (int n) = Some (int (length line), line @ [0], bio') \<and> mem_ok bio' \<and>
    mem_contents bio = line @ mem_contents bio' \<and> mb_rdonly bio' = mb_rdonly bio"
proof -
  obtain bio1 where "mem_gets bio (int n) = Some (int (length line), line @ [0], bio1)" "mem_ok bio1"
      "mem_contents bio = line @ mem_contents bio1" "mb_rdonly bio1 = mb_rdonly bio"
    using mem_gets_spec [OF assms(1,2), folded line_def] by blast
  moreover have "mb_init bio" using assms(1) by (simp add: mem_ok_def)
  ultimately show ?thesis using assms(2) by (simp add: BIO_gets_def del: length_0_conv length_greater_0_conv)
qed

lemma BIO_read_spec:
  assumes "mem_ok bio"
  shows "\<exists>r bio'. BIO_read bio (int n) = Some (r, take n (mem_contents bio), bio') \<and> mem_ok bio' \<and>
    mem_contents bio' = drop n (mem_contents bio)"
proof (cases "n = 0")
  case True
  then show ?thesis using assms by (auto simp: BIO_read_def mem_ok_def)
next
  case False
  then obtain r bio1 where "mem_read bio (int n) = Some (r, take n (mem_contents bio), bio1)" "mem_ok bio1"
      "mem_contents bio1 = drop n (mem_contents bio)"
    using mem_read_spec [OF assms, of n] by blast
  moreover have "mb_init bio" using assms by (simp add: mem_ok_def)
  ultimately show ?thesis using False by (cases "r > 0") (auto simp: BIO_read_def)
qed

lemma BIO_write_spec:
  assumes "malloc_ok m" "mem_ok bio" "length inp \<le> INT_MAX"
  shows "\<exists>r bio'. BIO_write m bio inp = Some (r, bio') \<and> mem_ok bio' \<and> (r = int (length inp) \<or> r = -1) \<and>
    mem_contents bio' = mem_contents bio @ take (nat r) inp \<and> mb_rdonly bio' = mb_rdonly bio"
proof -
  obtain b where b: "mb_init bio" "mb_ptr bio = Some b" "buf_ok b" "mb_off bio = (if mb_rdonly bio then bm_max b - bm_length b else 0)"
    using mem_okE [OF assms(2)] by blast
  show ?thesis
  proof (cases "inp = [] \<or> mb_rdonly bio")
    case True
    then show ?thesis using assms(2) b(1)
      by (cases "inp = []") (auto simp: BIO_write_def mem_write_def intro!: exI [of _ "-1 :: int"])
  next
    case False
    obtain r b' where a: "BUF_MEM_append m b inp = (r, b')" by force
    have c: "mem_contents (bio\<lparr>mb_retry_read := f, mb_ptr := Some x\<rparr>) = buf_contents x" for x f
      using False b(4) by (simp add: mem_contents_def buf_contents_def split: option.split)
    have "mem_contents bio = buf_contents b" using False b(2,4) by (simp add: mem_contents_def buf_contents_def split: option.split)
    moreover have "buf_ok b'" "buf_contents b' = (if r then buf_contents b @ inp else buf_contents b)"
      using append_contents [OF assms(1) b(3) _ a] assms(3) by auto
    ultimately show ?thesis using False b a c by (cases r) (auto simp: BIO_write_def mem_write_def mem_ok_def)
  qed
qed

text \<open>The contract of a byte queue with several ways to receive.\<close>

locale byte_queue =
  fixes ok :: "'s \<Rightarrow> bool" and contents :: "'s \<Rightarrow> 'x list"
    and send :: "'s \<Rightarrow> 'x list \<Rightarrow> (int \<times> 's) option" and recv :: "'s \<Rightarrow> 'op \<Rightarrow> ('x list \<times> 's) option"
    and sendable :: "'x list \<Rightarrow> bool"
  assumes send_law: "ok s \<Longrightarrow> sendable xs \<Longrightarrow>
      \<exists>r s'. send s xs = Some (r, s') \<and> ok s' \<and> contents s' = contents s @ take (nat r) xs"
    and recv_law: "ok s \<Longrightarrow> \<exists>out s'. recv s op = Some (out, s') \<and> ok s' \<and> contents s = out @ contents s'"

text \<open>A program that uses the queue: what the sends accepted and the receives returned.\<close>

fun run_queue ::
  "('s \<Rightarrow> 'x list \<Rightarrow> (int \<times> 's) option) \<Rightarrow> ('s \<Rightarrow> 'op \<Rightarrow> ('x list \<times> 's) option) \<Rightarrow> 's \<Rightarrow> ('x list + 'op) list \<Rightarrow>
   ('x list \<times> 'x list \<times> 's) option" where
  "run_queue send recv s [] = Some ([], [], s)"
| "run_queue send recv s (Inl xs # ops) =
     (case send s xs of
        None \<Rightarrow> None
      | Some (r, s) \<Rightarrow> map_option (\<lambda>(acc, rec, s). (take (nat r) xs @ acc, rec, s)) (run_queue send recv s ops))"
| "run_queue send recv s (Inr op # ops) =
     (case recv s op of
        None \<Rightarrow> None
      | Some (out, s) \<Rightarrow> map_option (\<lambda>(acc, rec, s). (acc, out @ rec, s)) (run_queue send recv s ops))"

context byte_queue
begin

lemma queue:
  assumes "ok s" "\<forall>xs. Inl xs \<in> set ops \<longrightarrow> sendable xs"
  shows "\<exists>acc rec s'. run_queue send recv s ops = Some (acc, rec, s') \<and> ok s' \<and> contents s @ acc = rec @ contents s'"
  using assms
proof (induction ops arbitrary: s)
  case (Cons op ops)
  show ?case
  proof (cases op)
    case (Inl xs)
    obtain r s1 where s1: "send s xs = Some (r, s1)" "ok s1" "contents s1 = contents s @ take (nat r) xs"
      using send_law [OF Cons.prems(1), of xs] Cons.prems(2) Inl by auto
    then show ?thesis using Cons.IH [OF s1(2)] Cons.prems(2) Inl by fastforce
  next
    case (Inr x)
    obtain out s1 where s1: "recv s x = Some (out, s1)" "ok s1" "contents s = out @ contents s1"
      using recv_law [OF Cons.prems(1)] by blast
    then show ?thesis using Cons.IH [OF s1(2)] Cons.prems(2) Inr by fastforce
  qed
qed simp

end

text \<open>The two ways of receiving from a BIO.  The result of \<open>BIO_gets\<close> is without its NUL.\<close>

datatype mem_recv = Read nat | Gets nat

fun bio_recv :: "mem_bio \<Rightarrow> mem_recv \<Rightarrow> (byte list \<times> mem_bio) option" where
  "bio_recv bio (Read n) = map_option (\<lambda>(_, out, bio). (out, bio)) (BIO_read bio (int n))"
| "bio_recv bio (Gets n) = map_option (\<lambda>(_, out, bio). (butlast out, bio)) (BIO_gets bio (int n))"

interpretation mem: byte_queue "\<lambda>bio. malloc_ok m \<and> mem_ok bio" mem_contents "BIO_write m" bio_recv "\<lambda>xs. length xs \<le> INT_MAX" for m
proof
  fix bio :: mem_bio and xs :: "byte list" and op
  assume ok: "malloc_ok m \<and> mem_ok bio"
  show "length xs \<le> INT_MAX \<Longrightarrow> \<exists>r bio'. BIO_write m bio xs = Some (r, bio') \<and> (malloc_ok m \<and> mem_ok bio') \<and>
      mem_contents bio' = mem_contents bio @ take (nat r) xs"
    using BIO_write_spec [of m bio xs] ok by blast
  show "\<exists>out bio'. bio_recv bio op = Some (out, bio') \<and> (malloc_ok m \<and> mem_ok bio') \<and> mem_contents bio = out @ mem_contents bio'"
  proof (cases op)
    case (Read n)
    then show ?thesis using BIO_read_spec [of bio n] ok by auto
  next
    case (Gets n)
    have "\<exists>r out bio'. BIO_gets bio (int n) = Some (r, out, bio') \<and> mem_ok bio' \<and> mem_contents bio = butlast out @ mem_contents bio'"
    proof (cases "n = 0")
      case True
      then show ?thesis using ok by (simp add: BIO_gets_def mem_ok_def)
    next
      case False
      then show ?thesis using BIO_gets_spec [of bio n] ok by auto
    qed
    then show ?thesis using Gets ok by auto
  qed
qed

lemma new_mem: "BIO_new_mem m = Some bio \<Longrightarrow> mb_init bio \<and> mb_ptr bio = Some \<lparr>bm_length = 0, bm_data = None, bm_max = 0\<rparr> \<and> \<not> mb_rdonly bio \<and> mb_off bio = 0"
  by (auto simp: BIO_new_mem_def mem_new_def BUF_MEM_new_def split: option.splits prod.splits bool.splits)

lemma new_mem_ok: "BIO_new_mem m = Some bio \<Longrightarrow> mem_ok bio \<and> mem_contents bio = []"
  using new_mem [of m bio] by (simp add: mem_ok_def mem_contents_def buf_ok_def)

lemma new_mem_buf_ok:
  assumes "BIO_new_mem_buf m (Some buf) (int (length buf)) = Some (Some bio)" "length buf \<le> SIZE_MAX"
  shows "mem_ok bio \<and> mem_contents bio = buf \<and> mb_rdonly bio"
proof -
  obtain ret where "BIO_new_mem m = Some ret" using assms(1) by (auto simp: BIO_new_mem_buf_def split: option.splits)
  with new_mem [OF this] assms show ?thesis by (auto simp: BIO_new_mem_buf_def mem_ok_def mem_contents_def buf_ok_def)
qed

text \<open>C18.  A memory BIO is a queue of bytes.  Whatever the sequence of writes, reads and line reads,
  every call returns, and the bytes the writes accepted are those the reads returned, in order,
  followed by those that are still there.\<close>

theorem mem_bio_is_queue:
  assumes "malloc_ok m" "BIO_new_mem m = Some bio" "\<forall>xs. Inl xs \<in> set ops \<longrightarrow> length xs \<le> INT_MAX"
  shows "\<exists>acc rec bio'. run_queue (BIO_write m) bio_recv bio ops = Some (acc, rec, bio') \<and>
    acc = rec @ mem_contents bio'"
  using mem.queue [of m bio ops] assms(1,3) new_mem_ok [OF assms(2)] by auto

theorem mem_bio_is_queue_witness:
  "\<exists>acc rec bio'. run_queue (BIO_write (\<lambda>n. if n \<le> SIZE_MAX then Some (replicate n 0) else None)) bio_recv
       (the (BIO_new_mem (\<lambda>n. if n \<le> SIZE_MAX then Some (replicate n 0) else None))) [Inl [1, 10, 2], Inr (Gets 5), Inr (Read 1)] =
     Some (acc, rec, bio') \<and> acc = rec @ mem_contents bio'"
proof (rule mem_bio_is_queue)
  let ?m = "\<lambda>n. if n \<le> SIZE_MAX then Some (replicate n 0) else None"
  show "malloc_ok ?m" by (simp add: malloc_ok_def)
  have "BIO_new_mem ?m \<noteq> None" by code_simp
  then show "BIO_new_mem ?m = Some (the (BIO_new_mem ?m))" by simp
qed simp

end
