(* ===== verification/Conf_Load.thy ===== *)
theory Conf_Load
  imports Conf Bio_Mem "HOL-Library.Sublist"
begin

text \<open>
  The parser of configuration files, \<open>crypto/conf/conf.c\<close>.  A pointer into a C string is the rest
  of the string from there, so that the NUL is the end of the list, and writing a NUL through
  a later pointer \<open>end\<close> leaves \<open>take (length start - length end) start\<close> at \<open>start\<close>.  The input is a memory
  BIO.  \<open>None\<close> is a computation that leaves its buffers, dereferences a null pointer or uses a freed
  section, or a loop that does not end.
\<close>

section \<open>The scanner\<close>

definition is_comment :: "byte \<Rightarrow> bool" where
  "is_comment c \<longleftrightarrow> c = 0x23"

definition is_quote :: "byte \<Rightarrow> bool" where
  "is_quote c \<longleftrightarrow> c = 0x22 \<or> c = 0x27 \<or> c = 0x60"

definition is_esc :: "byte \<Rightarrow> bool" where
  "is_esc c \<longleftrightarrow> c = 0x5c"

definition is_conf_ws :: "byte \<Rightarrow> bool" where
  "is_conf_ws c \<longleftrightarrow> c = 0x20 \<or> c = 0x09 \<or> c = 0x0d \<or> c = 0x0a"

definition is_name_char :: "byte \<Rightarrow> bool" where
  "is_name_char c \<longleftrightarrow>
     OPENSSL_isalnum c \<or> c = 0x5f \<or> c = 0x21 \<or> c = 0x2e \<or> c = 0x25 \<or>
     c = 0x26 \<or> c = 0x2a \<or> c = 0x2b \<or> c = 0x2c \<or> c = 0x2f \<or> c = 0x3b \<or>
     c = 0x3f \<or> c = 0x40 \<or> c = 0x5e \<or> c = 0x7e \<or> c = 0x7c \<or> c = 0x2d"

text \<open>The copy inside quotes: the bytes and the rest after the closing quote.\<close>

fun str_copy_quoted :: "byte \<Rightarrow> cstring \<Rightarrow> cstring \<times> cstring" where
  "str_copy_quoted q [] = ([], [])"
| "str_copy_quoted q (c # from) =
     (if c = q then ([], from)
      else if is_esc c then
        (case from of
           [] \<Rightarrow> ([], [])
         | d # from \<Rightarrow> (case str_copy_quoted q from of (out, rest) \<Rightarrow> (d # out, rest)))
      else (case str_copy_quoted q from of (out, rest) \<Rightarrow> (c # out, rest)))"

lemma str_copy_quoted_length: "length (fst (str_copy_quoted q s)) + length (snd (str_copy_quoted q s)) \<le> length s"
proof (induction s rule: measure_induct_rule [of length])
  case (less s)
  show ?case
  proof (cases s)
    case (Cons c t)
    then show ?thesis using less [of t] less [of "tl t"] by (cases t) (auto split: prod.splits)
  qed simp
qed

text \<open>The bytes the loop copies, or \<open>None\<close> for a dollar sign.\<close>

function str_copy_loop :: "cstring \<Rightarrow> cstring option" where
  "str_copy_loop from =
     (case from of
        [] \<Rightarrow> Some []
      | c # from \<Rightarrow>
          if is_quote c then
            (case str_copy_quoted c from of (out, from) \<Rightarrow> map_option (\<lambda>s. out @ s) (str_copy_loop from))
          else if is_esc c then
            (case from of
               [] \<Rightarrow> Some []
             | v # from \<Rightarrow>
                 let v = (if v = 0x72 then 0x0d else if v = 0x6e then 0x0a else if v = 0x62 then 0x08
                          else if v = 0x74 then 0x09 else v)
                 in map_option (\<lambda>s. v # s) (str_copy_loop from))
          else if c = 0x24 then None
          else map_option (\<lambda>s. c # s) (str_copy_loop from))"
  by pat_completeness auto
termination
proof (relation "measure length", goal_cases)
  case (2 s c t out rest)
  then show ?case using str_copy_quoted_length [of c t] by (cases "str_copy_quoted c t") auto
qed auto

declare str_copy_loop.simps [simp del]

text \<open>The inner option is the result: the new string, or a failure.\<close>

definition str_copy :: "malloc \<Rightarrow> cstring \<Rightarrow> cstring option option" where
  "str_copy m from =
     (case BUF_MEM_new m of
        None \<Rightarrow> Some None
      | Some buf \<Rightarrow>
          (case BUF_MEM_grow m buf (length from + 1) of
             (n, buf) \<Rightarrow>
               if n = 0 then Some None
               else
                 (case str_copy_loop from of
                    None \<Rightarrow> Some None
                  | Some out \<Rightarrow> if length out + 1 > bm_length buf then None else Some (Some out))))"

fun eat_ws :: "cstring \<Rightarrow> cstring" where
  "eat_ws [] = []"
| "eat_ws (c # p) = (if is_conf_ws c then eat_ws p else c # p)"

definition scan_esc :: "cstring \<Rightarrow> cstring" where
  "scan_esc p = (if length p = 1 then drop 1 p else drop 2 p)"

function eat_name :: "cstring \<Rightarrow> cstring" where
  "eat_name p =
     (case p of
        [] \<Rightarrow> p
      | c # rest \<Rightarrow> if is_esc c then eat_name (scan_esc p) else if \<not> is_name_char c then p else eat_name rest)"
  by pat_completeness auto
termination
  by (relation "measure length") (auto simp: scan_esc_def)

declare eat_name.simps [simp del]

fun scan_quote_loop :: "byte \<Rightarrow> cstring \<Rightarrow> cstring" where
  "scan_quote_loop q [] = []"
| "scan_quote_loop q (c # p) =
     (if c = q then p
      else if is_esc c then (case p of [] \<Rightarrow> [] | _ # p \<Rightarrow> scan_quote_loop q p)
      else scan_quote_loop q p)"

definition scan_quote :: "cstring \<Rightarrow> cstring" where
  "scan_quote p = scan_quote_loop (hd p) (tl p)"

lemma scan_quote_length: "length (scan_quote_loop q p) \<le> length p"
proof (induction p rule: measure_induct_rule [of length])
  case (less p)
  show ?case
  proof (cases p)
    case (Cons c t)
    then show ?thesis using less [of t] less [of "tl t"] by (cases t) auto
  qed simp
qed

text \<open>What is left of the string when the comment is cut off.\<close>

function clear_comments_loop :: "cstring \<Rightarrow> cstring" where
  "clear_comments_loop p =
     (case p of
        [] \<Rightarrow> []
      | c # rest \<Rightarrow>
          if is_comment c then []
          else if is_quote c then
            take (length p - length (scan_quote p)) p @ clear_comments_loop (scan_quote p)
          else if is_esc c then
            take (length p - length (scan_esc p)) p @ clear_comments_loop (scan_esc p)
          else c # clear_comments_loop rest)"
  by pat_completeness auto
termination
proof (relation "measure length", goal_cases)
  case (2 p c rest)
  then show ?case using scan_quote_length [of c rest] by (simp add: scan_quote_def)
qed (auto simp: scan_esc_def)

declare clear_comments_loop.simps [simp del]

definition clear_comments :: "cstring \<Rightarrow> cstring" where
  "clear_comments p = take (length p - length (eat_ws p)) p @ clear_comments_loop (eat_ws p)"

section \<open>A line\<close>

lemma eat_ws_suffix: "suffix (eat_ws p) p"
  by (induction p) (auto intro: suffix_ConsI)

lemma scan_esc_suffix: "suffix (scan_esc p) p"
  by (simp add: scan_esc_def suffix_drop)

lemma eat_name_steps:
  "eat_name [] = []" "is_esc c \<Longrightarrow> eat_name (c # p) = eat_name (scan_esc (c # p))"
  "\<not> is_esc c \<Longrightarrow> is_name_char c \<Longrightarrow> eat_name (c # p) = eat_name p" "\<not> is_esc c \<Longrightarrow> \<not> is_name_char c \<Longrightarrow> eat_name (c # p) = c # p"
  by (subst eat_name.simps, simp)+

lemma eat_name_suffix: "suffix (eat_name p) p"
proof (induction p rule: eat_name.induct)
  case (1 p)
  show ?case
  proof (cases p)
    case (Cons c rest)
    then show ?thesis using 1 [OF Cons] suffix_order.trans [OF _ scan_esc_suffix [of p]]
      by (cases "is_esc c"; cases "is_name_char c") (auto simp: eat_name_steps intro: suffix_ConsI)
  qed (simp add: eat_name_steps)
qed

lemmas eat_suffix = suffix_order.trans [OF eat_ws_suffix eat_name_suffix]

text \<open>The end of the name of a section: the loop around the label \<open>again\<close>.\<close>

function section_name_end :: "cstring \<Rightarrow> cstring option" where
  "section_name_end ss =
     (let e = eat_name ss; p = eat_ws e
      in if p = [] \<or> hd p \<noteq> 0x5d then (if p \<noteq> [] \<and> ss \<noteq> p then section_name_end p else None)
         else Some e)"
  by pat_completeness auto
termination
proof (relation "measure length", goal_cases)
  case (2 ss e p)
  then obtain n where n: "ss = n @ p" using eat_suffix [of ss] by (auto simp: suffix_def)
  then have "n \<noteq> []" using 2 by auto
  then show ?case using arg_cong [OF n, of length] by simp
qed simp

declare section_name_end.simps [simp del]

text \<open>The length of a value without the white space at its end.  When the value is empty, the code
  runs back over the white space to the equal sign and writes the NUL there.\<close>

fun value_length :: "cstring \<Rightarrow> nat \<Rightarrow> nat" where
  "value_length start 0 = 0"
| "value_length start (Suc p) = (if p \<noteq> 0 \<and> is_conf_ws (start ! p) then value_length start p else Suc p)"

text \<open>What a line is: the raw texts of a section name, or of the section, name and value.\<close>

datatype conf_line = Blank | Section_line cstring | Value_line "cstring option" cstring cstring | Bad_line

definition conf_line :: "cstring \<Rightarrow> conf_line" where
  "conf_line buf =
     (let s = eat_ws (clear_comments buf)
      in if s = [] then Blank
         else if hd s = 0x5b then
           let start = eat_ws (tl s)
           in (case section_name_end start of
                 None \<Rightarrow> Bad_line
               | Some e \<Rightarrow> Section_line (take (length start - length e) start))
         else
           let e = eat_name s;
               (psection, pname, e) =
                 (if length e \<ge> 2 \<and> e ! 0 = 0x3a \<and> e ! 1 = 0x3a
                  then (Some (take (length s - length e) s), drop 2 e, eat_name (drop 2 e))
                  else (None, s, e));
               p = eat_ws e
           in if p = [] \<or> hd p \<noteq> 0x3d then Bad_line
              else
                let start = eat_ws (tl p)
                in Value_line psection (take (length pname - length e) pname) (take (value_length start (length start)) start))"

section \<open>Loading\<close>

record load_state =
  ls_conf :: conf
  ls_in :: mem_bio
  ls_buff :: buf_mem
  ls_bufnum :: nat
  ls_again :: bool
  ls_eline :: nat
  ls_section :: cstring
  ls_sv :: conf_section

text \<open>An iteration goes on, reaches the end of the input, or jumps to the label \<open>err\<close>.\<close>

datatype load_result = Load_more load_state | Load_done load_state | Load_err load_state

definition load_section :: "malloc \<Rightarrow> load_state \<Rightarrow> cstring \<Rightarrow> load_result option" where
  "load_section m st start =
     (case str_copy m start of
        None \<Rightarrow> None
      | Some None \<Rightarrow> Some (Load_err st)
      | Some (Some section) \<Rightarrow>
          (case (case get_section (ls_conf st) section of
                   Some sv \<Rightarrow> (Some sv, ls_conf st)
                 | None \<Rightarrow> NCONF_new_section m (ls_conf st) section) of
             (None, conf) \<Rightarrow> Some (Load_err (st\<lparr>ls_conf := conf, ls_section := section\<rparr>))
           | (Some sv, conf) \<Rightarrow> Some (Load_more (st\<lparr>ls_conf := conf, ls_section := section, ls_sv := sv\<rparr>))))"

definition load_value ::
  "malloc \<Rightarrow> (nat \<Rightarrow> conf_value option) \<Rightarrow> load_state \<Rightarrow> cstring option \<Rightarrow> cstring \<Rightarrow> cstring \<Rightarrow> load_result option" where
  "load_value m uninit st psection pname start =
     (case CONF_VALUE_new m (ls_conf st) of
        None \<Rightarrow> Some (Load_err st)
      | Some (v, conf) \<Rightarrow>
          let psection = (case psection of None \<Rightarrow> ls_section st | Some s \<Rightarrow> s); st = st\<lparr>ls_conf := conf\<rparr>
          in (case strdup m pname of
                None \<Rightarrow> Some (Load_err st)
              | Some name \<Rightarrow>
                  (case str_copy m start of
                     None \<Rightarrow> None
                   | Some None \<Rightarrow> Some (Load_err st)
                   | Some (Some val) \<Rightarrow>
                       (case (if strcmp psection (ls_section st) \<noteq> 0
                              then (case get_section conf psection of
                                      Some tv \<Rightarrow> (Some tv, conf)
                                    | None \<Rightarrow> NCONF_new_section m conf psection)
                              else (Some (ls_sv st), conf)) of
                          (None, conf) \<Rightarrow> Some (Load_err (st\<lparr>ls_conf := conf\<rparr>))
                        | (Some tv, conf) \<Rightarrow>
                            (case add_string m uninit conf tv (v\<lparr>cv_name := name, cv_value := val\<rparr>) of
                               None \<Rightarrow> None
                             | Some (False, conf) \<Rightarrow> Some (Load_err (st\<lparr>ls_conf := conf\<rparr>))
                             | Some (True, conf) \<Rightarrow> Some (Load_more (st\<lparr>ls_conf := conf\<rparr>)))))))"

definition load_line :: "malloc \<Rightarrow> (nat \<Rightarrow> conf_value option) \<Rightarrow> load_state \<Rightarrow> cstring \<Rightarrow> load_result option" where
  "load_line m uninit st buf =
     (case conf_line buf of
        Blank \<Rightarrow> Some (Load_more st)
      | Bad_line \<Rightarrow> Some (Load_err st)
      | Section_line start \<Rightarrow> load_section m st start
      | Value_line psection pname start \<Rightarrow> load_value m uninit st psection pname start)"

text \<open>The line feeds and carriage returns at the end of the first \<open>i\<close> bytes.\<close>

fun strip_eol :: "byte list \<Rightarrow> nat \<Rightarrow> nat" where
  "strip_eol p 0 = 0"
| "strip_eol p (Suc i) = (if p ! i \<noteq> 0x0d \<and> p ! i \<noteq> 0x0a then Suc i else strip_eol p i)"

abbreviation (input) CONFBUFSIZE :: nat where "CONFBUFSIZE \<equiv> 512"

text \<open>An iteration after the input was stored in the buffer: \<open>ii\<close> is its length.  The bytes the parser
  overwrites with NULs are not written back, since the next line is stored from the start of the
  buffer.\<close>

definition load_stored ::
  "malloc \<Rightarrow> (nat \<Rightarrow> conf_value option) \<Rightarrow> load_state \<Rightarrow> buf_mem \<Rightarrow> byte list \<Rightarrow> mem_bio \<Rightarrow> nat \<Rightarrow> load_result option" where
  "load_stored m uninit st buff data inp ii =
     (let i = strip_eol (drop (ls_bufnum st) data) ii;
          again = (ii \<noteq> 0 \<and> i = ii);
          data = (if again then data else poke data (ls_bufnum st + i) [0]);
          eline = (if again then ls_eline st else ls_eline st + 1);
          bufnum = ls_bufnum st + i;
          continued = (bufnum \<ge> 1 \<and> is_esc (data ! (bufnum - 1)) \<and> (bufnum \<le> 1 \<or> \<not> is_esc (data ! (bufnum - 2))));
          bufnum = (if continued then bufnum - 1 else bufnum);
          again = (again \<or> continued);
          st = st\<lparr>ls_buff := buff\<lparr>bm_data := Some data\<rparr>, ls_in := inp, ls_again := again,
                  ls_eline := eline, ls_bufnum := (if again then bufnum else 0)\<rparr>
      in if again then Some (Load_more st) else load_line m uninit st (takeWhile (\<lambda>c. c \<noteq> 0) data))"

definition load_iter :: "malloc \<Rightarrow> (nat \<Rightarrow> conf_value option) \<Rightarrow> load_state \<Rightarrow> load_result option" where
  "load_iter m uninit st =
     (case BUF_MEM_grow m (ls_buff st) (ls_bufnum st + CONFBUFSIZE) of
        (n, buff) \<Rightarrow>
          if n = 0 then Some (Load_err (st\<lparr>ls_buff := buff\<rparr>))
          else
            (case bm_data buff of
               None \<Rightarrow> None
             | Some data \<Rightarrow>
                 if length data < ls_bufnum st + CONFBUFSIZE then None
                 else
                   (case BIO_gets (ls_in st) (int CONFBUFSIZE - 1) of
                      None \<Rightarrow> None
                    | Some (_, out, inp) \<Rightarrow>
                        if length out \<ge> CONFBUFSIZE then None
                        else
                          let data = poke (poke (poke data (ls_bufnum st) [0]) (ls_bufnum st) out) (ls_bufnum st + (CONFBUFSIZE - 1)) [0]
                          in (case strlen (drop (ls_bufnum st) data) of
                                None \<Rightarrow> None
                              | Some ii \<Rightarrow>
                                  if ii = 0 \<and> \<not> ls_again st then Some (Load_done (st\<lparr>ls_buff := buff, ls_in := inp\<rparr>))
                                  else load_stored m uninit st buff data inp ii))))"

partial_function (option) load_loop ::
  "malloc \<Rightarrow> (nat \<Rightarrow> conf_value option) \<Rightarrow> load_state \<Rightarrow> (bool \<times> load_state) option" where
  "load_loop m uninit st =
     (case load_iter m uninit st of
        None \<Rightarrow> None
      | Some (Load_err st) \<Rightarrow> Some (False, st)
      | Some (Load_done st) \<Rightarrow> Some (True, st)
      | Some (Load_more st) \<Rightarrow> load_loop m uninit st)"

text \<open>The return value, the configuration, the BIO, and the line of an error.\<close>

definition NCONF_load_bio ::
  "malloc \<Rightarrow> (nat \<Rightarrow> conf_value option) \<Rightarrow> conf \<Rightarrow> mem_bio \<Rightarrow> (bool \<times> conf \<times> mem_bio \<times> nat option) option" where
  "NCONF_load_bio m uninit conf inp =
     (case BUF_MEM_new m of
        None \<Rightarrow> Some (False, conf, inp, Some 0)
      | Some buff \<Rightarrow>
          (case strdup m kDefaultSectionName of
             None \<Rightarrow> Some (False, conf, inp, Some 0)
           | Some section \<Rightarrow>
               (case NCONF_new_section m conf section of
                  (None, conf) \<Rightarrow> Some (False, conf, inp, Some 0)
                | (Some sv, conf) \<Rightarrow>
                    (case load_loop m uninit
                            \<lparr>ls_conf = conf, ls_in = inp, ls_buff = buff, ls_bufnum = 0, ls_again = False, ls_eline = 0,
                             ls_section = section, ls_sv = sv\<rparr> of
                       None \<Rightarrow> None
                     | Some (True, st) \<Rightarrow> Some (True, ls_conf st, ls_in st, None)
                     | Some (False, st) \<Rightarrow> Some (False, ls_conf st, ls_in st, Some (ls_eline st))))))"

section \<open>Lists\<close>

text \<open>\<open>CONF_parse_list\<close>.  The callback takes its state, and \<open>None\<close> or the element; it returns its result
  and its state.  The trailing white space is skipped backwards from the last character.\<close>

fun list_ws_end :: "cstring \<Rightarrow> nat \<Rightarrow> nat" where
  "list_ws_end s 0 = 0"
| "list_ws_end s (Suc i) = (if OPENSSL_isspace (s ! i) then list_ws_end s i else Suc i)"

function CONF_parse_list_loop ::
  "byte \<Rightarrow> bool \<Rightarrow> ('s \<Rightarrow> cstring option \<Rightarrow> int \<times> 's) \<Rightarrow> 's \<Rightarrow> cstring \<Rightarrow> int \<times> 's" where
  "CONF_parse_list_loop sep remove_whitespace list_cb s lstart =
     (let lstart = (if remove_whitespace then dropWhile OPENSSL_isspace lstart else lstart);
          p = OPENSSL_memchr lstart sep;
          (ret, s) =
            (if p = Some 0 \<or> lstart = [] then list_cb s None
             else
               let len = (case p of Some i \<Rightarrow> i | None \<Rightarrow> length lstart);
                   len = (if remove_whitespace then list_ws_end lstart len else len)
               in list_cb s (Some (take len lstart)))
      in if ret \<le> 0 then (ret, s)
         else (case p of None \<Rightarrow> (1, s) | Some i \<Rightarrow> CONF_parse_list_loop sep remove_whitespace list_cb s (drop (i + 1) lstart)))"
  by pat_completeness auto
termination
proof (relation "measure (\<lambda>(_, _, _, _, l). length l)", goal_cases)
  case (2 sep remove_whitespace list_cb s lstart l p x ret s' i)
  then have "i < length l" using OPENSSL_memchr_Some [of l sep i] by simp
  moreover have "length l \<le> length lstart" using 2(1) by (simp add: length_dropWhile_le)
  ultimately show ?case by simp
qed simp

declare CONF_parse_list_loop.simps [simp del]

text \<open>The separator is not NUL.\<close>

definition CONF_parse_list ::
  "cstring option \<Rightarrow> byte \<Rightarrow> bool \<Rightarrow> ('s \<Rightarrow> cstring option \<Rightarrow> int \<times> 's) \<Rightarrow> 's \<Rightarrow> int \<times> 's" where
  "CONF_parse_list list sep remove_whitespace list_cb s =
     (case list of None \<Rightarrow> (0, s) | Some list \<Rightarrow> CONF_parse_list_loop sep remove_whitespace list_cb s list)"

section \<open>Memory safety and termination\<close>

text \<open>Nothing the scanner does makes a NUL or more bytes than it read.\<close>

lemma str_copy_quoted_set: "set (fst (str_copy_quoted q s)) \<union> set (snd (str_copy_quoted q s)) \<subseteq> set s"
proof (induction s rule: measure_induct_rule [of length])
  case (less s)
  show ?case
  proof (cases s)
    case (Cons c t)
    then show ?thesis using less [of t] less [of "tl t"] by (cases t) (auto split: prod.splits if_splits)
  qed simp
qed

lemma str_copy_loop_steps:
  "str_copy_loop [] = Some []"
  "is_quote c \<Longrightarrow> str_copy_loop (c # s) = map_option (\<lambda>r. fst (str_copy_quoted c s) @ r) (str_copy_loop (snd (str_copy_quoted c s)))"
  "\<not> is_quote c \<Longrightarrow> is_esc c \<Longrightarrow> str_copy_loop [c] = Some []"
  "\<not> is_quote c \<Longrightarrow> is_esc c \<Longrightarrow> str_copy_loop (c # v # s) = map_option (\<lambda>r. (if v = 0x72 then 0x0d else if v = 0x6e then 0x0a
     else if v = 0x62 then 0x08 else if v = 0x74 then 0x09 else v) # r) (str_copy_loop s)"
  "\<not> is_quote c \<Longrightarrow> \<not> is_esc c \<Longrightarrow> str_copy_loop (c # s) = (if c = 0x24 then None else map_option (\<lambda>r. c # r) (str_copy_loop s))"
  by (subst str_copy_loop.simps, simp add: Let_def split: prod.split)+

lemma str_copy_loop_bound:
  "str_copy_loop s = Some out \<Longrightarrow> 0 \<notin> set s \<Longrightarrow> length out \<le> length s \<and> 0 \<notin> set out"
proof (induction s arbitrary: out rule: measure_induct_rule [of length])
  case (less s)
  show ?case
  proof (cases s)
    case Nil
    then show ?thesis using less.prems by (simp add: str_copy_loop_steps)
  next
    case (Cons c t)
    consider "is_quote c" | "\<not> is_quote c" "is_esc c" "t = []" | v t' where "\<not> is_quote c" "is_esc c" "t = v # t'"
      | "\<not> is_quote c" "\<not> is_esc c" by (cases t) auto
    then show ?thesis
    proof cases
      case 1
      obtain a b where q: "str_copy_quoted c t = (a, b)" by force
      note l = str_copy_quoted_length [of c t] and st = str_copy_quoted_set [of c t]
      obtain r where "str_copy_loop b = Some r" "out = a @ r" using less.prems(1) Cons 1 q by (auto simp: str_copy_loop_steps)
      moreover have "0 \<notin> set b" "length b < length s" using l st less.prems(2) Cons q by auto
      moreover have "0 \<notin> set a" using st less.prems(2) Cons q by auto
      ultimately show ?thesis using less.IH [of b r] l Cons q by auto
    next
      case 2
      then show ?thesis using less.prems Cons by (simp add: str_copy_loop_steps)
    next
      case 3
      define w where "w = (if v = 0x72 then 0x0d else if v = 0x6e then 0x0a else if v = 0x62 then 0x08 else if v = 0x74 then 0x09 else v)"
      obtain r where "str_copy_loop t' = Some r" "out = w # r"
        using less.prems(1) Cons 3 by (auto simp: str_copy_loop_steps w_def simp del: if_split)
      moreover have "w \<noteq> 0" using less.prems(2) Cons 3 by (simp add: w_def)
      ultimately show ?thesis using less.IH [of t' r] less.prems(2) Cons 3 by auto
    next
      case 4
      then obtain r where "str_copy_loop t = Some r" "out = c # r"
        using less.prems(1) Cons by (auto simp: str_copy_loop_steps split: if_splits)
      then show ?thesis using less.IH [of t r] less.prems(2) Cons by auto
    qed
  qed
qed

lemma BUF_MEM_grow_length: "BUF_MEM_grow m buf len = (n, buf') \<Longrightarrow> n \<noteq> 0 \<Longrightarrow> n = len \<and> bm_length buf' = len"
  by (auto simp: BUF_MEM_grow_def Let_def split: prod.splits bool.splits if_splits)

lemma str_copy_cases:
  assumes "0 \<notin> set s"
  shows "\<exists>res. str_copy m s = Some res \<and> (\<forall>out. res = Some out \<longrightarrow> str_copy_loop s = Some out \<and> 0 \<notin> set out)"
proof -
  have "length out + 1 \<le> bm_length buf'" if "BUF_MEM_grow m buf (length s + 1) = (n, buf')" "n \<noteq> 0" "str_copy_loop s = Some out" for buf n buf' out
    using BUF_MEM_grow_length [OF that(1,2)] str_copy_loop_bound [OF that(3) assms] by simp
  then show ?thesis using str_copy_loop_bound [OF _ assms] by (fastforce simp: str_copy_def split: option.splits prod.splits)
qed

lemma scan_quote_suffix: "suffix (scan_quote_loop q p) p"
proof (induction p rule: measure_induct_rule [of length])
  case (less p)
  show ?case
  proof (cases p)
    case (Cons c t)
    then show ?thesis using less [of t] less [of "tl t"] by (cases t) (auto intro: suffix_ConsI)
  qed simp
qed

lemma clear_comments_steps:
  "clear_comments_loop [] = []" "is_comment c \<Longrightarrow> clear_comments_loop (c # p) = []"
  "\<not> is_comment c \<Longrightarrow> is_quote c \<Longrightarrow> clear_comments_loop (c # p) =
     take (length (c # p) - length (scan_quote (c # p))) (c # p) @ clear_comments_loop (scan_quote (c # p))"
  "\<not> is_comment c \<Longrightarrow> \<not> is_quote c \<Longrightarrow> is_esc c \<Longrightarrow> clear_comments_loop (c # p) =
     take (length (c # p) - length (scan_esc (c # p))) (c # p) @ clear_comments_loop (scan_esc (c # p))"
  "\<not> is_comment c \<Longrightarrow> \<not> is_quote c \<Longrightarrow> \<not> is_esc c \<Longrightarrow> clear_comments_loop (c # p) = c # clear_comments_loop p"
  by (subst clear_comments_loop.simps, simp)+

lemma clear_comments_set: "set (clear_comments_loop p) \<subseteq> set p"
proof (induction p rule: clear_comments_loop.induct)
  case (1 p)
  show ?case
  proof (cases p)
    case (Cons c t)
    have sub: "set (scan_quote p) \<subseteq> set p" "set (scan_esc p) \<subseteq> set p" "set (take k p) \<subseteq> set p" for k
      using set_mono_suffix [OF scan_quote_suffix [of c t]] set_mono_suffix [OF scan_esc_suffix [of p]] Cons
      by (auto simp: scan_quote_def dest: in_set_takeD)
    consider "is_comment c" | "\<not> is_comment c" "is_quote c" | "\<not> is_comment c" "\<not> is_quote c" "is_esc c"
      | "\<not> is_comment c" "\<not> is_quote c" "\<not> is_esc c" by blast
    then show ?thesis
    proof cases
      case 2
      then show ?thesis using 1(1) [OF Cons] sub clear_comments_steps(3) [OF 2, of t] Cons by auto
    next
      case 3
      then show ?thesis using 1(2) [OF Cons] sub clear_comments_steps(4) [OF 3, of t] Cons by auto
    next
      case 4
      then show ?thesis using 1(3) [OF Cons] Cons by (auto simp: clear_comments_steps)
    qed (simp add: Cons clear_comments_steps)
  qed (simp add: clear_comments_steps)
qed

lemma eat_sets: "set (eat_ws p) \<subseteq> set p" "set (eat_name p) \<subseteq> set p" "set (clear_comments p) \<subseteq> set p"
  "set (tl p) \<subseteq> set p" "set (take k p) \<subseteq> set p" "set (drop k p) \<subseteq> set p"
  using set_mono_suffix [OF eat_ws_suffix [of p]] set_mono_suffix [OF eat_name_suffix [of p]] clear_comments_set [of "eat_ws p"]
  by (auto simp: clear_comments_def dest: in_set_takeD in_set_dropD, cases p) auto

lemma conf_line_set:
  "conf_line buf = Section_line s \<Longrightarrow> set s \<subseteq> set buf"
  "conf_line buf = Value_line ps nm v \<Longrightarrow> set nm \<subseteq> set buf \<and> set v \<subseteq> set buf \<and> (\<forall>n. ps = Some n \<longrightarrow> set n \<subseteq> set buf)"
proof -
  define t where "t = eat_ws (clear_comments buf)"
  have t: "set t \<subseteq> set buf" using eat_sets(1) [of "clear_comments buf"] eat_sets(3) [of buf] by (auto simp: t_def)
  show "set s \<subseteq> set buf" if h: "conf_line buf = Section_line s"
  proof -
    obtain k where "s = take k (eat_ws (tl t))"
      using h by (auto simp: conf_line_def Let_def t_def [symmetric] split: if_splits option.splits prod.splits)
    then show ?thesis using t eat_sets(1) [of "tl t"] eat_sets(4) [of t] eat_sets(5) [of k "eat_ws (tl t)"] by blast
  qed
  show "set nm \<subseteq> set buf \<and> set v \<subseteq> set buf \<and> (\<forall>n. ps = Some n \<longrightarrow> set n \<subseteq> set buf)" if h: "conf_line buf = Value_line ps nm v"
  proof -
    obtain k1 k2 k3 e where e: "ps = None \<and> nm = take k1 t \<and> e = eat_name t \<or>
        ps = Some (take k3 t) \<and> nm = take k1 (drop 2 (eat_name t)) \<and> e = eat_name (drop 2 (eat_name t))"
        "v = take k2 (eat_ws (tl (eat_ws e)))"
      using h by (auto simp: conf_line_def Let_def t_def [symmetric] split: if_splits option.splits prod.splits)
    have "set e \<subseteq> set t" using e(1) eat_sets(2) [of t] eat_sets(2) [of "drop 2 (eat_name t)"] eat_sets(6) [of 2 "eat_name t"] by auto
    moreover have "set v \<subseteq> set e"
      using e(2) eat_sets(5) [of k2 "eat_ws (tl (eat_ws e))"] eat_sets(1) [of "tl (eat_ws e)"] eat_sets(4) [of "eat_ws e"] eat_sets(1) [of e] by blast
    moreover have "set nm \<subseteq> set t" "\<forall>n. ps = Some n \<longrightarrow> set n \<subseteq> set t"
      using e(1) eat_sets(5) [of k1 t] eat_sets(5) [of k3 t] eat_sets(5) [of k1 "drop 2 (eat_name t)"]
        eat_sets(6) [of 2 "eat_name t"] eat_sets(2) [of t] by auto
    ultimately show ?thesis using t by blast
  qed
qed

text \<open>The effect of a line on the abstract configuration and the current section.\<close>

definition line_effect :: "conf_map \<times> cstring \<Rightarrow> conf_line \<Rightarrow> (conf_map \<times> cstring) option" where
  "line_effect c line =
     (case c of
        (A, sec) \<Rightarrow>
          (case line of
             Blank \<Rightarrow> Some (A, sec)
           | Bad_line \<Rightarrow> None
           | Section_line s \<Rightarrow>
               map_option (\<lambda>n. (if A n = None then A(n \<mapsto> []) else A, n)) (str_copy_loop s)
           | Value_line ps name raw \<Rightarrow>
               map_option (\<lambda>val. let n = (case ps of None \<Rightarrow> sec | Some n \<Rightarrow> n)
                                in (A(n \<mapsto> store_value name val (case A n of None \<Rightarrow> [] | Some es \<Rightarrow> es)), sec)) (str_copy_loop raw)))"

text \<open>A state of the loader and the abstract configuration it has built.\<close>

definition load_repr :: "load_state \<Rightarrow> conf_map \<times> cstring \<Rightarrow> bool" where
  "load_repr st c \<longleftrightarrow> conf_repr (ls_conf st) (fst c) \<and> ls_section st = snd c \<and> 0 \<notin> set (snd c) \<and>
     get_section (ls_conf st) (snd c) = Some (ls_sv st)"

definition same_input :: "load_state \<Rightarrow> load_state \<Rightarrow> bool" where
  "same_input a b \<longleftrightarrow> ls_in b = ls_in a \<and> ls_buff b = ls_buff a \<and> ls_bufnum b = ls_bufnum a \<and> ls_again b = ls_again a"

text \<open>What a line may do: it has its effect, or it fails and leaves a well-formed configuration.\<close>

definition line_result :: "load_state \<Rightarrow> (conf_map \<times> cstring) option \<Rightarrow> load_result \<Rightarrow> bool" where
  "line_result st c res =
     (case res of
        Load_more st' \<Rightarrow> (\<exists>c'. c = Some c' \<and> load_repr st' c') \<and> same_input st st'
      | Load_err st' \<Rightarrow> (\<exists>A. conf_repr (ls_conf st') A)
      | Load_done _ \<Rightarrow> False)"

lemma get_section_in_map: "conf_repr conf A \<Longrightarrow> (get_section conf n = None) = (A n = None)"
  using conf_reprD(3) [of conf A n] conf_reprD(4) [of conf A n] by (cases "A n") (auto simp: section_repr_def)

text \<open>Finding or making a section.\<close>

lemma find_section:
  assumes "conf_repr conf A" "0 \<notin> set n"
    and "(case get_section conf n of Some sv \<Rightarrow> (Some sv, conf) | None \<Rightarrow> NCONF_new_section m conf n) = (res, conf')"
  shows "case res of None \<Rightarrow> conf_repr conf' A
    | Some sv \<Rightarrow> conf_repr conf' (if A n = None then A(n \<mapsto> []) else A) \<and> get_section conf' n = Some sv"
    "value_at conf' = value_at conf" "cf_next conf \<le> cf_next conf'"
    "\<And>k s. get_section conf k = Some s \<Longrightarrow> get_section conf' k = Some s"
proof -
  have "(case res of None \<Rightarrow> conf_repr conf' A
      | Some sv \<Rightarrow> conf_repr conf' (if A n = None then A(n \<mapsto> []) else A) \<and> get_section conf' n = Some sv) \<and>
    value_at conf' = value_at conf \<and> cf_next conf \<le> cf_next conf' \<and> (\<forall>k s. get_section conf k = Some s \<longrightarrow> get_section conf' k = Some s)"
  proof (cases "get_section conf n")
    case None
    then have A: "A n = None" using get_section_in_map [OF assms(1)] by simp
    have new: "NCONF_new_section m conf n = (res, conf')" using assms(3) None by simp
    note N = new_section_repr [OF assms(1,2) disjI1 [OF A] new]
    have "get_section conf' k = Some s" if "get_section conf k = Some s" for k s
      using that None N(4) [of k] by (cases "k = n") auto
    then show ?thesis using N(1-3) A by (auto split: option.splits)
  next
    case (Some sv)
    then have "A n \<noteq> None" using get_section_in_map [OF assms(1), of n] by auto
    then show ?thesis using assms Some by (auto split: option.splits)
  qed
  then show "case res of None \<Rightarrow> conf_repr conf' A
    | Some sv \<Rightarrow> conf_repr conf' (if A n = None then A(n \<mapsto> []) else A) \<and> get_section conf' n = Some sv"
    "value_at conf' = value_at conf" "cf_next conf \<le> cf_next conf'"
    "\<And>k s. get_section conf k = Some s \<Longrightarrow> get_section conf' k = Some s" by blast+
qed

lemma load_section_result:
  assumes "load_repr st c" "0 \<notin> set s"
  shows "\<exists>res. load_section m st s = Some res \<and> line_result st (line_effect c (Section_line s)) res"
proof -
  obtain A sec where c: "c = (A, sec)" by force
  have r: "conf_repr (ls_conf st) A" using assms(1) by (simp add: load_repr_def c)
  obtain cp where cp: "str_copy m s = Some cp" "\<And>out. cp = Some out \<Longrightarrow> str_copy_loop s = Some out \<and> 0 \<notin> set out"
    using str_copy_cases [OF assms(2)] by blast
  show ?thesis
  proof (cases cp)
    case None
    then show ?thesis using cp(1) r by (auto simp: load_section_def line_result_def)
  next
    case (Some n)
    obtain res conf' where f: "(case get_section (ls_conf st) n of Some sv \<Rightarrow> (Some sv, ls_conf st) | None \<Rightarrow> NCONF_new_section m (ls_conf st) n) = (res, conf')"
      by force
    note n = cp(2) [OF Some] and N = find_section [OF r _ f]
    show ?thesis
    proof (cases res)
      case None
      then show ?thesis using N(1) n cp(1) Some f by (auto simp: load_section_def line_result_def)
    next
      case (Some sv)
      then show ?thesis using N(1) n cp(1) \<open>cp = Some n\<close> f
        by (auto simp: load_section_def line_result_def line_effect_def c load_repr_def same_input_def)
    qed
  qed
qed

lemma load_value_result:
  assumes "load_repr st c" "0 \<notin> set name" "0 \<notin> set raw" "\<forall>n. ps = Some n \<longrightarrow> 0 \<notin> set n"
  shows "\<exists>res. load_value m uninit st ps name raw = Some res \<and> line_result st (line_effect c (Value_line ps name raw)) res"
proof -
  obtain A sec where c: "c = (A, sec)" by force
  have st: "conf_repr (ls_conf st) A" "ls_section st = sec" "0 \<notin> set sec" "get_section (ls_conf st) sec = Some (ls_sv st)"
    using assms(1) by (simp_all add: load_repr_def c)
  define n where "n = (case ps of None \<Rightarrow> sec | Some n \<Rightarrow> n)"
  have n: "0 \<notin> set n" using st(3) assms(4) by (auto simp: n_def split: option.splits)
  obtain cp where cp: "str_copy m raw = Some cp" "\<And>out. cp = Some out \<Longrightarrow> str_copy_loop raw = Some out"
    using str_copy_cases [OF assms(3)] by blast
  show ?thesis
  proof (cases "CONF_VALUE_new m (ls_conf st)")
    case None
    then show ?thesis using st(1) by (auto simp: load_value_def line_result_def)
  next
    case (Some vc)
    obtain v conf where v: "CONF_VALUE_new m (ls_conf st) = Some (v, conf)" using Some by (cases vc) auto
    note V = new_value_unused [OF st(1) v]
    obtain tv conf1 where f: "(if strcmp n sec \<noteq> 0 then (case get_section conf n of Some tv \<Rightarrow> (Some tv, conf) | None \<Rightarrow> NCONF_new_section m conf n)
        else (Some (ls_sv (st\<lparr>ls_conf := conf\<rparr>)), conf)) = (tv, conf1)" by force
    have f': "(case get_section conf n of Some tv \<Rightarrow> (Some tv, conf) | None \<Rightarrow> NCONF_new_section m conf n) = (tv, conf1)"
      using f st(4) V(4) by (cases "n = sec") (auto simp: lex_compare_eq_0 split: option.splits)
    note N = find_section [OF V(1) n f']
    have eq: "load_value m uninit st ps name raw =
        (case strdup m name of
           None \<Rightarrow> Some (Load_err (st\<lparr>ls_conf := conf\<rparr>))
         | Some nm \<Rightarrow>
             (case cp of
                None \<Rightarrow> Some (Load_err (st\<lparr>ls_conf := conf\<rparr>))
              | Some val \<Rightarrow>
                  (case tv of
                     None \<Rightarrow> Some (Load_err (st\<lparr>ls_conf := conf1\<rparr>))
                   | Some t \<Rightarrow>
                       (case add_string m uninit conf1 t (v\<lparr>cv_name := nm, cv_value := val\<rparr>) of
                          None \<Rightarrow> None
                        | Some (r, conf2) \<Rightarrow>
                            Some (if r then Load_more (st\<lparr>ls_conf := conf2\<rparr>) else Load_err (st\<lparr>ls_conf := conf2\<rparr>))))))"
    proof -
      have p: "(case ps of None \<Rightarrow> ls_section st | Some s \<Rightarrow> s) = n" by (simp add: n_def st(2) split: option.split)
      show ?thesis
        by (cases "strdup m name"; cases cp; cases tv)
          (simp_all add: load_value_def v p cp(1) Let_def st(2) f split del: if_split split: option.split prod.split bool.split)
    qed
    show ?thesis
    proof (cases "strdup m name = None \<or> cp = None \<or> tv = None")
      case True
      then show ?thesis using V(1) N(1) by (auto simp: eq line_result_def split: option.splits)
    next
      case False
      then obtain val t where *: "cp = Some val" "tv = Some t" "strdup m name = Some name"
        using strdup_eq [OF assms(2), of m] by (auto split: option.splits)
      let ?A = "if A n = None then A(n \<mapsto> []) else A" and ?es = "case A n of None \<Rightarrow> [] | Some es \<Rightarrow> es"
      have R: "conf_repr conf1 ?A" "get_section conf1 n = Some t" "?A n = Some ?es" using N(1) *(2) by (auto split: option.splits)
      have fresh: "unused conf1 (cv_at (v\<lparr>cv_name := name, cv_value := val\<rparr>))" "cv_at (v\<lparr>cv_name := name, cv_value := val\<rparr>) < cf_next conf1"
        using V(2,3) N(2,3) by (auto simp: unused_def)
      have vv: "cv_name (v\<lparr>cv_name := name, cv_value := val\<rparr>) = name" "cv_value (v\<lparr>cv_name := name, cv_value := val\<rparr>) = val" by simp_all
      obtain r conf2 where add: "add_string m uninit conf1 t (v\<lparr>cv_name := name, cv_value := val\<rparr>) = Some (r, conf2)"
          "cf_sections conf2 = cf_sections conf1" "conf_repr conf2 (if r then ?A(n \<mapsto> store_value name val ?es) else ?A)"
        using add_string_repr [OF R fresh, of m uninit, unfolded vv] by blast
      have "get_section conf2 sec = Some (ls_sv st)" using N(4) [of sec] V(4) st(4) add(2) by (simp add: get_section_def)
      moreover have "?A(n \<mapsto> store_value name val ?es) = A(n \<mapsto> store_value name val ?es)" by auto
      ultimately show ?thesis using add(1,3) st(2,3) cp(2) [OF *(1)]
        by (auto simp: eq * line_result_def line_effect_def c load_repr_def same_input_def Let_def simp flip: n_def)
    qed
  qed
qed

lemma load_line_result:
  assumes "load_repr st c" "0 \<notin> set buf"
  shows "\<exists>res. load_line m uninit st buf = Some res \<and> line_result st (line_effect c (conf_line buf)) res"
proof (cases "conf_line buf")
  case Blank
  then show ?thesis using assms(1) by (cases c) (simp add: load_line_def line_result_def line_effect_def same_input_def)
next
  case (Section_line s)
  then show ?thesis using load_section_result [OF assms(1), of s] conf_line_set(1) [of buf s] assms(2) by (auto simp: load_line_def)
next
  case (Value_line ps name raw)
  have "0 \<notin> set name" "0 \<notin> set raw" "\<forall>n. ps = Some n \<longrightarrow> 0 \<notin> set n" using conf_line_set(2) [OF Value_line] assms(2) by blast+
  from load_value_result [OF assms(1) this, of m uninit] show ?thesis using Value_line by (simp add: load_line_def)
next
  case Bad_line
  then show ?thesis using assms(1) by (auto simp: load_line_def line_result_def load_repr_def)
qed

text \<open>The invariant of the loop.\<close>

definition load_inv :: "load_state \<Rightarrow> bool" where
  "load_inv st \<longleftrightarrow> mem_ok (ls_in st) \<and> buf_ok (ls_buff st) \<and> ls_bufnum st + length (mem_contents (ls_in st)) \<le> INT_MAX"

text \<open>The bytes of the buffer after a line was read into it.\<close>

lemma strlen_line: "strlen (l @ 0 # r) = Some (length (takeWhile (\<lambda>c. c \<noteq> 0) l))"
  by (induction l) auto

lemma strip_eol_le: "strip_eol p i \<le> i"
  by (induction p i rule: strip_eol.induct) auto

lemma read_buffer:
  assumes "b + 512 \<le> length d" "length l < 511"
  defines "d' \<equiv> poke (poke (poke d b [0]) b (l @ [0])) (b + 511) [0]"
  shows "length d' = length d" "take b d' = take b d" "\<exists>r. drop b d' = l @ 0 # r"
proof -
  have b: "length (poke d b [0]) = length d" "length (poke (poke d b [0]) b (l @ [0])) = length d"
    using assms(1,2) by simp_all
  show "length d' = length d" unfolding d'_def using assms(1) b by (subst length_poke) simp_all
  show "take b d' = take b d" using assms(1,2) by (simp add: d'_def poke_def)
  have "take (b + length l + 1) d' = take b d @ l @ [0]" using assms(1,2) by (simp add: d'_def poke_def)
  moreover have "take (length l + 1) (drop b d') = drop b (take (b + length l + 1) d')" by (simp add: drop_take)
  ultimately have "take (length l + 1) (drop b d') = l @ [0]" using assms(1) by simp
  then show "\<exists>r. drop b d' = l @ 0 # r" by (metis append_take_drop_id append_assoc append_Cons append_Nil)
qed

lemma load_iter_read:
  assumes "malloc_ok m" "load_inv st"
  defines "l \<equiv> first_line (take (511 - 1) (mem_contents (ls_in st)))"
  shows "(\<exists>buff. load_iter m uninit st = Some (Load_err (st\<lparr>ls_buff := buff\<rparr>)) \<and> BUF_MEM_grow m (ls_buff st) (ls_bufnum st + 512) = (0, buff)) \<or>
    (\<exists>buff data inp. BUF_MEM_grow m (ls_buff st) (ls_bufnum st + 512) = (ls_bufnum st + 512, buff) \<and> buf_ok buff \<and> length data = bm_max buff \<and>
       ls_bufnum st + 512 \<le> length data \<and> bm_length buff = ls_bufnum st + 512 \<and>
       take (ls_bufnum st) data = take (ls_bufnum st) (buf_contents buff) \<and> (\<exists>r. drop (ls_bufnum st) data = l @ 0 # r) \<and>
       mem_ok inp \<and> mem_contents (ls_in st) = l @ mem_contents inp \<and>
       load_iter m uninit st =
         (let ii = length (takeWhile (\<lambda>c. c \<noteq> 0) l)
          in if ii = 0 \<and> \<not> ls_again st then Some (Load_done (st\<lparr>ls_buff := buff, ls_in := inp\<rparr>))
             else load_stored m uninit st buff data inp ii))"
proof -
  let ?b = "ls_bufnum st"
  have inv: "mem_ok (ls_in st)" "buf_ok (ls_buff st)" "?b + length (mem_contents (ls_in st)) \<le> INT_MAX"
    using assms(2) by (simp_all add: load_inv_def)
  obtain n buff where g: "BUF_MEM_grow m (ls_buff st) (?b + 512) = (n, buff)" by force
  have sz: "?b + 512 \<le> SIZE_MAX" using inv(3) by simp
  note ok = grow_contents [OF assms(1) inv(2) sz g]
  show ?thesis
  proof (cases "n = 0")
    case True
    then show ?thesis using g by (auto simp: load_iter_def)
  next
    case False
    note n = BUF_MEM_grow_length [OF g False]
    have buff: "buf_ok buff" using ok by simp
    then obtain d where d: "bm_data buff = Some d" "length d = bm_max buff" "?b + 512 \<le> length d" "buf_contents buff = take (?b + 512) d"
      using n by (auto simp: buf_ok_def buf_contents_def split: option.splits)
    obtain inp where i: "BIO_gets (ls_in st) (int 511) = Some (int (length l), l @ [0], inp)" "mem_ok inp" "mem_contents (ls_in st) = l @ mem_contents inp"
      using BIO_gets_spec [OF inv(1), of 511, folded l_def] by auto
    have l: "length l < 511" using first_line_take(2) [of "take (511 - 1) (mem_contents (ls_in st))"] by (simp add: l_def)
    define d' where "d' = poke (poke (poke d ?b [0]) ?b (l @ [0])) (?b + 511) [0]"
    note R = read_buffer [OF d(3) l, folded d'_def]
    obtain r where r: "drop ?b d' = l @ 0 # r" using R(3) by blast
    have "load_iter m uninit st = (let ii = length (takeWhile (\<lambda>c. c \<noteq> 0) l)
          in if ii = 0 \<and> \<not> ls_again st then Some (Load_done (st\<lparr>ls_buff := buff, ls_in := inp\<rparr>))
             else load_stored m uninit st buff d' inp ii)"
      using i(1) l d(3) False r strlen_line [of l r] by (simp add: load_iter_def g d(1) Let_def flip: d'_def)
    moreover have "take ?b d' = take ?b (buf_contents buff)" using R(2) d(3,4) by simp
    ultimately show ?thesis using g n buff d(2,3) R(1) i(2,3) r by (intro disjI2 exI [of _ buff] exI [of _ d'] exI [of _ inp]) auto
  qed
qed

text \<open>Every iteration that goes on has read a byte, or it has read the end of the input with a line
  pending and made this line shorter.\<close>

definition load_order :: "(load_state \<times> load_state) set" where
  "load_order = measures [\<lambda>st. length (mem_contents (ls_in st)), \<lambda>st. ls_bufnum st + (if ls_again st then 1 else 0)]"

lemma load_order_wf: "wf load_order"
  by (simp add: load_order_def)

definition iter_result :: "load_state \<Rightarrow> load_result \<Rightarrow> bool" where
  "iter_result st res =
     (case res of
        Load_more st' \<Rightarrow> load_inv st' \<and> (\<exists>c. load_repr st' c) \<and> (st', st) \<in> load_order
      | Load_done st' \<Rightarrow> ls_conf st' = ls_conf st \<and> mem_ok (ls_in st')
      | Load_err st' \<Rightarrow> \<exists>A. conf_repr (ls_conf st') A)"

lemma load_repr_cong: "load_repr st c \<Longrightarrow> ls_conf st' = ls_conf st \<Longrightarrow> ls_section st' = ls_section st \<Longrightarrow> ls_sv st' = ls_sv st \<Longrightarrow> load_repr st' c"
  by (simp add: load_repr_def)

lemma load_stored_result:
  assumes c: "load_repr st c" and sum: "ls_bufnum st + length l + length (mem_contents inp) \<le> INT_MAX"
    and inp: "mem_ok inp" "mem_contents (ls_in st) = l @ mem_contents inp"
    and buff: "buf_ok buff" "bm_length buff = ls_bufnum st + 512" "length data = bm_max buff" "ls_bufnum st + 512 \<le> length data"
    and ii: "ii \<le> length l" "ii \<le> 510" "ii = 0 \<Longrightarrow> ls_again st"
  shows "\<exists>res. load_stored m uninit st buff data inp ii = Some res \<and> iter_result st res"
proof -
  define i where "i = strip_eol (drop (ls_bufnum st) data) ii"
  define again where "again \<longleftrightarrow> ii \<noteq> 0 \<and> i = ii"
  define d where "d = (if again then data else poke data (ls_bufnum st + i) [0])"
  define continued where "continued \<longleftrightarrow> ls_bufnum st + i \<ge> 1 \<and> is_esc (d ! (ls_bufnum st + i - 1)) \<and> (ls_bufnum st + i \<le> 1 \<or> \<not> is_esc (d ! (ls_bufnum st + i - 2)))"
  define b where "b = (if again \<or> continued then (if continued then ls_bufnum st + i - 1 else ls_bufnum st + i) else 0)"
  define st1 where "st1 = st\<lparr>ls_buff := buff\<lparr>bm_data := Some d\<rparr>, ls_in := inp, ls_again := again \<or> continued,
      ls_eline := (if again then ls_eline st else ls_eline st + 1), ls_bufnum := b\<rparr>"
  have eq: "load_stored m uninit st buff data inp ii =
      (if again \<or> continued then Some (Load_more st1) else load_line m uninit st1 (takeWhile (\<lambda>c. c \<noteq> 0) d))"
    by (simp only: load_stored_def Let_def st1_def b_def continued_def d_def again_def i_def)
  have i: "i \<le> ii" using strip_eol_le by (simp add: i_def)
  have "length d = length data" using buff(4) i ii(2) by (simp add: d_def)
  then have "buf_ok (buff\<lparr>bm_data := Some d\<rparr>)" using buff(1,3) by (simp add: buf_ok_def)
  moreover have "b + length (mem_contents inp) \<le> INT_MAX" using sum i ii(1) by (auto simp: b_def)
  ultimately have inv: "load_inv st1" using inp(1) by (simp add: load_inv_def st1_def)
  have rep: "load_repr st1 c" by (rule load_repr_cong [OF c]) (simp_all add: st1_def)
  have ord: "(st1, st) \<in> load_order"
  proof (cases "l = []")
    case True
    then have "ii = 0" "ls_again st" using ii by auto
    then show ?thesis using True i inp(2) by (auto simp: load_order_def st1_def b_def again_def continued_def)
  next
    case False
    then have "length (mem_contents inp) < length (mem_contents (ls_in st))" using inp(2) by simp
    then show ?thesis by (simp add: load_order_def st1_def)
  qed
  show ?thesis
  proof (cases "again \<or> continued")
    case True
    then show ?thesis using inv rep ord by (cases c) (auto simp: eq iter_result_def)
  next
    case False
    have "0 \<notin> set (takeWhile (\<lambda>c. c \<noteq> 0) d)" by (auto dest: set_takeWhileD)
    from load_line_result [OF rep this] obtain res where res: "load_line m uninit st1 (takeWhile (\<lambda>c. c \<noteq> 0) d) = Some res"
        "line_result st1 (line_effect c (conf_line (takeWhile (\<lambda>c. c \<noteq> 0) d))) res" by blast
    have "iter_result st res"
    proof (cases res)
      case (Load_more st2)
      then have "same_input st1 st2" "\<exists>c. load_repr st2 c" using res(2) by (auto simp: line_result_def)
      moreover from this have "load_inv st2" "(st2, st) \<in> load_order"
        using inv ord by (simp_all add: same_input_def load_inv_def load_order_def)
      ultimately show ?thesis using Load_more by (simp add: iter_result_def)
    qed (use res(2) in \<open>auto simp: line_result_def iter_result_def\<close>)
    then show ?thesis using False res(1) by (simp add: eq)
  qed
qed

lemma load_iter_result:
  assumes "malloc_ok m" "load_inv st" "load_repr st c"
  shows "\<exists>res. load_iter m uninit st = Some res \<and> iter_result st res"
proof -
  let ?l = "first_line (take (511 - 1) (mem_contents (ls_in st)))" and ?ii = "length (takeWhile (\<lambda>c. c \<noteq> 0) (first_line (take (511 - 1) (mem_contents (ls_in st)))))"
  have len: "length ?l \<le> 510" using first_line_take(2) [of "take (511 - 1) (mem_contents (ls_in st))"] by simp
  have ii: "?ii \<le> length ?l" by (rule length_takeWhile_le)
  consider buff where "load_iter m uninit st = Some (Load_err (st\<lparr>ls_buff := buff\<rparr>))"
    | buff data inp where "buf_ok buff" "length data = bm_max buff" "ls_bufnum st + 512 \<le> length data" "bm_length buff = ls_bufnum st + 512"
       "mem_ok inp" "mem_contents (ls_in st) = ?l @ mem_contents inp"
       "load_iter m uninit st = (if ?ii = 0 \<and> \<not> ls_again st then Some (Load_done (st\<lparr>ls_buff := buff, ls_in := inp\<rparr>))
             else load_stored m uninit st buff data inp ?ii)"
    using load_iter_read [OF assms(1,2), of uninit] unfolding Let_def by blast
  then show ?thesis
  proof cases
    case 1
    then show ?thesis using assms(3) by (auto simp: iter_result_def load_repr_def)
  next
    case 2
    show ?thesis
    proof (cases "?ii = 0 \<and> \<not> ls_again st")
      case True
      then show ?thesis using 2(5,7) by (simp add: iter_result_def)
    next
      case False
      have "ls_bufnum st + length ?l + length (mem_contents inp) \<le> INT_MAX"
        using assms(2) arg_cong [OF 2(6), of length] unfolding load_inv_def by simp
      from load_stored_result [OF assms(3) this 2(5,6,1,4,2,3) ii _ _, of m uninit] show ?thesis
        using False ii len 2(7) by auto
    qed
  qed
qed

lemma load_loop_returns:
  assumes "malloc_ok m" "load_inv st" "load_repr st c"
  shows "\<exists>r st'. load_loop m uninit st = Some (r, st') \<and> (\<exists>A. conf_repr (ls_conf st') A)"
  using assms(2,3)
proof (induction st arbitrary: c rule: wf_induct_rule [OF load_order_wf])
  case (1 st)
  obtain res where res: "load_iter m uninit st = Some res" "iter_result st res" using load_iter_result [OF assms(1) 1(2,3)] by blast
  show ?case
  proof (cases res)
    case (Load_more st')
    then show ?thesis using res 1(1) [of st'] by (subst load_loop.simps) (auto simp: iter_result_def)
  next
    case (Load_done st')
    then show ?thesis using res 1(3) by (subst load_loop.simps) (auto simp: iter_result_def load_repr_def)
  next
    case (Load_err st')
    then show ?thesis using res by (subst load_loop.simps) (auto simp: iter_result_def)
  qed
qed

section \<open>Properties\<close>


lemma some_the: "\<not> Option.is_none x \<Longrightarrow> x = Some (the x)"
  by (cases x) (simp_all add: Option.is_none_def)

lemma some_some_the: "\<not> Option.is_none x \<Longrightarrow> \<not> Option.is_none (the x) \<Longrightarrow> x = Some (Some (the (the x)))"
  by (simp flip: some_the)


end
