(* ===== verification/Conf_Text.thy ===== *)
theory Conf_Text
  imports Conf_Load
begin

text \<open>
  Configurations as text: a printer of sections and values, and the proof that
  \<open>NCONF_load_bio\<close> reads the text back.
\<close>

section \<open>The text of a configuration\<close>

text \<open>A value is written in quotes, with a backslash before a quote or a backslash.  A line feed is
  written outside the quotes.\<close>

definition quote_char :: "byte \<Rightarrow> cstring" where
  "quote_char c = (if c = 0x0a then [0x22, 0x5c, 0x6e, 0x22] else if c = 0x22 \<or> c = 0x5c then [0x5c, c] else [c])"

definition quoted :: "cstring \<Rightarrow> cstring" where
  "quoted v = concat (map quote_char v)"

definition print_value :: "cstring \<Rightarrow> cstring" where
  "print_value v = 0x22 # quoted v @ [0x22]"

datatype conf_item = Section cstring | Entry "cstring option" cstring cstring

fun item_text :: "conf_item \<Rightarrow> cstring" where
  "item_text (Section n) = 0x5b # n @ [0x5d]"
| "item_text (Entry ps n v) = (case ps of None \<Rightarrow> [] | Some s \<Rightarrow> s @ [0x3a, 0x3a]) @ n @ 0x3d # print_value v"

fun item_ok :: "conf_item \<Rightarrow> bool" where
  "item_ok (Section n) \<longleftrightarrow> (\<forall>c \<in> set n. is_name_char c) \<and> length (item_text (Section n)) \<le> 509"
| "item_ok (Entry ps n v) \<longleftrightarrow> (\<forall>c \<in> set n. is_name_char c) \<and> (\<forall>s \<in> set_option ps. \<forall>c \<in> set s. is_name_char c) \<and>
     0 \<notin> set v \<and> length (item_text (Entry ps n v)) \<le> 509"

definition conf_text :: "conf_item list \<Rightarrow> cstring" where
  "conf_text items = concat (map (\<lambda>i. item_text i @ [0x0a]) items)"

fun item_effect :: "conf_item \<Rightarrow> conf_map \<times> cstring \<Rightarrow> conf_map \<times> cstring" where
  "item_effect (Section n) (A, sec) = (if A n = None then A(n \<mapsto> []) else A, n)"
| "item_effect (Entry ps name v) (A, sec) =
     (let n = (case ps of None \<Rightarrow> sec | Some n \<Rightarrow> n)
      in (A(n \<mapsto> store_value name v (case A n of None \<Rightarrow> [] | Some es \<Rightarrow> es)), sec))"

lemmas char_simps = is_comment_def is_quote_def is_esc_def is_conf_ws_def

lemma name_char: "is_name_char c \<Longrightarrow> \<not> is_comment c \<and> \<not> is_quote c \<and> \<not> is_esc c \<and> \<not> is_conf_ws c \<and> c \<noteq> 0x24 \<and> c \<noteq> 0 \<and> c \<noteq> 0x0a \<and>
    c \<noteq> 0x3a \<and> c \<noteq> 0x3d \<and> c \<noteq> 0x5b \<and> c \<noteq> 0x5d"
  by (auto simp: is_name_char_def char_simps OPENSSL_isalnum_def OPENSSL_isalpha_def OPENSSL_isdigit_def)

lemma not_name_char: "\<not> is_name_char 0x3a" "\<not> is_name_char 0x3d" "\<not> is_name_char 0x5d" "\<not> is_name_char 0x22"
  by (auto simp: is_name_char_def OPENSSL_isalnum_def OPENSSL_isalpha_def OPENSSL_isdigit_def)

lemma quoted_simps [simp]: "quoted [] = []" "quoted (c # v) = quote_char c @ quoted v" "quoted (v @ w) = quoted v @ quoted w"
  by (simp_all add: quoted_def)

lemma print_value_split: "print_value (seg @ 0x0a # w) = 0x22 # quoted seg @ 0x22 # 0x5c # 0x6e # print_value w"
  by (simp add: print_value_def quote_char_def)

lemma quoted_segment:
  assumes "0x0a \<notin> set seg"
  shows "scan_quote_loop 0x22 (quoted seg @ 0x22 # r) = r" "str_copy_quoted 0x22 (quoted seg @ 0x22 # r) = (seg, r)"
  using assms by (induction seg) (auto simp: quote_char_def is_esc_def)

lemma segment_induct [case_names last more]:
  assumes "\<And>seg. 0x0a \<notin> set seg \<Longrightarrow> P seg" "\<And>seg w. 0x0a \<notin> set seg \<Longrightarrow> P w \<Longrightarrow> P (seg @ (0x0a :: byte) # w)"
  shows "P v"
proof (induction v rule: measure_induct_rule [of length])
  case (less v)
  show ?case
  proof (cases "0x0a \<in> set v")
    case True
    then obtain seg w where "v = seg @ 0x0a # w" "0x0a \<notin> set seg" by (meson split_list_first)
    then show ?thesis using assms(2) less [of w] by simp
  qed (simp add: assms(1))
qed

lemma str_copy_print: "str_copy_loop (print_value v) = Some v"
proof (induction v rule: segment_induct)
  case (last seg)
  then show ?case using quoted_segment(2) [OF last, of "[]"] by (simp add: print_value_def str_copy_loop_steps is_quote_def)
next
  case (more seg w)
  then show ?case using quoted_segment(2) [OF more(1)]
    by (simp add: print_value_split str_copy_loop_steps is_quote_def is_esc_def)
qed

lemma clear_comments_quote:
  assumes "0x0a \<notin> set seg"
  shows "clear_comments_loop (0x22 # quoted seg @ 0x22 # r) = 0x22 # quoted seg @ 0x22 # clear_comments_loop r"
proof -
  have s: "scan_quote (0x22 # quoted seg @ 0x22 # r) = r" using quoted_segment(1) [OF assms] by (simp add: scan_quote_def)
  show ?thesis using clear_comments_steps(3) [of "0x22" "quoted seg @ 0x22 # r", unfolded s] by (simp add: is_comment_def is_quote_def)
qed

lemma clear_comments_print: "clear_comments_loop (print_value v) = print_value v"
proof (induction v rule: segment_induct)
  case (last seg)
  then show ?case using clear_comments_quote [OF last, of "[]"] by (simp add: print_value_def clear_comments_steps)
next
  case (more seg w)
  have "clear_comments_loop (0x5c # 0x6e # print_value w) = 0x5c # 0x6e # print_value w"
    using clear_comments_steps(4) [of "0x5c" "0x6e # print_value w"] more(2) by (simp add: char_simps scan_esc_def)
  then show ?case using clear_comments_quote [OF more(1)] by (simp add: print_value_split)
qed

lemma clear_comments_plain:
  "\<forall>c \<in> set p. \<not> is_comment c \<and> \<not> is_quote c \<and> \<not> is_esc c \<Longrightarrow> clear_comments_loop (p @ r) = p @ clear_comments_loop r"
  by (induction p) (simp_all add: clear_comments_steps)

lemma eat_name_word:
  "\<forall>c \<in> set n. is_name_char c \<Longrightarrow> \<not> is_name_char d \<Longrightarrow> \<not> is_esc d \<Longrightarrow> eat_name (n @ d # r) = d # r"
  by (induction n) (simp_all add: eat_name_steps name_char)

lemma str_copy_name: "\<forall>c \<in> set n. is_name_char c \<Longrightarrow> str_copy_loop n = Some n"
  by (induction n) (auto simp: str_copy_loop_steps dest: name_char)

lemma eat_ws_id: "p = [] \<or> \<not> is_conf_ws (hd p) \<Longrightarrow> eat_ws p = p"
  by (cases p) auto

lemma value_length_id: "start = [] \<or> \<not> is_conf_ws (last start) \<Longrightarrow> value_length start (length start) = length start"
proof (cases "length start")
  case (Suc k)
  then have "start \<noteq> []" by auto
  moreover from this have "last start = start ! k" using Suc by (simp add: last_conv_nth)
  ultimately show "start = [] \<or> \<not> is_conf_ws (last start) \<Longrightarrow> value_length start (length start) = length start" using Suc by simp
qed simp

lemma print_value_ends: "hd (print_value v) = 0x22" "last (print_value v) = 0x22" "print_value v \<noteq> []"
  by (simp_all add: print_value_def)

lemma clear_comments_item: "item_ok i \<Longrightarrow> clear_comments_loop (item_text i) = item_text i"
proof (cases i)
  case (Section n)
  assume "item_ok i"
  then have "\<forall>c \<in> set (item_text i). \<not> is_comment c \<and> \<not> is_quote c \<and> \<not> is_esc c"
    using Section name_char by (auto simp: is_comment_def is_quote_def is_esc_def)
  then show ?thesis using clear_comments_plain [of "item_text i" "[]"] by (simp add: clear_comments_steps)
next
  case (Entry ps n v)
  assume "item_ok i"
  let ?p = "(case ps of None \<Rightarrow> [] | Some s \<Rightarrow> s @ [0x3a, 0x3a]) @ n @ [0x3d]"
  have "\<forall>c \<in> set ?p. \<not> is_comment c \<and> \<not> is_quote c \<and> \<not> is_esc c"
    using Entry \<open>item_ok i\<close> name_char by (auto simp: is_comment_def is_quote_def is_esc_def split: option.splits)
  from clear_comments_plain [OF this, of "print_value v"] show ?thesis by (simp add: Entry clear_comments_print)
qed

lemma item_hd: "item_ok i \<Longrightarrow> item_text i \<noteq> [] \<and> \<not> is_conf_ws (hd (item_text i))"
proof (cases i)
  case (Entry ps n v)
  assume "item_ok i"
  then show ?thesis using Entry name_char by (cases ps; cases n; cases "the ps") (auto simp: is_conf_ws_def)
qed (simp add: is_conf_ws_def)

lemma conf_line_section:
  assumes "item_ok (Section n)"
  shows "conf_line (item_text (Section n)) = Section_line n"
proof -
  have n: "\<forall>c \<in> set n. is_name_char c" using assms by simp
  have t: "eat_ws (clear_comments (item_text (Section n))) = item_text (Section n)"
    using item_hd [OF assms] clear_comments_item [OF assms] by (simp add: clear_comments_def eat_ws_id)
  have start: "eat_ws (n @ [0x5d]) = n @ [0x5d]" using n name_char by (cases n) (auto simp: is_conf_ws_def)
  have "eat_name (n @ [0x5d]) = [0x5d]" using eat_name_word [OF n, of "0x5d" "[]"] by (simp add: not_name_char is_esc_def)
  then have "section_name_end (n @ [0x5d]) = Some [0x5d]" by (subst section_name_end.simps) (simp add: is_conf_ws_def)
  then show ?thesis unfolding conf_line_def t by (simp add: start)
qed

lemma conf_line_entry:
  assumes "item_ok (Entry ps n v)"
  shows "conf_line (item_text (Entry ps n v)) = Value_line ps n (print_value v)"
proof -
  let ?t = "item_text (Entry ps n v)"
  have n: "\<forall>c \<in> set n. is_name_char c" "\<And>s. ps = Some s \<Longrightarrow> \<forall>c \<in> set s. is_name_char c" using assms by auto
  have t: "eat_ws (clear_comments ?t) = ?t"
    using item_hd [OF assms] clear_comments_item [OF assms] by (simp add: clear_comments_def eat_ws_id)
  have hd: "hd ?t \<noteq> 0x5b" using n name_char by (cases ps; cases n; cases "the ps") auto
  have start: "eat_ws (print_value v) = print_value v" "value_length (print_value v) (length (print_value v)) = length (print_value v)"
    using print_value_ends [of v] by (auto intro!: eat_ws_id value_length_id simp: is_conf_ws_def)
  have e1: "eat_name (n @ 0x3d # print_value v) = 0x3d # print_value v"
    by (rule eat_name_word [OF n(1)]) (simp_all add: not_name_char is_esc_def)
  have w: "eat_ws (0x3d # r) = 0x3d # r" for r by (simp add: is_conf_ws_def)
  show ?thesis
  proof (cases ps)
    case None
    then show ?thesis using hd e1 start w unfolding conf_line_def t by (simp add: Let_def)
  next
    case (Some s)
    have e2: "eat_name (s @ 0x3a # 0x3a # n @ 0x3d # print_value v) = 0x3a # 0x3a # n @ 0x3d # print_value v"
      by (rule eat_name_word [OF n(2) [OF Some]]) (simp_all add: not_name_char is_esc_def)
    show ?thesis using Some hd e1 e2 start w unfolding conf_line_def t by (simp add: Let_def)
  qed
qed

lemma item_line_effect: "item_ok i \<Longrightarrow> line_effect c (conf_line (item_text i)) = Some (item_effect i c)"
proof (cases i)
  case (Section n)
  assume "item_ok i"
  then show ?thesis using Section str_copy_name [of n] unfolding Section
    by (cases c) (simp only: conf_line_section, simp add: line_effect_def)
next
  case (Entry ps n v)
  assume "item_ok i"
  then show ?thesis unfolding Entry by (cases c) (simp only: conf_line_entry, simp add: line_effect_def str_copy_print)
qed

lemma item_text_bytes:
  assumes "item_ok i"
  shows "0 \<notin> set (item_text i)" "0x0a \<notin> set (item_text i)" "last (item_text i) = 0x22 \<or> last (item_text i) = 0x5d" "length (item_text i) \<le> 509"
proof -
  have q: "0x0a \<notin> set (quote_char c)" "c \<noteq> 0 \<Longrightarrow> 0 \<notin> set (quote_char c)" for c by (auto simp: quote_char_def)
  have p: "0x0a \<notin> set (print_value v)" "0 \<notin> set v \<Longrightarrow> 0 \<notin> set (print_value v)" for v
    using q by (auto simp: print_value_def quoted_def) metis
  show "0 \<notin> set (item_text i)" "0x0a \<notin> set (item_text i)"
    using assms name_char p by (cases i; auto split: option.splits)+
  show "last (item_text i) = 0x22 \<or> last (item_text i) = 0x5d" "length (item_text i) \<le> 509"
    using assms print_value_ends by (cases i; auto)+
qed

text \<open>Reading one line of such a text.\<close>

lemma first_line_append: "0x0a \<notin> set t \<Longrightarrow> first_line (t @ 0x0a # r) = t @ [0x0a]"
  by (induction t) auto

lemma takeWhile_nonzero: "0 \<notin> set t \<Longrightarrow> takeWhile (\<lambda>c. c \<noteq> 0) (t @ 0 # r) = (t :: byte list)"
  by (induction t) auto

lemma strip_eol_line:
  assumes "t \<noteq> []" "last t \<noteq> 0x0d" "last t \<noteq> 0x0a"
  shows "strip_eol (t @ 0x0a # r) (Suc (length t)) = length t"
proof -
  obtain k where k: "length t = Suc k" using assms(1) by (cases t) auto
  then have "(t @ 0x0a # r) ! k = last t" "(t @ 0x0a # r) ! Suc k = 0x0a" using assms(1) by (simp_all add: nth_append last_conv_nth)
  then show ?thesis using k assms(2,3) by simp
qed

lemma load_iter_item:
  assumes "malloc_ok m" "load_inv st" "load_repr st c" "ls_bufnum st = 0" "\<not> ls_again st" "item_ok i"
    and "mem_contents (ls_in st) = item_text i @ 0x0a # rest"
  shows "(\<exists>buff. load_iter m uninit st = Some (Load_err (st\<lparr>ls_buff := buff\<rparr>)) \<and> BUF_MEM_grow m (ls_buff st) 512 = (0, buff)) \<or>
    (\<exists>st1. load_iter m uninit st = load_line m uninit st1 (item_text i) \<and> load_inv st1 \<and> load_repr st1 c \<and>
       ls_bufnum st1 = 0 \<and> \<not> ls_again st1 \<and> mem_contents (ls_in st1) = rest)"
proof -
  let ?t = "item_text i" and ?l = "item_text i @ [0x0a :: byte]"
  note t = item_text_bytes [OF assms(6)] item_hd [OF assms(6)]
  have "take (511 - 1) (?t @ 0x0a # rest) = ?t @ 0x0a # take (509 - length ?t) rest" using t(4) by (simp add: take_Cons' Suc_diff_le)
  then have l: "first_line (take (511 - 1) (mem_contents (ls_in st))) = ?l" using first_line_append [OF t(2)] assms(7) by simp
  have ii: "length (takeWhile (\<lambda>c. c \<noteq> 0) ?l) = Suc (length ?t)" using t(1) by (subst takeWhile_eq_all_conv [THEN iffD2]) auto
  consider buff where "load_iter m uninit st = Some (Load_err (st\<lparr>ls_buff := buff\<rparr>))" "BUF_MEM_grow m (ls_buff st) 512 = (0, buff)"
    | buff data inp r where "buf_ok buff" "length data = bm_max buff" "512 \<le> length data" "bm_length buff = 512"
       "data = ?l @ 0 # r" "mem_ok inp" "mem_contents (ls_in st) = ?l @ mem_contents inp"
       "load_iter m uninit st = load_stored m uninit st buff data inp (Suc (length ?t))"
    using load_iter_read [OF assms(1,2), of uninit] assms(4) unfolding l ii Let_def by auto
  then show ?thesis
  proof cases
    case 1
    then show ?thesis by blast
  next
    case 2
    let ?d = "poke data (length ?t) [0]"
    have strip: "strip_eol data (Suc (length ?t)) = length ?t" using strip_eol_line [of ?t "0 # r"] t 2(5) by auto
    have d: "?d = ?t @ 0 # 0 # r" using 2(5) by (simp add: poke_def)
    then have esc: "\<not> is_esc (?d ! (length ?t - 1))" "0 < length ?t"
      using t(3,5) by (auto simp: nth_append is_esc_def last_conv_nth)
    define st1 where "st1 = st\<lparr>ls_buff := buff\<lparr>bm_data := Some ?d\<rparr>, ls_in := inp, ls_again := False, ls_eline := ls_eline st + 1, ls_bufnum := 0\<rparr>"
    have "takeWhile (\<lambda>c. c \<noteq> 0) ?d = ?t" unfolding d by (rule takeWhile_nonzero [OF t(1)])
    then have "load_iter m uninit st = load_line m uninit st1 ?t"
      using esc 2(8) by (simp add: load_stored_def strip assms(4) Let_def st1_def del: strip_eol.simps)
    moreover have "load_inv st1"
      using 2 assms(2) d by (auto simp: load_inv_def st1_def buf_ok_def)
    moreover have "load_repr st1 c" by (rule load_repr_cong [OF assms(3)]) (simp_all add: st1_def)
    moreover have "mem_contents inp = rest" using 2(7) assms(7) by simp
    ultimately show ?thesis by (auto simp: st1_def)
  qed
qed

section \<open>Enough memory\<close>

text \<open>When the allocator refuses no request, no step fails for lack of memory.\<close>

lemma malloc_plenty: "\<forall>n. m n \<noteq> None \<Longrightarrow> n + 8 \<le> SIZE_MAX \<Longrightarrow> OPENSSL_malloc m n \<noteq> None"
  by (auto simp: OPENSSL_malloc_def size_add_nowrap split: option.splits)

lemma zalloc_plenty: "\<forall>n. m n \<noteq> None \<Longrightarrow> n + 8 \<le> SIZE_MAX \<Longrightarrow> OPENSSL_zalloc m n \<noteq> None"
  using malloc_plenty [of m n] by (auto simp: OPENSSL_zalloc_def split: option.splits)

lemma grow_plenty:
  assumes "\<forall>n. m n \<noteq> None" "len \<le> 0x100000000"
  shows "\<exists>buf'. BUF_MEM_grow m buf len = (len, buf')"
proof -
  have s: "size_add len 3 = len + 3" "size_mul ((len + 3) div 3) 4 = (len + 3) div 3 * 4" "(len + 3) div 3 * 4 + 8 \<le> SIZE_MAX"
    using assms(2) by (simp_all add: size_add_nowrap size_mul_nowrap)
  have "OPENSSL_realloc m (bm_data buf) ((len + 3) div 3 * 4) \<noteq> None"
    using malloc_plenty [OF assms(1) s(3)] by (auto simp: OPENSSL_realloc_def Let_def split: option.splits)
  then obtain y where "OPENSSL_realloc m (bm_data buf) ((len + 3) div 3 * 4) = Some y" by blast
  then have "\<exists>buf'. BUF_MEM_reserve m buf len = (True, buf')"
    by (simp add: BUF_MEM_reserve_def Let_def s(1,2))
  then show ?thesis by (auto simp: BUF_MEM_grow_def Let_def)
qed

lemma str_copy_plenty:
  assumes "\<forall>n. m n \<noteq> None" "length s \<le> INT_MAX" "str_copy_loop s = Some out" "0 \<notin> set s"
  shows "str_copy m s = Some (Some out)"
proof -
  obtain buf where b: "BUF_MEM_new m = Some buf" using zalloc_plenty [OF assms(1), of 24] by (auto simp: BUF_MEM_new_def)
  obtain buf' where "BUF_MEM_grow m buf (length s + 1) = (length s + 1, buf')" using grow_plenty [OF assms(1)] assms(2) by force
  moreover from this have "bm_length buf' = length s + 1" using BUF_MEM_grow_length by force
  ultimately show ?thesis using b assms(3) str_copy_loop_bound [OF assms(3,4)] by (simp add: str_copy_def)
qed

lemma strdup_plenty: "\<forall>n. m n \<noteq> None \<Longrightarrow> length s \<le> INT_MAX \<Longrightarrow> 0 \<notin> set s \<Longrightarrow> strdup m s = Some s"
  using malloc_plenty [of m "length s + 1"] by (auto simp: strdup_eq split: option.split)

lemma lh_insert_plenty: "\<forall>n. m n \<noteq> None \<Longrightarrow> \<exists>old t'. OPENSSL_lh_insert m t d = (True, old, t')"
  using malloc_plenty [of m 24] by (auto simp: OPENSSL_lh_insert_def Let_def split: prod.split option.split)

lemma sk_new_plenty: "\<forall>n. m n \<noteq> None \<Longrightarrow> OPENSSL_sk_new_null m \<noteq> None"
  using zalloc_plenty [of m 40] zalloc_plenty [of m 32]
  by (auto simp: OPENSSL_sk_new_null_def OPENSSL_sk_new_def OPENSSL_calloc_def size_mul_nowrap split: option.split)

lemma new_section_plenty:
  assumes "\<forall>n. m n \<noteq> None" "length n \<le> INT_MAX" "0 \<notin> set n"
  shows "fst (NCONF_new_section m conf n) \<noteq> None"
proof -
  obtain p old t and vals :: value_stack where "OPENSSL_malloc m 16 = Some p" "OPENSSL_sk_new_null m = Some vals"
      "OPENSSL_lh_insert m (cf_sections conf) \<lparr>cs_at = cf_next conf, cs_name = n\<rparr> = (True, old, t)"
    using malloc_plenty [OF assms(1), of 16] sk_new_plenty [OF assms(1)] lh_insert_plenty [OF assms(1)] by force
  then show ?thesis using strdup_plenty [OF assms] by (simp add: NCONF_new_section_def Let_def)
qed

lemma push_plenty:
  assumes "\<forall>n. m n \<noteq> None" "st_num sk < INT_MAX"
  shows "fst (OPENSSL_sk_push m uninit sk p) \<noteq> 0"
  using sk_grow_works [OF assms(1), of sk uninit] assms(2)
  by (auto simp: OPENSSL_sk_push_def OPENSSL_sk_insert_def Let_def split: option.split)

lemma add_string_plenty:
  assumes "\<forall>n. m n \<noteq> None" "conf_repr conf A" "get_section conf n = Some sec" "A n = Some es" "length es < INT_MAX" "length n \<le> INT_MAX"
  shows "add_string m uninit conf sec v \<noteq> Some (False, conf')"
proof -
  note R = conf_reprD [OF assms(2)]
  obtain st vs where st: "0 \<notin> set n" "cf_stacks conf (cs_at sec) = Some st" "stack_ok (\<lambda>_ _ _. 0) st" "sk_elems st = map Some vs"
      "length es = length vs"
    using R(4) [OF assms(4)] assms(3) by (auto simp: section_repr_def)
  have name: "strdup m (cs_name sec) = Some n" using get_section_name [OF R(1) assms(3)] strdup_plenty [OF assms(1,6) st(1)] by simp
  have "st_num st < INT_MAX" using stack_okD(3) [OF st(3)] st(4,5) assms(5) by simp
  then have push: "fst (OPENSSL_sk_push m uninit st (Some (v\<lparr>cv_section := n\<rparr>))) \<noteq> 0" by (rule push_plenty [OF assms(1)])
  obtain old t where "OPENSSL_lh_insert m (cf_values conf) (v\<lparr>cv_section := n\<rparr>) = (True, old, t)"
    using lh_insert_plenty [OF assms(1), of "cf_values conf" "v\<lparr>cv_section := n\<rparr>"] by auto
  then show ?thesis using push name st(2) by (cases old) (auto simp: add_string_def Let_def split: prod.split)
qed

lemma find_section_plenty:
  assumes "\<forall>n. m n \<noteq> None" "length n \<le> INT_MAX" "0 \<notin> set n"
  shows "\<exists>sv conf'. (case get_section conf n of Some sv \<Rightarrow> (Some sv, conf) | None \<Rightarrow> NCONF_new_section m conf n) = (Some sv, conf')"
proof (cases "get_section conf n")
  case None
  then show ?thesis using new_section_plenty [OF assms, of conf] by (cases "NCONF_new_section m conf n") auto
qed simp

lemma load_section_plenty:
  assumes "\<forall>n. m n \<noteq> None" "str_copy_loop s = Some n" "0 \<notin> set s" "length s \<le> INT_MAX"
  shows "load_section m st s \<noteq> Some (Load_err st')"
proof -
  have n: "length n \<le> INT_MAX" "0 \<notin> set n" using str_copy_loop_bound [OF assms(2,3)] assms(4) by auto
  obtain sv conf' where "(case get_section (ls_conf st) n of Some sv \<Rightarrow> (Some sv, ls_conf st) | None \<Rightarrow> NCONF_new_section m (ls_conf st) n) = (Some sv, conf')"
    using find_section_plenty [OF assms(1) n] by blast
  then show ?thesis using str_copy_plenty [OF assms(1,4,2,3)] by (simp add: load_section_def)
qed

lemma load_value_plenty:
  assumes m: "\<forall>n. m n \<noteq> None" and st: "load_repr st (A, sec)" and val: "str_copy_loop raw = Some val"
    and zero: "0 \<notin> set raw" "0 \<notin> set name" "\<forall>n. ps = Some n \<longrightarrow> 0 \<notin> set n"
    and len: "length raw \<le> INT_MAX" "length name \<le> INT_MAX" "length sec \<le> INT_MAX" "\<forall>n. ps = Some n \<longrightarrow> length n \<le> INT_MAX"
    and small: "\<forall>n es. A n = Some es \<longrightarrow> length es < INT_MAX"
  shows "load_value m uninit st ps name raw \<noteq> Some (Load_err st')"
proof -
  have c: "conf_repr (ls_conf st) A" "ls_section st = sec" "0 \<notin> set sec" "get_section (ls_conf st) sec = Some (ls_sv st)"
    using st by (simp_all add: load_repr_def)
  define n where "n = (case ps of None \<Rightarrow> sec | Some n \<Rightarrow> n)"
  have n: "length n \<le> INT_MAX" "0 \<notin> set n" using c(3) zero(3) len(3,4) by (auto simp: n_def split: option.splits)
  have p: "(case ps of None \<Rightarrow> ls_section st | Some s \<Rightarrow> s) = n" by (simp add: n_def c(2) split: option.split)
  obtain v conf where v: "CONF_VALUE_new m (ls_conf st) = Some (v, conf)" using zalloc_plenty [OF m, of 24] by (force simp: CONF_VALUE_new_def)
  note V = new_value_unused [OF c(1) v]
  obtain tv conf1 where f: "(case get_section conf n of Some tv \<Rightarrow> (Some tv, conf) | None \<Rightarrow> NCONF_new_section m conf n) = (Some tv, conf1)"
    using find_section_plenty [OF m n] by blast
  then have f': "(if strcmp n sec \<noteq> 0 then (case get_section conf n of Some tv \<Rightarrow> (Some tv, conf) | None \<Rightarrow> NCONF_new_section m conf n)
      else (Some (ls_sv (st\<lparr>ls_conf := conf\<rparr>)), conf)) = (Some tv, conf1)"
    using c(4) V(4) by (cases "n = sec") (auto simp: lex_compare_eq_0)
  have R: "conf_repr conf1 (if A n = None then A(n \<mapsto> []) else A)" "get_section conf1 n = Some tv" using find_section(1) [OF V(1) n(2) f] by simp_all
  obtain es where "(if A n = None then A(n \<mapsto> []) else A) n = Some es" "length es < INT_MAX"
    using small by (cases "A n") auto
  from add_string_plenty [OF m R this n(1)] show ?thesis
    using strdup_plenty [OF m len(2) zero(2)] str_copy_plenty [OF m len(1) val zero(1)]
    by (simp add: load_value_def v p c(2) f' Let_def split del: if_split split: option.split prod.split bool.split)
qed

text \<open>A line of the text has its effect.\<close>

lemma load_line_item:
  assumes m: "\<forall>n. m n \<noteq> None" and st: "load_repr st (A, sec)" and i: "item_ok i" and len: "length sec \<le> INT_MAX"
    and small: "\<forall>n es. A n = Some es \<longrightarrow> length es < INT_MAX"
  shows "\<exists>st'. load_line m uninit st (item_text i) = Some (Load_more st') \<and> load_repr st' (item_effect i (A, sec)) \<and> same_input st st'"
proof -
  obtain res where res: "load_line m uninit st (item_text i) = Some res" "line_result st (Some (item_effect i (A, sec))) res"
    using load_line_result [OF st item_text_bytes(1) [OF i]] unfolding item_line_effect [OF i] by blast
  have "res \<noteq> Load_err st'" for st'
  proof (cases i)
    case (Section n)
    then have n: "\<forall>c \<in> set n. is_name_char c" "0 \<notin> set n" "length n \<le> INT_MAX" using i name_char by auto
    show ?thesis using res(1) load_section_plenty [OF m str_copy_name [OF n(1)] n(2,3)] conf_line_section i unfolding Section load_line_def by auto
  next
    case (Entry ps n v)
    let ?ok = "\<lambda>s. 0 \<notin> set s \<and> length s \<le> INT_MAX"
    have "?ok (print_value v)" using item_text_bytes(1,4) [OF i] Entry by simp
    moreover have "?ok n" using item_text_bytes(1,4) [OF i] Entry by simp
    moreover have "\<forall>s. ps = Some s \<longrightarrow> ?ok s" using item_text_bytes(1,4) [OF i] Entry by auto
    ultimately show ?thesis using load_value_plenty [OF m st str_copy_print, of v n ps] len small res(1) conf_line_entry i
      unfolding Entry load_line_def by auto
  qed
  then show ?thesis using res by (cases res) (auto simp: line_result_def)
qed

text \<open>The effect of an item on the sizes.\<close>

lemma item_effect_small:
  assumes "\<forall>n es. A n = Some es \<longrightarrow> length es + Suc k \<le> INT_MAX" "length sec \<le> INT_MAX" "item_ok i" "k < INT_MAX"
    and "item_effect i (A, sec) = (A', sec')"
  shows "\<forall>n es. A' n = Some es \<longrightarrow> length es + k \<le> INT_MAX" "length sec' \<le> INT_MAX"
proof -
  have f: "length (store_value name v es) \<le> Suc (length es)" for name v es by (simp add: store_value_def length_filter_le)
  show "length sec' \<le> INT_MAX" using assms(2,3,5) by (cases i) (auto simp: Let_def)
  show "\<forall>n es. A' n = Some es \<longrightarrow> length es + k \<le> INT_MAX"
  proof (cases i)
    case (Section n)
    then show ?thesis using assms(1,4,5) by (fastforce split: if_splits)
  next
    case (Entry ps name v)
    define n where "n = (case ps of None \<Rightarrow> sec | Some n \<Rightarrow> n)"
    have A': "A' = A(n \<mapsto> store_value name v (case A n of None \<Rightarrow> [] | Some es \<Rightarrow> es))" using assms(5) Entry by (simp add: Let_def n_def)
    have "length (case A n of None \<Rightarrow> [] | Some es \<Rightarrow> es) + Suc k \<le> INT_MAX" using assms(1,4) by (auto split: option.split)
    then show ?thesis using f [of name v "case A n of None \<Rightarrow> [] | Some es \<Rightarrow> es"] assms(1) by (fastforce simp: A' split: if_splits)
  qed
qed

section \<open>Reading the text back\<close>

lemma load_iter_end:
  assumes "malloc_ok m" "\<forall>n. m n \<noteq> None" "load_inv st" "\<not> ls_again st" "ls_bufnum st = 0" "mem_contents (ls_in st) = []"
  shows "\<exists>st'. load_iter m uninit st = Some (Load_done st') \<and> ls_conf st' = ls_conf st"
proof -
  obtain buff' where "BUF_MEM_grow m (ls_buff st) 512 = (512, buff')" using grow_plenty [OF assms(2), of 512] by auto
  then show ?thesis using load_iter_read [OF assms(1,3), of uninit] assms(4-6) by (auto simp: Let_def)
qed

lemma load_items:
  assumes m: "malloc_ok m" "\<forall>n. m n \<noteq> None"
  shows "load_inv st \<Longrightarrow> load_repr st c \<Longrightarrow> ls_bufnum st = 0 \<Longrightarrow> \<not> ls_again st \<Longrightarrow> mem_contents (ls_in st) = conf_text items \<Longrightarrow>
    \<forall>i \<in> set items. item_ok i \<Longrightarrow> length (snd c) \<le> INT_MAX \<Longrightarrow> length items \<le> INT_MAX \<Longrightarrow>
    \<forall>n es. fst c n = Some es \<longrightarrow> length es + length items \<le> INT_MAX \<Longrightarrow>
    \<exists>st'. load_loop m uninit st = Some (True, st') \<and> conf_repr (ls_conf st') (fst (fold item_effect items c))"
proof (induction items arbitrary: st c)
  case Nil
  then obtain st' where "load_iter m uninit st = Some (Load_done st')" "ls_conf st' = ls_conf st"
    using load_iter_end [OF m] by (force simp: conf_text_def)
  then show ?case using Nil(2) by (subst load_loop.simps) (auto simp: load_repr_def)
next
  case (Cons i items)
  obtain A sec where c: "c = (A, sec)" by force
  obtain buff' where "BUF_MEM_grow m (ls_buff st) 512 = (512, buff')" using grow_plenty [OF m(2), of 512] by auto
  moreover have "mem_contents (ls_in st) = item_text i @ 0x0a # conf_text items" using Cons.prems(5) by (simp add: conf_text_def)
  ultimately obtain st1 where st1: "load_iter m uninit st = load_line m uninit st1 (item_text i)" "load_inv st1" "load_repr st1 c"
      "ls_bufnum st1 = 0" "\<not> ls_again st1" "mem_contents (ls_in st1) = conf_text items"
    using load_iter_item [OF m(1) Cons.prems(1-4), of i "conf_text items" uninit] Cons.prems(6) by auto
  have small: "\<forall>n es. A n = Some es \<longrightarrow> length es + Suc (length items) \<le> INT_MAX" using Cons.prems(9) by (simp add: c)
  then have "\<forall>n es. A n = Some es \<longrightarrow> length es < INT_MAX" by fastforce
  then obtain st2 where st2: "load_line m uninit st1 (item_text i) = Some (Load_more st2)" "load_repr st2 (item_effect i c)" "same_input st1 st2"
    using load_line_item [OF m(2) st1(3) [unfolded c], of i uninit] Cons.prems(6,7) by (auto simp: c)
  obtain A' sec' where c': "item_effect i (A, sec) = (A', sec')" by force
  have "load_inv st2" "ls_bufnum st2 = 0" "\<not> ls_again st2" "mem_contents (ls_in st2) = conf_text items"
    using st1 st2(3) by (simp_all add: same_input_def load_inv_def)
  moreover have "\<forall>n es. fst (item_effect i c) n = Some es \<longrightarrow> length es + length items \<le> INT_MAX" "length (snd (item_effect i c)) \<le> INT_MAX"
    using item_effect_small [OF small _ _ _ c'] Cons.prems(6-8) by (simp_all add: c c')
  ultimately obtain st3 where "load_loop m uninit st2 = Some (True, st3)" "conf_repr (ls_conf st3) (fst (fold item_effect items (item_effect i c)))"
    using Cons.IH [OF _ st2(2)] Cons.prems(6,8) by auto
  then show ?case using st1(1) st2(1) by (subst load_loop.simps) simp
qed

lemma items_length: "length items \<le> length (conf_text items)"
  by (induction items) (auto simp: conf_text_def)

text \<open>C3.  Loading a configuration inverts printing it.  Take any sections and values, the values with
  quotes, backslashes, comment signs, white space or line feeds in them, and print them a line each;
  as long as the lines fit the buffer and there is memory, loading the text into a new configuration
  succeeds, each section lists its last value for every name in the order of the text, and a
  look-up finds the value of the name in the section.\<close>

theorem conf_text_roundtrip:
  assumes "malloc_ok m" "\<forall>n. m n \<noteq> None" "NCONF_new m = Some conf"
    and inp: "BIO_new_mem_buf m (Some (conf_text items)) (int (length (conf_text items))) = Some (Some inp)"
    and items: "\<forall>i \<in> set items. item_ok i" "length (conf_text items) \<le> INT_MAX"
  shows "\<exists>conf' inp'. NCONF_load_bio m uninit conf inp = Some (True, conf', inp', None) \<and>
    (let A = fst (fold item_effect items ([kDefaultSectionName \<mapsto> []], kDefaultSectionName))
     in (\<forall>n. \<exists>st. NCONF_get_section conf' n = Some st \<and> map_option stack_entries st = A n) \<and>
        (\<forall>n name. NCONF_get_string conf' (Some n) name = (case A n of None \<Rightarrow> None | Some es \<Rightarrow> map_of es name)))"
proof -
  have bio: "mem_ok inp" "mem_contents inp = conf_text items" using new_mem_buf_ok [OF inp] items(2) by simp_all
  have d: "0 \<notin> set kDefaultSectionName" "length kDefaultSectionName \<le> INT_MAX" by (simp_all add: kDefaultSectionName_def)
  obtain buff where b: "BUF_MEM_new m = Some buff" using zalloc_plenty [OF assms(2), of 24] by (auto simp: BUF_MEM_new_def)
  obtain sv conf1 where s: "NCONF_new_section m conf kDefaultSectionName = (Some sv, conf1)"
    using new_section_plenty [OF assms(2) d(2,1), of conf] by (cases "NCONF_new_section m conf kDefaultSectionName") auto
  note N = new_section_repr [OF new_conf_repr [OF assms(3)] d(1) _ s]
  define st where "st = \<lparr>ls_conf = conf1, ls_in = inp, ls_buff = buff, ls_bufnum = 0, ls_again = False, ls_eline = 0,
      ls_section = kDefaultSectionName, ls_sv = sv\<rparr>"
  let ?c = "([kDefaultSectionName \<mapsto> []], kDefaultSectionName)"
  have "buf_ok buff" using b by (auto simp: BUF_MEM_new_def buf_ok_def split: option.splits)
  then have "load_inv st" using bio items(2) by (simp add: load_inv_def st_def)
  moreover have "load_repr st ?c" using N(1) d by (simp add: load_repr_def st_def)
  moreover have "length items \<le> INT_MAX" using items_length [of items] items(2) by linarith
  moreover from this have "\<forall>n es. fst ?c n = Some es \<longrightarrow> length es + length items \<le> INT_MAX" by (simp split: if_splits)
  ultimately obtain st' where st': "load_loop m uninit st = Some (True, st')" "conf_repr (ls_conf st') (fst (fold item_effect items ?c))"
    using load_items [OF assms(1,2), of st ?c items uninit] bio items d by (force simp: st_def)
  then have "NCONF_load_bio m uninit conf inp = Some (True, ls_conf st', ls_in st', None)"
    using b s strdup_plenty [OF assms(2) d(2,1)] by (simp add: NCONF_load_bio_def flip: st_def)
  moreover have "\<exists>st. NCONF_get_section (ls_conf st') n = Some st \<and> map_option stack_entries st = fst (fold item_effect items ?c) n" for n
    using get_section_repr [OF st'(2), of n] by auto
  ultimately show ?thesis using get_string_repr(1) [OF st'(2)] by (auto simp: Let_def)
qed

text \<open>The text \<open>a="x#y"\<close>, a section \<open>[s]\<close> and in it \<open>b="\"$"\<close>.\<close>

theorem conf_text_roundtrip_witness:
  "\<exists>conf' inp'. NCONF_load_bio (\<lambda>n. Some (replicate n 0)) (\<lambda>_. None) (the (NCONF_new (\<lambda>n. Some (replicate n 0))))
       (the (the (BIO_new_mem_buf (\<lambda>n. Some (replicate n 0))
          (Some (conf_text [Entry None [0x61] [0x78, 0x23, 0x79], Section [0x73], Entry None [0x62] [0x22, 0x24]]))
          (int (length (conf_text [Entry None [0x61] [0x78, 0x23, 0x79], Section [0x73], Entry None [0x62] [0x22, 0x24]])))))) =
     Some (True, conf', inp', None) \<and>
     NCONF_get_string conf' (Some kDefaultSectionName) [0x61] = Some [0x78, 0x23, 0x79] \<and>
     NCONF_get_string conf' (Some [0x73]) [0x62] = Some [0x22, 0x24] \<and> NCONF_get_string conf' (Some [0x73]) [0x61] = None"
proof -
  let ?m = "\<lambda>n. Some (replicate n 0) :: byte list option"
  let ?items = "[Entry None [0x61] [0x78, 0x23, 0x79], Section [0x73], Entry None [0x62] [0x22, 0x24]]"
  let ?inp = "BIO_new_mem_buf ?m (Some (conf_text ?items)) (int (length (conf_text ?items)))"
  have m: "malloc_ok ?m" "\<forall>n. ?m n \<noteq> None" by (simp_all add: malloc_ok_def)
  have conf: "NCONF_new ?m = Some (the (NCONF_new ?m))" by (rule some_the) code_simp
  have inp: "?inp = Some (Some (the (the ?inp)))" by (rule some_some_the) code_simp+
  have items: "\<forall>i \<in> set ?items. item_ok i" "length (conf_text ?items) \<le> INT_MAX" by code_simp+
  have "fst (fold item_effect ?items ([kDefaultSectionName \<mapsto> []], kDefaultSectionName)) =
      [kDefaultSectionName \<mapsto> [([0x61], [0x78, 0x23, 0x79])], [0x73] \<mapsto> [([0x62], [0x22, 0x24])]]"
    by (simp add: kDefaultSectionName_def store_value_def Let_def)
  moreover have "kDefaultSectionName \<noteq> [0x73]" by (simp add: kDefaultSectionName_def)
  ultimately show ?thesis using conf_text_roundtrip [OF m conf inp items, of "\<lambda>_. None"] unfolding Let_def by (elim exE conjE) simp
qed

end
