(* ===== verification/Bio_Pair.thy ===== *)
theory Bio_Pair
  imports Mem
begin

text \<open>
  BIO pairs, \<open>crypto/bio/pair.c\<close>: two ends, each with a ring buffer for what it writes, and each
  reading from the buffer of its peer.  The ends live in a store that maps addresses to BIOs, and
  a peer is an address.  The copy loops would not end on a broken ring, so they are partial, and
  a failed assertion or a null dereference is \<open>None\<close> as well: a result \<open>Some\<close> says that the
  code returns.
\<close>

section \<open>The code\<close>

record bio_bio =
  peer :: "nat option"
  closed :: bool
  bb_len :: nat
  offset :: nat
  bb_size :: nat
  bb_buf :: "block option"
  request :: nat

datatype retry = No_retry | Retry_read | Retry_write

record bio =
  bio_init :: bool
  bio_shutdown :: int
  bio_flags :: retry
  bio_ptr :: "bio_bio option"

type_synonym store = "nat \<Rightarrow> bio"

text \<open>Writing back the structure of an end.\<close>

abbreviation (input) put :: "store \<Rightarrow> nat \<Rightarrow> bio_bio \<Rightarrow> store" where
  "put h a b \<equiv> h(a := (h a)\<lparr>bio_ptr := Some b\<rparr>)"

definition BIO_clear_retry_flags :: "store \<Rightarrow> nat \<Rightarrow> store" where
  "BIO_clear_retry_flags h a = h(a := (h a)\<lparr>bio_flags := No_retry\<rparr>)"

definition BIO_set_retry_read :: "store \<Rightarrow> nat \<Rightarrow> store" where
  "BIO_set_retry_read h a = h(a := (h a)\<lparr>bio_flags := Retry_read\<rparr>)"

definition BIO_set_retry_write :: "store \<Rightarrow> nat \<Rightarrow> store" where
  "BIO_set_retry_write h a = h(a := (h a)\<lparr>bio_flags := Retry_write\<rparr>)"

definition bio_new :: "malloc \<Rightarrow> bio \<Rightarrow> bool \<times> bio" where
  "bio_new m bio =
     (case OPENSSL_zalloc m 56 of
        None \<Rightarrow> (False, bio)
      | Some _ \<Rightarrow>
          (True, bio\<lparr>bio_ptr := Some \<lparr>peer = None, closed = False, bb_len = 0, offset = 0, bb_size = 17 * 1024,
                                    bb_buf = None, request = 0\<rparr>\<rparr>))"

definition bio_destroy_pair :: "store \<Rightarrow> nat \<Rightarrow> store option" where
  "bio_destroy_pair h a =
     (case bio_ptr (h a) of
        None \<Rightarrow> Some h
      | Some b \<Rightarrow>
          (case peer b of
             None \<Rightarrow> Some h
           | Some peer_bio \<Rightarrow>
               (case bio_ptr (h peer_bio) of
                  None \<Rightarrow> None
                | Some peer_b \<Rightarrow>
                    if peer peer_b \<noteq> Some a then None
                    else
                      let h = h(peer_bio := (h peer_bio)\<lparr>bio_ptr := Some (peer_b\<lparr>peer := None, bb_len := 0, offset := 0\<rparr>),
                                                         bio_init := False\<rparr>)
                      in (case bio_ptr (h a) of
                            None \<Rightarrow> None
                          | Some b \<Rightarrow>
                              Some (h(a := (h a)\<lparr>bio_ptr := Some (b\<lparr>peer := None, bb_len := 0, offset := 0\<rparr>),
                                                 bio_init := False\<rparr>))))))"

definition bio_free :: "store \<Rightarrow> nat \<Rightarrow> store option" where
  "bio_free h a =
     (case bio_ptr (h a) of
        None \<Rightarrow> None
      | Some b \<Rightarrow>
          (case (if peer b \<noteq> None then bio_destroy_pair h a else Some h) of
             None \<Rightarrow> None
           | Some h \<Rightarrow> Some (h(a := (h a)\<lparr>bio_ptr := None\<rparr>))))"

text \<open>The copy loop of a read: the bytes and the writer's structure.\<close>

partial_function (option) bio_read_loop :: "nat \<Rightarrow> byte list \<Rightarrow> bio_bio \<Rightarrow> (byte list \<times> bio_bio) option" where
  "bio_read_loop rest out peer_b =
     (case bb_buf peer_b of
        None \<Rightarrow> None
      | Some buf \<Rightarrow>
          if \<not> rest \<le> bb_len peer_b then None
          else
            let chunk = (if size_add (offset peer_b) rest \<le> bb_size peer_b then rest
                         else bb_size peer_b - offset peer_b);
                out = out @ take chunk (drop (offset peer_b) buf);
                len = bb_len peer_b - chunk;
                off = (if len \<noteq> 0
                       then (if offset peer_b + chunk = bb_size peer_b then 0 else offset peer_b + chunk) else 0);
                peer_b = peer_b\<lparr>bb_len := len, offset := off\<rparr>
            in if rest - chunk \<noteq> 0 then bio_read_loop (rest - chunk) out peer_b else Some (out, peer_b))"

text \<open>The return value, the bytes written to \<open>buf\<close>, and the store.\<close>

definition bio_read :: "store \<Rightarrow> nat \<Rightarrow> nat \<Rightarrow> (int \<times> byte list \<times> store) option" where
  "bio_read h a num =
     (let h = BIO_clear_retry_flags h a
      in if \<not> bio_init (h a) then Some (0, [], h)
         else
           (case bio_ptr (h a) of
              None \<Rightarrow> None
            | Some b \<Rightarrow>
                (case peer b of
                   None \<Rightarrow> None
                 | Some p \<Rightarrow>
                     (case bio_ptr (h p) of
                        None \<Rightarrow> None
                      | Some peer_b \<Rightarrow>
                          let peer_b = peer_b\<lparr>request := 0\<rparr>; h = put h p peer_b
                          in if num = 0 then Some (0, [], h)
                             else if bb_len peer_b = 0 then
                               if closed peer_b then Some (0, [], h)
                               else
                                 let h = BIO_set_retry_read h a;
                                     peer_b = peer_b\<lparr>request := (if num \<le> bb_size peer_b then num else bb_size peer_b)\<rparr>
                                 in Some (-1, [], put h p peer_b)
                             else
                               let num = (if bb_len peer_b < num then bb_len peer_b else num)
                               in (case bio_read_loop num [] peer_b of
                                     None \<Rightarrow> None
                                   | Some (out, peer_b) \<Rightarrow> Some (int num, out, put h p peer_b))))))"

text \<open>The copy loop of a write.\<close>

partial_function (option) bio_write_loop :: "nat \<Rightarrow> byte list \<Rightarrow> bio_bio \<Rightarrow> bio_bio option" where
  "bio_write_loop rest buf b =
     (case bb_buf b of
        None \<Rightarrow> None
      | Some data \<Rightarrow>
          if \<not> size_add (bb_len b) rest \<le> bb_size b then None
          else
            let write_offset = size_add (offset b) (bb_len b);
                write_offset = (if write_offset \<ge> bb_size b then write_offset - bb_size b else write_offset);
                chunk = (if size_add write_offset rest \<le> bb_size b then rest else bb_size b - write_offset);
                b = b\<lparr>bb_buf := Some (poke data write_offset (take chunk buf)), bb_len := bb_len b + chunk\<rparr>
            in if rest - chunk \<noteq> 0 then bio_write_loop (rest - chunk) (drop chunk buf) b else Some b)"

definition bio_write :: "store \<Rightarrow> nat \<Rightarrow> byte list \<Rightarrow> (int \<times> store) option" where
  "bio_write h a buf =
     (let h = BIO_clear_retry_flags h a; num = length buf
      in if \<not> bio_init (h a) \<or> num = 0 then Some (0, h)
         else
           (case bio_ptr (h a) of
              None \<Rightarrow> None
            | Some b \<Rightarrow>
                let b = b\<lparr>request := 0\<rparr>; h = put h a b
                in if closed b then Some (-1, h)
                   else if bb_len b = bb_size b then Some (-1, BIO_set_retry_write h a)
                   else
                     let num = (if num > bb_size b - bb_len b then bb_size b - bb_len b else num)
                     in (case bio_write_loop num (take num buf) b of
                           None \<Rightarrow> None
                         | Some b \<Rightarrow> Some (int num, put h a b))))"

text \<open>The buffer of an end that has none yet; an end whose allocation fails has its size set.\<close>

definition bio_buffer :: "malloc \<Rightarrow> nat \<Rightarrow> bio_bio \<Rightarrow> bool \<times> bio_bio" where
  "bio_buffer m writebuf_len b =
     (if bb_buf b = None then
        let b = (if writebuf_len \<noteq> 0 then b\<lparr>bb_size := writebuf_len\<rparr> else b)
        in (case OPENSSL_malloc m (bb_size b) of
              None \<Rightarrow> (False, b)
            | Some buf \<Rightarrow> (True, b\<lparr>bb_buf := Some buf, bb_len := 0, offset := 0\<rparr>))
      else (True, b))"

definition bio_make_pair :: "malloc \<Rightarrow> store \<Rightarrow> nat \<Rightarrow> nat \<Rightarrow> nat \<Rightarrow> nat \<Rightarrow> (bool \<times> store) option" where
  "bio_make_pair m h a1 a2 writebuf1_len writebuf2_len =
     (case (bio_ptr (h a1), bio_ptr (h a2)) of
        (Some b1, Some b2) \<Rightarrow>
          if peer b1 \<noteq> None \<or> peer b2 \<noteq> None then Some (False, h)
          else
            (case bio_buffer m writebuf1_len b1 of
               (False, b1) \<Rightarrow> Some (False, put h a1 b1)
             | (True, b1) \<Rightarrow>
                 let h = put h a1 b1
                 in (case bio_buffer m writebuf2_len b2 of
                       (False, b2) \<Rightarrow> Some (False, put h a2 b2)
                     | (True, b2) \<Rightarrow>
                         let b1 = b1\<lparr>peer := Some a2, closed := False, request := 0\<rparr>;
                             b2 = b2\<lparr>peer := Some a1, closed := False, request := 0\<rparr>;
                             h = h(a1 := (h a1)\<lparr>bio_ptr := Some b1, bio_init := True\<rparr>);
                             h = h(a2 := (h a2)\<lparr>bio_ptr := Some b2, bio_init := True\<rparr>)
                         in Some (True, h)))
      | _ \<Rightarrow> None)"

datatype bio_cmd =
  BIO_C_GET_WRITE_BUF_SIZE | BIO_C_GET_WRITE_GUARANTEE | BIO_C_GET_READ_REQUEST | BIO_C_RESET_READ_REQUEST
| BIO_C_SHUTDOWN_WR | BIO_CTRL_GET_CLOSE | BIO_CTRL_SET_CLOSE int | BIO_CTRL_PENDING | BIO_CTRL_WPENDING
| BIO_CTRL_FLUSH | BIO_CTRL_EOF "nat option" | BIO_CTRL_other

definition bio_ctrl :: "store \<Rightarrow> nat \<Rightarrow> bio_cmd \<Rightarrow> (int \<times> store) option" where
  "bio_ctrl h a cmd =
     (case bio_ptr (h a) of
        None \<Rightarrow> None
      | Some b \<Rightarrow>
          (case cmd of
             BIO_C_GET_WRITE_BUF_SIZE \<Rightarrow> Some (int (bb_size b), h)
           | BIO_C_GET_WRITE_GUARANTEE \<Rightarrow>
               Some (if peer b = None \<or> closed b then 0 else int (bb_size b) - int (bb_len b), h)
           | BIO_C_GET_READ_REQUEST \<Rightarrow> Some (int (request b), h)
           | BIO_C_RESET_READ_REQUEST \<Rightarrow> Some (1, put h a (b\<lparr>request := 0\<rparr>))
           | BIO_C_SHUTDOWN_WR \<Rightarrow> Some (1, put h a (b\<lparr>closed := True\<rparr>))
           | BIO_CTRL_GET_CLOSE \<Rightarrow> Some (bio_shutdown (h a), h)
           | BIO_CTRL_SET_CLOSE num \<Rightarrow> Some (1, h(a := (h a)\<lparr>bio_shutdown := num\<rparr>))
           | BIO_CTRL_PENDING \<Rightarrow>
               (case peer b of
                  None \<Rightarrow> Some (0, h)
                | Some p \<Rightarrow> (case bio_ptr (h p) of None \<Rightarrow> None | Some peer_b \<Rightarrow> Some (int (bb_len peer_b), h)))
           | BIO_CTRL_WPENDING \<Rightarrow> Some (if bb_buf b \<noteq> None then int (bb_len b) else 0, h)
           | BIO_CTRL_FLUSH \<Rightarrow> Some (1, h)
           | BIO_CTRL_EOF other_bio \<Rightarrow>
               (case other_bio of
                  None \<Rightarrow> Some (1, h)
                | Some other_bio \<Rightarrow>
                    (case bio_ptr (h other_bio) of
                       None \<Rightarrow> None
                     | Some other_b \<Rightarrow> Some (if bb_len other_b = 0 \<and> closed other_b then 1 else 0, h)))
           | BIO_CTRL_other \<Rightarrow> Some (0, h)))"

definition BIO_new :: "malloc \<Rightarrow> bio option" where
  "BIO_new m =
     (case OPENSSL_zalloc m 72 of
        None \<Rightarrow> None
      | Some _ \<Rightarrow>
          (case bio_new m \<lparr>bio_init = False, bio_shutdown = 1, bio_flags = No_retry, bio_ptr = None\<rparr> of
             (False, _) \<Rightarrow> None
           | (True, ret) \<Rightarrow> Some ret))"

text \<open>The two new BIOs are at the addresses the allocations return.  On failure both are freed,
  and the store at these addresses is no longer meaningful.\<close>

definition BIO_new_bio_pair :: "malloc \<Rightarrow> store \<Rightarrow> nat \<Rightarrow> nat \<Rightarrow> nat \<Rightarrow> nat \<Rightarrow> (bool \<times> store) option" where
  "BIO_new_bio_pair m h a1 writebuf1_len a2 writebuf2_len =
     (case (BIO_new m, BIO_new m) of
        (Some bio1, Some bio2) \<Rightarrow>
          (case bio_make_pair m (h(a1 := bio1, a2 := bio2)) a1 a2 writebuf1_len writebuf2_len of
             None \<Rightarrow> None
           | Some (False, _) \<Rightarrow> Some (False, h)
           | Some (True, h) \<Rightarrow> Some (True, h))
      | _ \<Rightarrow> Some (False, h))"

definition BIO_ctrl_get_read_request :: "store \<Rightarrow> nat \<Rightarrow> (int \<times> store) option" where
  "BIO_ctrl_get_read_request h a = bio_ctrl h a BIO_C_GET_READ_REQUEST"

definition BIO_ctrl_get_write_guarantee :: "store \<Rightarrow> nat \<Rightarrow> (int \<times> store) option" where
  "BIO_ctrl_get_write_guarantee h a = bio_ctrl h a BIO_C_GET_WRITE_GUARANTEE"

definition BIO_shutdown_wr :: "store \<Rightarrow> nat \<Rightarrow> (int \<times> store) option" where
  "BIO_shutdown_wr h a = bio_ctrl h a BIO_C_SHUTDOWN_WR"

section \<open>Ring buffers\<close>

lemma nth_poke:
  "off + length d \<le> length buf \<Longrightarrow> k < length buf \<Longrightarrow>
   poke buf off d ! k = (if off \<le> k \<and> k < off + length d then d ! (k - off) else buf ! k)"
  by (auto simp: poke_def nth_append)

text \<open>The invariant of a ring buffer and the bytes in it; a size fits in an \<open>int\<close>.\<close>

definition ring_ok :: "bio_bio \<Rightarrow> bool" where
  "ring_ok b \<longleftrightarrow> (case bb_buf b of None \<Rightarrow> False | Some buf \<Rightarrow> length buf = bb_size b) \<and>
     bb_size b \<le> INT_MAX \<and> bb_len b \<le> bb_size b \<and> offset b < bb_size b \<and> (bb_len b = 0 \<longrightarrow> offset b = 0)"

definition ring_at :: "bio_bio \<Rightarrow> nat \<Rightarrow> nat" where
  "ring_at b i = (if offset b + i < bb_size b then offset b + i else offset b + i - bb_size b)"

definition ring_contents :: "bio_bio \<Rightarrow> byte list" where
  "ring_contents b = map (\<lambda>i. the (bb_buf b) ! ring_at b i) [0..<bb_len b]"

lemma length_contents [simp]: "length (ring_contents b) = bb_len b"
  by (simp add: ring_contents_def)

lemma nth_contents [simp]: "i < bb_len b \<Longrightarrow> ring_contents b ! i = the (bb_buf b) ! ring_at b i"
  by (simp add: ring_contents_def)

lemma ring_fields [simp]:
  "ring_ok (b\<lparr>request := r\<rparr>) = ring_ok b" "ring_contents (b\<lparr>request := r\<rparr>) = ring_contents b"
  "ring_ok (b\<lparr>closed := c\<rparr>) = ring_ok b" "ring_contents (b\<lparr>closed := c\<rparr>) = ring_contents b"
  by (cases "bb_buf b"; simp add: ring_ok_def ring_contents_def ring_at_def)+

lemma ring_buf:
  assumes "ring_ok b"
  obtains buf where "bb_buf b = Some buf" "length buf = bb_size b"
  using assms by (auto simp: ring_ok_def split: option.splits)

text \<open>Taking bytes off the front without wrapping around.\<close>

lemma ring_take:
  assumes ok: "ring_ok b" and buf: "bb_buf b = Some buf" and n: "n \<le> bb_len b" "offset b + n \<le> bb_size b"
  defines "b' \<equiv> b\<lparr>bb_len := bb_len b - n,
      offset := if bb_len b - n \<noteq> 0 then (if offset b + n = bb_size b then 0 else offset b + n) else 0\<rparr>"
  shows "take n (drop (offset b) buf) = take n (ring_contents b)" "ring_ok b'" "ring_contents b' = drop n (ring_contents b)"
proof -
  have len: "length buf = bb_size b" "bb_len b \<le> bb_size b" "offset b < bb_size b" using ok buf by (auto simp: ring_ok_def)
  show "take n (drop (offset b) buf) = take n (ring_contents b)"
    using n len buf by (intro nth_equalityI) (auto simp: ring_at_def)
  show "ring_ok b'" using ok n buf by (auto simp: ring_ok_def b'_def)
  have wrap: "offset b + (n + i) - bb_size b = i" if "offset b + n = bb_size b" for i using that by linarith
  show "ring_contents b' = drop n (ring_contents b)"
    using n len buf by (intro nth_equalityI) (auto simp: b'_def ring_at_def add.assoc wrap)
qed

text \<open>Adding bytes at the end without wrapping around.\<close>

lemma ring_append:
  assumes ok: "ring_ok b" and buf: "bb_buf b = Some buf" and n: "0 < length d" "bb_len b + length d \<le> bb_size b"
    and w: "ring_at b (bb_len b) + length d \<le> bb_size b"
  defines "b' \<equiv> b\<lparr>bb_buf := Some (poke buf (ring_at b (bb_len b)) d), bb_len := bb_len b + length d\<rparr>"
  shows "ring_ok b'" "ring_contents b' = ring_contents b @ d"
proof -
  have len: "length buf = bb_size b" "offset b < bb_size b" using ok buf by (auto simp: ring_ok_def)
  show "ring_ok b'" using ok n w len by (auto simp: ring_ok_def b'_def)
  show "ring_contents b' = ring_contents b @ d"
  proof (rule nth_equalityI)
    fix i assume i: "i < length (ring_contents b')"
    then have at: "ring_at b' i = ring_at b i" "ring_at b i < length buf" using n len by (auto simp: ring_at_def b'_def)
    have "poke buf (ring_at b (bb_len b)) d ! ring_at b i = (ring_contents b @ d) ! i"
    proof (cases "i < bb_len b")
      case True
      then have "\<not> (ring_at b (bb_len b) \<le> ring_at b i \<and> ring_at b i < ring_at b (bb_len b) + length d)"
        using n w len by (auto simp: ring_at_def)
      then show ?thesis using True at(2) w len buf by (auto simp: nth_poke nth_append)
    next
      case False
      then obtain k where k: "i = bb_len b + k" "k < length d" using i by (auto simp: b'_def dest: le_Suc_ex simp: not_less)
      then have "ring_at b i = ring_at b (bb_len b) + k" using n w len by (auto simp: ring_at_def)
      then show ?thesis using k at(2) w len by (simp add: nth_poke nth_append)
    qed
    then show "ring_contents b' ! i = (ring_contents b @ d) ! i" using i at by (simp add: b'_def)
  qed (simp add: b'_def)
qed

text \<open>The copy loops return, after one round or two.\<close>

abbreviation (input) same_fields :: "bio_bio \<Rightarrow> bio_bio \<Rightarrow> bool" where
  "same_fields a b \<equiv> peer a = peer b \<and> closed a = closed b \<and> bb_size a = bb_size b \<and> request a = request b"

lemma read_loop_straight:
  assumes "ring_ok b" "0 < n" "n \<le> bb_len b" "offset b + n \<le> bb_size b"
  shows "\<exists>b'. bio_read_loop n out b = Some (out @ take n (ring_contents b), b') \<and>
    ring_ok b' \<and> ring_contents b' = drop n (ring_contents b) \<and> same_fields b' b"
proof -
  obtain buf where buf: "bb_buf b = Some buf" by (rule ring_buf [OF assms(1)])
  have "size_add (offset b) n = offset b + n" using assms by (intro size_add_nowrap) (auto simp: ring_ok_def)
  moreover define b' where "b' = b\<lparr>bb_len := bb_len b - n,
      offset := if bb_len b - n \<noteq> 0 then (if offset b + n = bb_size b then 0 else offset b + n) else 0\<rparr>"
  ultimately have "bio_read_loop n out b = Some (out @ take n (drop (offset b) buf), b')"
    using assms by (subst bio_read_loop.simps) (simp add: buf Let_def)
  then show ?thesis using ring_take [OF assms(1) buf assms(3,4), folded b'_def] by (simp add: b'_def)
qed

lemma read_loop:
  assumes "ring_ok b" "0 < n" "n \<le> bb_len b"
  shows "\<exists>b'. bio_read_loop n [] b = Some (take n (ring_contents b), b') \<and>
    ring_ok b' \<and> ring_contents b' = drop n (ring_contents b) \<and> same_fields b' b"
proof (cases "offset b + n \<le> bb_size b")
  case True
  then show ?thesis using read_loop_straight [OF assms, of "[]"] by simp
next
  case False
  obtain buf where buf: "bb_buf b = Some buf" by (rule ring_buf [OF assms(1)])
  have r: "offset b < bb_size b" "bb_len b \<le> bb_size b" "bb_size b \<le> INT_MAX" using assms(1) by (simp_all add: ring_ok_def)
  define c where "c = bb_size b - offset b"
  have c: "0 < c" "c < n" "c \<le> bb_len b" "offset b + c = bb_size b" using False assms(2,3) r by (auto simp: c_def)
  define b1 where "b1 = b\<lparr>bb_len := bb_len b - c, offset := if bb_len b - c \<noteq> 0 then (if offset b + c = bb_size b then 0 else offset b + c) else 0\<rparr>"
  note t = ring_take [OF assms(1) buf c(3) eq_refl [OF c(4)], folded b1_def]
  have "size_add (offset b) n = offset b + n" using r assms(3) by (intro size_add_nowrap) simp
  then have step: "bio_read_loop n [] b = bio_read_loop (n - c) (take c (ring_contents b)) b1"
    using False c assms(3) t(1) by (subst bio_read_loop.simps) (simp add: buf Let_def b1_def c_def [symmetric])
  have "0 < n - c" "n - c \<le> bb_len b1" "offset b1 + (n - c) \<le> bb_size b1"
    using c assms(3) r by (auto simp: b1_def)
  from read_loop_straight [OF t(2) this, of "take c (ring_contents b)"]
  obtain b' where b': "bio_read_loop (n - c) (take c (ring_contents b)) b1 = Some (take c (ring_contents b) @ take (n - c) (ring_contents b1), b')"
      "ring_ok b'" "ring_contents b' = drop (n - c) (ring_contents b1)" "same_fields b' b1" by blast
  have "take c (ring_contents b) @ take (n - c) (ring_contents b1) = take n (ring_contents b)"
    using c(2) take_add [of c "n - c" "ring_contents b"] by (simp add: t(3))
  moreover have "drop (n - c) (ring_contents b1) = drop n (ring_contents b)" using c(2) by (simp add: t(3))
  moreover have "same_fields b1 b" by (simp add: b1_def)
  ultimately show ?thesis using step b' by auto
qed

lemma write_loop_straight:
  assumes "ring_ok b" "0 < length d" "bb_len b + length d \<le> bb_size b" "ring_at b (bb_len b) + length d \<le> bb_size b"
  shows "\<exists>b'. bio_write_loop (length d) d b = Some b' \<and> ring_ok b' \<and> ring_contents b' = ring_contents b @ d \<and> same_fields b' b"
proof -
  obtain buf where buf: "bb_buf b = Some buf" by (rule ring_buf [OF assms(1)])
  have r: "offset b < bb_size b" "bb_size b \<le> INT_MAX" using assms(1) by (simp_all add: ring_ok_def)
  have s: "size_add (bb_len b) (length d) = bb_len b + length d" "size_add (offset b) (bb_len b) = offset b + bb_len b"
    "size_add (ring_at b (bb_len b)) (length d) = ring_at b (bb_len b) + length d"
    using r assms(3,4) by (auto intro: size_add_nowrap)
  have at: "(if bb_size b \<le> offset b + bb_len b then offset b + bb_len b - bb_size b else offset b + bb_len b) = ring_at b (bb_len b)"
    by (auto simp: ring_at_def)
  show ?thesis using ring_append [OF assms(1) buf assms(2-4)] assms
    by (subst bio_write_loop.simps) (simp add: buf Let_def s at)
qed

lemma write_loop:
  assumes "ring_ok b" "0 < length d" "bb_len b + length d \<le> bb_size b"
  shows "\<exists>b'. bio_write_loop (length d) d b = Some b' \<and> ring_ok b' \<and> ring_contents b' = ring_contents b @ d \<and> same_fields b' b"
proof (cases "ring_at b (bb_len b) + length d \<le> bb_size b")
  case True
  then show ?thesis using write_loop_straight [OF assms] by simp
next
  case False
  obtain buf where buf: "bb_buf b = Some buf" "length buf = bb_size b" by (rule ring_buf [OF assms(1)])
  have r: "offset b < bb_size b" "bb_size b \<le> INT_MAX" using assms(1) by (simp_all add: ring_ok_def)
  have wo: "offset b + bb_len b < bb_size b" using False assms(3) r by (auto simp: ring_at_def split: if_splits)
  define c where "c = bb_size b - (offset b + bb_len b)"
  have c: "0 < c" "c < length d" "offset b + bb_len b + c = bb_size b" using False wo by (auto simp: c_def ring_at_def)
  have at: "ring_at b (bb_len b) = offset b + bb_len b" using wo by (simp add: ring_at_def)
  define b1 where "b1 = b\<lparr>bb_buf := Some (poke buf (ring_at b (bb_len b)) (take c d)), bb_len := bb_len b + length (take c d)\<rparr>"
  have "ring_ok b1 \<and> ring_contents b1 = ring_contents b @ take c d"
    unfolding b1_def using ring_append [OF assms(1) buf(1), of "take c d"] c assms(3) at by simp
  then have b1: "ring_ok b1" "ring_contents b1 = ring_contents b @ take c d" by simp_all
  have s: "size_add (bb_len b) (length d) = bb_len b + length d" "size_add (offset b) (bb_len b) = offset b + bb_len b"
    "size_add (offset b + bb_len b) (length d) = offset b + bb_len b + length d"
    using r wo assms(3) by (auto intro: size_add_nowrap)
  have step: "bio_write_loop (length d) d b = bio_write_loop (length d - c) (drop c d) b1"
    using c wo assms(3) by (subst bio_write_loop.simps) (simp add: buf Let_def s b1_def at c_def [symmetric])
  have "0 < length (drop c d)" "bb_len b1 + length (drop c d) \<le> bb_size b1"
    "ring_at b1 (bb_len b1) + length (drop c d) \<le> bb_size b1"
    using c assms(3) by (auto simp: b1_def ring_at_def)
  from write_loop_straight [OF b1(1) this]
  obtain b' where "bio_write_loop (length d - c) (drop c d) b1 = Some b'" "ring_ok b'"
      "ring_contents b' = ring_contents b1 @ drop c d" "same_fields b' b1" by auto
  then show ?thesis using step b1(2) by (auto simp: b1_def)
qed

section \<open>Pairs\<close>

definition sent :: "store \<Rightarrow> nat \<Rightarrow> byte list" where
  "sent h a = ring_contents (the (bio_ptr (h a)))"

definition paired :: "nat \<Rightarrow> nat \<Rightarrow> store \<Rightarrow> bool" where
  "paired a b h \<longleftrightarrow> a \<noteq> b \<and> bio_init (h a) \<and> bio_init (h b) \<and>
     (case (bio_ptr (h a), bio_ptr (h b)) of
        (Some x, Some y) \<Rightarrow> peer x = Some b \<and> peer y = Some a \<and> ring_ok x \<and> ring_ok y
      | _ \<Rightarrow> False)"

lemma paired_sym: "paired a b h \<Longrightarrow> paired b a h"
  by (auto simp: paired_def split: option.splits)

lemma pairedE:
  assumes "paired a b h"
  obtains x y where "bio_ptr (h a) = Some x" "bio_ptr (h b) = Some y" "peer x = Some b" "peer y = Some a"
    "ring_ok x" "ring_ok y" "a \<noteq> b" "bio_init (h a)" "bio_init (h b)"
  using assms by (auto simp: paired_def split: option.splits)

text \<open>What a write does, for every state of the writer.\<close>

lemma pair_write:
  fixes bs :: "byte list"
  assumes p: "paired a b h" and x: "bio_ptr (h a) = Some x"
  defines "r \<equiv> if bs = [] then 0 else if closed x \<or> bb_len x = bb_size x then -1 else int (min (length bs) (bb_size x - bb_len x))"
  shows "\<exists>h'. bio_write h a bs = Some (r, h') \<and> paired a b h' \<and> sent h' a = sent h a @ take (nat r) bs \<and> sent h' b = sent h b \<and>
    (bio_flags (h' a) = Retry_write \<longleftrightarrow> bs \<noteq> [] \<and> \<not> closed x \<and> bb_len x = bb_size x)"
proof -
  obtain y where y: "bio_ptr (h b) = Some y" "peer x = Some b" "peer y = Some a" "ring_ok x" "ring_ok y" "a \<noteq> b"
      "bio_init (h a)" "bio_init (h b)"
    using pairedE [OF p] x by (metis option.inject)
  let ?x = "x\<lparr>request := 0\<rparr>"
  have okx: "ring_ok ?x" "ring_contents ?x = ring_contents x"
    using y(4) by simp_all
  show ?thesis
  proof (cases "bs = [] \<or> closed x \<or> bb_len x = bb_size x")
    case True
    then show ?thesis using x y okx
      by (auto simp: bio_write_def Let_def BIO_clear_retry_flags_def BIO_set_retry_write_def paired_def sent_def r_def)
  next
    case False
    define n where "n = min (length bs) (bb_size x - bb_len x)"
    have le: "bb_len x \<le> bb_size x" using y(4) by (simp add: ring_ok_def)
    have n: "0 < length (take n bs)" "length (take n bs) = n" "bb_len ?x + length (take n bs) \<le> bb_size ?x"
      using False le by (auto simp: n_def)
    obtain x' where x': "bio_write_loop n (take n bs) ?x = Some x'" "ring_ok x'" "ring_contents x' = ring_contents x @ take n bs"
        "same_fields x' ?x"
      using write_loop [OF okx(1) n(1,3)] n(2) okx(2) by auto
    have m: "(if length bs > bb_size x - bb_len x then bb_size x - bb_len x else length bs) = n" by (auto simp: n_def)
    show ?thesis using False x y x' m
      by (auto simp: bio_write_def Let_def BIO_clear_retry_flags_def paired_def sent_def r_def n_def [symmetric])
  qed
qed

text \<open>What a read does, for every state of the writer.\<close>

lemma pair_read:
  fixes n :: nat
  assumes p: "paired a b h" and x: "bio_ptr (h a) = Some x"
  defines "r \<equiv> if n = 0 then 0 else if bb_len x = 0 then (if closed x then 0 else -1) else int (min n (bb_len x))"
  shows "\<exists>out h'. bio_read h b n = Some (r, out, h') \<and> paired a b h' \<and> length out = nat r \<and>
    sent h a = out @ sent h' a \<and> sent h' b = sent h b \<and>
    (bio_flags (h' b) = Retry_read \<longleftrightarrow> n \<noteq> 0 \<and> \<not> closed x \<and> bb_len x = 0) \<and>
    request (the (bio_ptr (h' a))) = (if n \<noteq> 0 \<and> \<not> closed x \<and> bb_len x = 0 then min n (bb_size x) else 0)"
proof -
  obtain y where y: "bio_ptr (h b) = Some y" "peer x = Some b" "peer y = Some a" "ring_ok x" "ring_ok y" "a \<noteq> b"
      "bio_init (h a)" "bio_init (h b)"
    using pairedE [OF p] x by (metis option.inject)
  show ?thesis
  proof (cases "n = 0 \<or> bb_len x = 0")
    case True
    then show ?thesis using x y
      by (auto simp: bio_read_def Let_def BIO_clear_retry_flags_def BIO_set_retry_read_def paired_def sent_def r_def min_def)
  next
    case False
    define k where "k = min n (bb_len x)"
    have k: "0 < k" "k \<le> bb_len (x\<lparr>request := 0\<rparr>)" using False by (auto simp: k_def)
    obtain x' where x': "bio_read_loop k [] (x\<lparr>request := 0\<rparr>) = Some (take k (ring_contents x), x')" "ring_ok x'"
        "ring_contents x' = drop k (ring_contents x)" "same_fields x' (x\<lparr>request := 0\<rparr>)"
      using read_loop [OF _ k] y(4) by auto
    have m: "(if bb_len x < n then bb_len x else n) = k" by (auto simp: k_def)
    show ?thesis using False x y x' m k
      by (auto simp: bio_read_def Let_def BIO_clear_retry_flags_def paired_def sent_def r_def k_def [symmetric])
  qed
qed

text \<open>The contract of a two-way byte channel.  A direction is a truth value; a send appends the
  bytes it reports to what is on its way, a receive takes its result off the front, and neither
  touches the other direction.\<close>

locale duplex =
  fixes ok :: "'s \<Rightarrow> bool" and pending :: "'s \<Rightarrow> bool \<Rightarrow> 'x list"
    and send :: "'s \<Rightarrow> bool \<Rightarrow> 'x list \<Rightarrow> (int \<times> 's) option"
    and recv :: "'s \<Rightarrow> bool \<Rightarrow> nat \<Rightarrow> (int \<times> 'x list \<times> 's) option"
  assumes send_law: "ok s \<Longrightarrow> \<exists>r s'. send s d xs = Some (r, s') \<and> ok s' \<and>
      pending s' d = pending s d @ take (nat r) xs \<and> pending s' (\<not> d) = pending s (\<not> d)"
    and recv_law: "ok s \<Longrightarrow> \<exists>r out s'. recv s d n = Some (r, out, s') \<and> ok s' \<and> length out = nat r \<and>
      pending s d = out @ pending s' d \<and> pending s' (\<not> d) = pending s (\<not> d)"

text \<open>A program that uses both ends: what the sends accepted and the receives returned, by
  direction.\<close>

datatype 'x io = Send bool "'x list" | Recv bool nat

fun run_io ::
  "('s \<Rightarrow> bool \<Rightarrow> 'x list \<Rightarrow> (int \<times> 's) option) \<Rightarrow> ('s \<Rightarrow> bool \<Rightarrow> nat \<Rightarrow> (int \<times> 'x list \<times> 's) option) \<Rightarrow>
   's \<Rightarrow> 'x io list \<Rightarrow> ((bool \<Rightarrow> 'x list) \<times> (bool \<Rightarrow> 'x list) \<times> 's) option" where
  "run_io send recv s [] = Some (\<lambda>_. [], \<lambda>_. [], s)"
| "run_io send recv s (Send d xs # ops) =
     (case send s d xs of
        None \<Rightarrow> None
      | Some (r, s) \<Rightarrow>
          map_option (\<lambda>(acc, rec, s). (acc(d := take (nat r) xs @ acc d), rec, s)) (run_io send recv s ops))"
| "run_io send recv s (Recv d n # ops) =
     (case recv s d n of
        None \<Rightarrow> None
      | Some (r, out, s) \<Rightarrow>
          map_option (\<lambda>(acc, rec, s). (acc, rec(d := take (nat r) out @ rec d), s)) (run_io send recv s ops))"

context duplex
begin

lemma stream:
  assumes "ok s"
  shows "\<exists>acc rec s'. run_io send recv s ops = Some (acc, rec, s') \<and> ok s' \<and>
    (\<forall>d. pending s d @ acc d = rec d @ pending s' d)"
  using assms
proof (induction ops arbitrary: s)
  case (Cons op ops)
  show ?case
  proof (cases op)
    case (Send d xs)
    obtain r s1 where s1: "send s d xs = Some (r, s1)" "ok s1" "pending s1 d = pending s d @ take (nat r) xs"
        "pending s1 (\<not> d) = pending s (\<not> d)" using send_law [OF Cons.prems] by blast
    obtain acc rec s' where run: "run_io send recv s1 ops = Some (acc, rec, s')" "ok s'"
        "\<And>e. pending s1 e @ acc e = rec e @ pending s' e" using Cons.IH [OF s1(2)] by blast
    have "pending s e @ (acc(d := take (nat r) xs @ acc d)) e = rec e @ pending s' e" for e
      using run(3) [of e] s1(3,4) by (cases "e = d") auto
    then show ?thesis using Send s1(1) run(1,2) by auto
  next
    case (Recv d n)
    obtain r out s1 where s1: "recv s d n = Some (r, out, s1)" "ok s1" "length out = nat r" "pending s d = out @ pending s1 d"
        "pending s1 (\<not> d) = pending s (\<not> d)" using recv_law [OF Cons.prems] by blast
    obtain acc rec s' where run: "run_io send recv s1 ops = Some (acc, rec, s')" "ok s'"
        "\<And>e. pending s1 e @ acc e = rec e @ pending s' e" using Cons.IH [OF s1(2)] by blast
    have "pending s e @ acc e = (rec(d := take (nat r) out @ rec d)) e @ pending s' e" for e
      using run(3) [of e] s1(3-5) by (cases "e = d") auto
    then show ?thesis using Recv s1(1) run(1,2) by auto
  qed
qed simp

end

abbreviation (input) pair_send :: "nat \<Rightarrow> nat \<Rightarrow> store \<Rightarrow> bool \<Rightarrow> byte list \<Rightarrow> (int \<times> store) option" where
  "pair_send a b h d \<equiv> bio_write h (if d then a else b)"

abbreviation (input) pair_recv :: "nat \<Rightarrow> nat \<Rightarrow> store \<Rightarrow> bool \<Rightarrow> nat \<Rightarrow> (int \<times> byte list \<times> store) option" where
  "pair_recv a b h d \<equiv> bio_read h (if d then b else a)"

interpretation pair: duplex "paired a b" "\<lambda>h d. sent h (if d then a else b)" "pair_send a b" "pair_recv a b" for a b
proof
  fix h d xs n
  assume p: "paired a b h"
  note q = paired_sym [OF p]
  obtain x y where x: "bio_ptr (h a) = Some x" and y: "bio_ptr (h b) = Some y" using pairedE [OF p] by blast
  show "\<exists>r h'. pair_send a b h d xs = Some (r, h') \<and> paired a b h' \<and>
      sent h' (if d then a else b) = sent h (if d then a else b) @ take (nat r) xs \<and>
      sent h' (if \<not> d then a else b) = sent h (if \<not> d then a else b)"
    using pair_write [OF p x, of xs] pair_write [OF q y, of xs] by (cases d) (auto dest: paired_sym)
  show "\<exists>r out h'. pair_recv a b h d n = Some (r, out, h') \<and> paired a b h' \<and> length out = nat r \<and>
      sent h (if d then a else b) = out @ sent h' (if d then a else b) \<and>
      sent h' (if \<not> d then a else b) = sent h (if \<not> d then a else b)"
    using pair_read [OF p x, of n] pair_read [OF q y, of n] by (cases d) (auto dest: paired_sym)
qed

lemma bio_buffer_ok:
  assumes "malloc_ok m" "bio_buffer m n b = (True, b')" "bb_buf b = None" "n \<le> INT_MAX" "0 < bb_size b" "bb_size b \<le> INT_MAX"
  shows "ring_ok b' \<and> ring_contents b' = [] \<and> bb_size b' = (if n = 0 then bb_size b else n)"
  using assms OPENSSL_malloc_length [OF assms(1)]
  by (auto simp: bio_buffer_def ring_ok_def ring_contents_def Let_def split: if_splits option.splits)

lemma new_pair:
  assumes "malloc_ok m" "a \<noteq> b" "n1 \<le> INT_MAX" "n2 \<le> INT_MAX" "BIO_new_bio_pair m h a n1 b n2 = Some (True, h')"
  shows "paired a b h' \<and> sent h' a = [] \<and> sent h' b = []"
proof -
  define e where "e = \<lparr>peer = None, closed = False, bb_len = 0, offset = 0, bb_size = 17 * 1024, bb_buf = None, request = 0\<rparr>"
  obtain bio1 bio2 where n: "BIO_new m = Some bio1" "BIO_new m = Some bio2"
    using assms(5) by (auto simp: BIO_new_bio_pair_def split: option.splits)
  then have p: "bio_ptr bio1 = Some e" "bio_ptr bio2 = Some e"
    by (auto simp: BIO_new_def bio_new_def e_def split: option.splits)
  have mk: "bio_make_pair m (h(a := bio1, b := bio2)) a b n1 n2 = Some (True, h')"
    using assms(5) n by (auto simp: BIO_new_bio_pair_def split: option.splits bool.splits)
  have e: "bb_buf e = None" "0 < bb_size e" "bb_size e \<le> INT_MAX" "peer e = None" by (simp_all add: e_def)
  obtain x y where xy: "bio_buffer m n1 e = (True, x)" "bio_buffer m n2 e = (True, y)"
    using mk p assms(2) e(4) by (auto simp: bio_make_pair_def Let_def split: prod.splits bool.splits)
  note x = bio_buffer_ok [OF assms(1) xy(1) e(1) assms(3) e(2,3)] and y = bio_buffer_ok [OF assms(1) xy(2) e(1) assms(4) e(2,3)]
  have ends: "ring_ok (z\<lparr>peer := q\<rparr>) = ring_ok z" "ring_contents (z\<lparr>peer := q\<rparr>) = ring_contents z" for z q
    by (cases "bb_buf z"; simp add: ring_ok_def ring_contents_def ring_at_def)+
  show ?thesis using mk p assms(2) e(4) xy x y by (auto simp: bio_make_pair_def Let_def paired_def sent_def ends)
qed

section \<open>Properties\<close>

text \<open>C5.  A new pair is two byte streams.  Whatever the sequence of writes and reads at the two
  ends, every call returns, no assertion fails, and in each direction the bytes the writes
  accepted are the bytes the reads returned, in order, followed by those still in the buffer.\<close>

theorem pair_is_two_streams:
  assumes "malloc_ok m" "a \<noteq> b" "n1 \<le> INT_MAX" "n2 \<le> INT_MAX" "BIO_new_bio_pair m h a n1 b n2 = Some (True, h')"
  shows "\<exists>acc rec h''. run_io (pair_send a b) (pair_recv a b) h' ops = Some (acc, rec, h'') \<and> paired a b h'' \<and>
    acc True = rec True @ sent h'' a \<and> acc False = rec False @ sent h'' b"
proof -
  note n = new_pair [OF assms]
  then have p: "paired a b h'" by simp
  from pair.stream [OF p, of ops]
  obtain acc rec h'' where run: "run_io (pair_send a b) (pair_recv a b) h' ops = Some (acc, rec, h'')" "paired a b h''"
      "\<And>d. sent h' (if d then a else b) @ acc d = rec d @ sent h'' (if d then a else b)" by blast
  show ?thesis using run(1,2) run(3) [of True] run(3) [of False] n by simp
qed

text \<open>C35.  The results of the calls.  A write takes as many bytes as there is room for, fails with
  a retry flag when there is none, and fails without one after \<open>BIO_shutdown_wr\<close>.  A read
  returns as many bytes as there are; when there are none it reports the end of the stream if
  the writer is closed, and otherwise asks for a retry and leaves the number of bytes it wanted
  for the writer, up to the size of the buffer.\<close>

theorem pair_results:
  assumes "paired a b h" and "bio_ptr (h a) = Some x"
  shows "(\<exists>h'. bio_write h a bs =
        Some (if bs = [] then 0 else if closed x \<or> bb_len x = bb_size x then -1
              else int (min (length bs) (bb_size x - bb_len x)), h') \<and>
      (bio_flags (h' a) = Retry_write \<longleftrightarrow> bs \<noteq> [] \<and> \<not> closed x \<and> bb_len x = bb_size x)) \<and>
    (\<exists>out h'. bio_read h b n =
        Some (if n = 0 then 0 else if bb_len x = 0 then (if closed x then 0 else -1) else int (min n (bb_len x)), out, h') \<and>
      (bio_flags (h' b) = Retry_read \<longleftrightarrow> n \<noteq> 0 \<and> \<not> closed x \<and> bb_len x = 0) \<and>
      (n \<noteq> 0 \<and> \<not> closed x \<and> bb_len x = 0 \<longrightarrow>
         BIO_ctrl_get_read_request h' a = Some (int (min n (bb_size x)), h'))) \<and>
    (\<exists>h'. BIO_shutdown_wr h a = Some (1, h') \<and> paired a b h' \<and> sent h' a = sent h a \<and>
       (bs \<noteq> [] \<longrightarrow> (\<exists>h''. bio_write h' a bs = Some (-1, h''))))"
proof (intro conjI)
  show "\<exists>h'. bio_write h a bs =
        Some (if bs = [] then 0 else if closed x \<or> bb_len x = bb_size x then -1
              else int (min (length bs) (bb_size x - bb_len x)), h') \<and>
      (bio_flags (h' a) = Retry_write \<longleftrightarrow> bs \<noteq> [] \<and> \<not> closed x \<and> bb_len x = bb_size x)"
    using pair_write [OF assms, of bs] by blast
  obtain out h' where r: "bio_read h b n =
        Some (if n = 0 then 0 else if bb_len x = 0 then (if closed x then 0 else -1) else int (min n (bb_len x)), out, h')"
      "bio_flags (h' b) = Retry_read \<longleftrightarrow> n \<noteq> 0 \<and> \<not> closed x \<and> bb_len x = 0" "paired a b h'"
      "request (the (bio_ptr (h' a))) = (if n \<noteq> 0 \<and> \<not> closed x \<and> bb_len x = 0 then min n (bb_size x) else 0)"
    using pair_read [OF assms, of n] by blast
  have "BIO_ctrl_get_read_request h' a = Some (int (request (the (bio_ptr (h' a)))), h')"
    using pairedE [OF r(3)] by (auto simp: BIO_ctrl_get_read_request_def bio_ctrl_def split: option.splits)
  then show "\<exists>out h'. bio_read h b n =
        Some (if n = 0 then 0 else if bb_len x = 0 then (if closed x then 0 else -1) else int (min n (bb_len x)), out, h') \<and>
      (bio_flags (h' b) = Retry_read \<longleftrightarrow> n \<noteq> 0 \<and> \<not> closed x \<and> bb_len x = 0) \<and>
      (n \<noteq> 0 \<and> \<not> closed x \<and> bb_len x = 0 \<longrightarrow> BIO_ctrl_get_read_request h' a = Some (int (min n (bb_size x)), h'))"
    using r by (intro exI [of _ out] exI [of _ h']) auto
  define hs where "hs = h(a := (h a)\<lparr>bio_ptr := Some (x\<lparr>closed := True\<rparr>)\<rparr>)"
  have s: "BIO_shutdown_wr h a = Some (1, hs)" using assms(2) by (simp add: BIO_shutdown_wr_def bio_ctrl_def hs_def)
  have ps: "paired a b hs" "sent hs a = sent h a" using assms by (auto simp: paired_def sent_def hs_def split: option.splits)
  have xs: "bio_ptr (hs a) = Some (x\<lparr>closed := True\<rparr>)" by (simp add: hs_def)
  show "\<exists>h'. BIO_shutdown_wr h a = Some (1, h') \<and> paired a b h' \<and> sent h' a = sent h a \<and>
       (bs \<noteq> [] \<longrightarrow> (\<exists>h''. bio_write h' a bs = Some (-1, h'')))"
    using s ps pair_write [OF ps(1) xs, of bs] by (intro exI [of _ hs]) auto
qed

text \<open>A pair with buffers of four bytes.\<close>

lemma small_pair:
  "\<exists>h'. BIO_new_bio_pair (\<lambda>n. Some (replicate n 0)) h 0 4 1 4 = Some (True, h') \<and>
    (\<exists>x. bio_ptr (h' 0) = Some x \<and> bb_len x = 0 \<and> bb_size x = 4 \<and> \<not> closed x)"
  by (simp add: BIO_new_bio_pair_def BIO_new_def bio_new_def bio_make_pair_def bio_buffer_def OPENSSL_zalloc_def
      OPENSSL_malloc_def size_add_def Let_def)

definition no_bios :: store where
  "no_bios = (\<lambda>_. \<lparr>bio_init = False, bio_shutdown = 0, bio_flags = No_retry, bio_ptr = None\<rparr>)"

lemma replicate_malloc_ok: "malloc_ok (\<lambda>n. Some (replicate n 0))"
  by (simp add: malloc_ok_def)

lemma pair_is_two_streams_witness:
  "\<exists>h' acc rec h''. BIO_new_bio_pair (\<lambda>n. Some (replicate n 0)) no_bios 0 4 1 4 = Some (True, h') \<and>
     run_io (pair_send 0 1) (pair_recv 0 1) h' [Send True [1, 2, 3], Recv True 2, Send True [4, 5, 6], Recv True 9] = Some (acc, rec, h'') \<and>
     acc True = rec True @ sent h'' 0"
proof -
  obtain h' where h': "BIO_new_bio_pair (\<lambda>n. Some (replicate n 0)) no_bios 0 4 1 4 = Some (True, h')"
    using small_pair by blast
  show ?thesis
    using pair_is_two_streams [OF replicate_malloc_ok _ _ _ h', of "[Send True [1, 2, 3], Recv True 2, Send True [4, 5, 6], Recv True 9]"] h'
    by auto
qed

lemma pair_results_witness:
  "\<exists>h'. BIO_new_bio_pair (\<lambda>n. Some (replicate n 0)) no_bios 0 4 1 4 = Some (True, h') \<and>
     (\<exists>h''. bio_write h' 0 [1, 2, 3, 4, 5, 6] = Some (4, h'')) \<and> (\<exists>out h''. bio_read h' 1 9 = Some (-1, out, h''))"
proof -
  obtain h' x where h': "BIO_new_bio_pair (\<lambda>n. Some (replicate n 0)) no_bios 0 4 1 4 = Some (True, h')"
    and x: "bio_ptr (h' 0) = Some x" "bb_len x = 0" "bb_size x = 4" "\<not> closed x"
    using small_pair by blast
  have "paired 0 1 h'" using new_pair [OF replicate_malloc_ok _ _ _ h'] by simp
  from pair_results [OF this x(1), of "[1, 2, 3, 4, 5, 6]" 9] show ?thesis using h' x by auto
qed

end
