(* ===== verification/Pb_Fields.thy ===== *)
theory Pb_Fields
  imports Prelude
begin

text \<open>
  Field descriptors of nanopb, \<open>nanopb/pb.h\<close>, and the iteration over them, \<open>nanopb/pb_common.c\<close>.
  An array of descriptors is the list of them with its terminator, and a position in it an index.
  Addresses of the message struct are integers, with 0 for the null pointer.  A position outside
  the array gives \<open>None\<close>.  The build sets \<open>PB_FIELD_32BIT\<close>, so \<open>pb_size_t\<close> is \<open>uint32_t\<close>; the member \<open>ptr\<close> is
  an address.
\<close>

section \<open>The code\<close>

record pb_field =
  pf_tag :: uint32
  pf_type :: byte
  pf_data_offset :: uint32
  pf_size_offset :: int
  pf_data_size :: uint32
  pf_array_size :: uint32
  pf_ptr :: int

abbreviation PB_LTYPE :: "byte \<Rightarrow> byte" where "PB_LTYPE x \<equiv> x AND 0x0F"
abbreviation PB_HTYPE :: "byte \<Rightarrow> byte" where "PB_HTYPE x \<equiv> x AND 0x30"
abbreviation PB_ATYPE :: "byte \<Rightarrow> byte" where "PB_ATYPE x \<equiv> x AND 0xC0"

abbreviation (input) PB_LTYPE_BOOL :: byte where "PB_LTYPE_BOOL \<equiv> 0x00"
abbreviation (input) PB_LTYPE_VARINT :: byte where "PB_LTYPE_VARINT \<equiv> 0x01"
abbreviation (input) PB_LTYPE_UVARINT :: byte where "PB_LTYPE_UVARINT \<equiv> 0x02"
abbreviation (input) PB_LTYPE_SVARINT :: byte where "PB_LTYPE_SVARINT \<equiv> 0x03"
abbreviation (input) PB_LTYPE_FIXED32 :: byte where "PB_LTYPE_FIXED32 \<equiv> 0x04"
abbreviation (input) PB_LTYPE_FIXED64 :: byte where "PB_LTYPE_FIXED64 \<equiv> 0x05"
abbreviation (input) PB_LTYPE_BYTES :: byte where "PB_LTYPE_BYTES \<equiv> 0x06"
abbreviation (input) PB_LTYPE_STRING :: byte where "PB_LTYPE_STRING \<equiv> 0x07"
abbreviation (input) PB_LTYPE_SUBMESSAGE :: byte where "PB_LTYPE_SUBMESSAGE \<equiv> 0x08"
abbreviation (input) PB_LTYPE_EXTENSION :: byte where "PB_LTYPE_EXTENSION \<equiv> 0x09"
abbreviation (input) PB_LTYPE_FIXED_LENGTH_BYTES :: byte where "PB_LTYPE_FIXED_LENGTH_BYTES \<equiv> 0x0A"
abbreviation (input) PB_HTYPE_REQUIRED :: byte where "PB_HTYPE_REQUIRED \<equiv> 0x00"
abbreviation (input) PB_HTYPE_REPEATED :: byte where "PB_HTYPE_REPEATED \<equiv> 0x20"
abbreviation (input) PB_HTYPE_ONEOF :: byte where "PB_HTYPE_ONEOF \<equiv> 0x30"
abbreviation (input) PB_ATYPE_STATIC :: byte where "PB_ATYPE_STATIC \<equiv> 0x00"
abbreviation (input) PB_ATYPE_POINTER :: byte where "PB_ATYPE_POINTER \<equiv> 0x80"
abbreviation (input) PB_SIZE_MAX :: uint32 where "PB_SIZE_MAX \<equiv> 0xFFFFFFFF"

record pb_field_iter =
  it_start :: "pb_field list"
  it_pos :: nat
  it_required_field_index :: nat
  it_dest_struct :: int
  it_pData :: int
  it_pSize :: int

definition field_at :: "pb_field list \<Rightarrow> nat \<Rightarrow> pb_field option" where
  "field_at fs i = (if i < length fs then Some (fs ! i) else None)"

definition pb_field_iter_begin :: "pb_field list \<Rightarrow> int \<Rightarrow> (bool \<times> pb_field_iter) option" where
  "pb_field_iter_begin fs dest_struct =
     (case field_at fs 0 of
        None \<Rightarrow> None
      | Some pos \<Rightarrow>
          let pData = (if dest_struct = 0 then 0 else dest_struct + uint (pf_data_offset pos));
              pSize = (if dest_struct = 0 then 0 else pData + pf_size_offset pos)
          in Some (pf_tag pos \<noteq> 0, \<lparr>it_start = fs, it_pos = 0, it_required_field_index = 0, it_dest_struct = dest_struct,
                                     it_pData = pData, it_pSize = pSize\<rparr>))"

definition pb_field_iter_next :: "pb_field_iter \<Rightarrow> (bool \<times> pb_field_iter) option" where
  "pb_field_iter_next iter =
     (case field_at (it_start iter) (it_pos iter) of
        None \<Rightarrow> None
      | Some prev_field \<Rightarrow>
          if pf_tag prev_field = 0 then Some (False, iter)
          else
            (case field_at (it_start iter) (it_pos iter + 1) of
               None \<Rightarrow> None
             | Some pos \<Rightarrow>
                 if pf_tag pos = 0 then
                   map_option (\<lambda>(_, iter). (False, iter)) (pb_field_iter_begin (it_start iter) (it_dest_struct iter))
                 else
                   let iter = iter\<lparr>it_pos := it_pos iter + 1\<rparr>;
                       prev_size = uint (pf_data_size prev_field)
                   in if PB_HTYPE (pf_type prev_field) = PB_HTYPE_ONEOF \<and> PB_HTYPE (pf_type pos) = PB_HTYPE_ONEOF \<and>
                         pf_data_offset pos = PB_SIZE_MAX
                      then Some (True, iter)
                      else
                        let prev_size =
                              (if PB_ATYPE (pf_type prev_field) = PB_ATYPE_STATIC \<and> PB_HTYPE (pf_type prev_field) = PB_HTYPE_REPEATED
                               then prev_size * uint (pf_array_size prev_field)
                               else if PB_ATYPE (pf_type prev_field) = PB_ATYPE_POINTER then 8
                               else prev_size);
                            index = (if PB_HTYPE (pf_type prev_field) = PB_HTYPE_REQUIRED
                                     then it_required_field_index iter + 1 else it_required_field_index iter);
                            pData = it_pData iter + prev_size + uint (pf_data_offset pos)
                        in Some (True, iter\<lparr>it_required_field_index := index, it_pData := pData, it_pSize := pData + pf_size_offset pos\<rparr>)))"

partial_function (option) pb_field_iter_find_loop :: "nat \<Rightarrow> uint32 \<Rightarrow> pb_field_iter \<Rightarrow> (bool \<times> pb_field_iter) option" where
  "pb_field_iter_find_loop start tag iter =
     (case field_at (it_start iter) (it_pos iter) of
        None \<Rightarrow> None
      | Some pos \<Rightarrow>
          if pf_tag pos = tag \<and> PB_LTYPE (pf_type pos) \<noteq> PB_LTYPE_EXTENSION then Some (True, iter)
          else
            (case pb_field_iter_next iter of
               None \<Rightarrow> None
             | Some (_, iter) \<Rightarrow> if it_pos iter \<noteq> start then pb_field_iter_find_loop start tag iter else Some (False, iter)))"

definition pb_field_iter_find :: "uint32 \<Rightarrow> pb_field_iter \<Rightarrow> (bool \<times> pb_field_iter) option" where
  "pb_field_iter_find tag iter = pb_field_iter_find_loop (it_pos iter) tag iter"

section \<open>Iterating\<close>

text \<open>An array of descriptors ends with the first tag that is zero.\<close>

definition fields_ok :: "pb_field list \<Rightarrow> bool" where
  "fields_ok fs \<longleftrightarrow> fs \<noteq> [] \<and> pf_tag (last fs) = 0 \<and> (\<forall>f \<in> set (butlast fs). pf_tag f \<noteq> 0)"

text \<open>The iterator at a field: the state that \<open>i\<close> steps from the beginning lead to.\<close>

fun iter_at :: "pb_field list \<Rightarrow> int \<Rightarrow> nat \<Rightarrow> pb_field_iter option" where
  "iter_at fs dest 0 = map_option snd (pb_field_iter_begin fs dest)"
| "iter_at fs dest (Suc i) = (case iter_at fs dest i of None \<Rightarrow> None | Some iter \<Rightarrow> map_option snd (pb_field_iter_next iter))"

lemma fields_okD:
  assumes "fields_ok fs"
  shows "Suc i < length fs \<Longrightarrow> pf_tag (fs ! i) \<noteq> 0" "Suc i = length fs \<Longrightarrow> pf_tag (fs ! i) = 0" "0 < length fs"
proof -
  show "pf_tag (fs ! i) \<noteq> 0" if "Suc i < length fs"
  proof -
    have "fs ! i = butlast fs ! i" "i < length (butlast fs)" using that by (simp_all add: nth_butlast)
    then show ?thesis using assms by (metis fields_ok_def nth_mem)
  qed
  show "pf_tag (fs ! i) = 0" if "Suc i = length fs" using assms that by (metis fields_ok_def diff_Suc_1 last_conv_nth)
  show "0 < length fs" using assms by (simp add: fields_ok_def)
qed

lemma begin_iter: "fields_ok fs \<Longrightarrow> \<exists>iter. iter_at fs dest 0 = Some iter \<and> it_pos iter = 0 \<and> it_start iter = fs \<and> it_dest_struct iter = dest"
  using fields_okD(3) [of fs] by (auto simp: pb_field_iter_begin_def field_at_def Let_def)

text \<open>A step moves to the next field, and from the last one back to the first.\<close>

lemma next_iter:
  assumes "fields_ok fs" "it_start iter = fs" "it_dest_struct iter = dest" "Suc (it_pos iter) < length fs"
  shows "if Suc (Suc (it_pos iter)) < length fs
    then \<exists>iter'. pb_field_iter_next iter = Some (True, iter') \<and> it_start iter' = fs \<and> it_dest_struct iter' = dest \<and> it_pos iter' = Suc (it_pos iter)
    else pb_field_iter_next iter = map_option (\<lambda>it. (False, it)) (iter_at fs dest 0)"
proof (cases "Suc (Suc (it_pos iter)) < length fs")
  case True
  note t = fields_okD(1) [OF assms(1,4)] fields_okD(1) [OF assms(1) True]
  show ?thesis using True t assms(2-4) by (simp add: pb_field_iter_next_def field_at_def Let_def)
next
  case False
  then have "Suc (Suc (it_pos iter)) = length fs" using assms(4) by simp
  note t = fields_okD(1) [OF assms(1,4)] fields_okD(2) [OF assms(1) this]
  show ?thesis using False t assms(2-4)
    by (simp add: pb_field_iter_next_def field_at_def option.map_comp o_def case_prod_unfold)
qed

lemma iter_at_pos:
  assumes "fields_ok fs" "i < length fs - 1 \<or> i = 0"
  shows "\<exists>iter. iter_at fs dest i = Some iter \<and> it_pos iter = i \<and> it_start iter = fs \<and> it_dest_struct iter = dest"
  using assms(2)
proof (induction i)
  case 0
  show ?case by (rule begin_iter [OF assms(1)])
next
  case (Suc i)
  then obtain iter where i: "iter_at fs dest i = Some iter" "it_pos iter = i" "it_start iter = fs" "it_dest_struct iter = dest" by auto
  have "Suc (Suc i) < length fs" "Suc (it_pos iter) < length fs" using Suc.prems i(2) by auto
  then show ?case using next_iter [OF assms(1) i(3,4)] i by auto
qed

lemma next_iter_at:
  assumes "fields_ok fs" "Suc i < length fs" "iter_at fs dest i = Some iter"
  shows "\<exists>b iter'. pb_field_iter_next iter = Some (b, iter') \<and> (b \<longleftrightarrow> Suc (Suc i) < length fs) \<and>
    iter_at fs dest (if b then Suc i else 0) = Some iter'"
proof -
  have "i < length fs - 1 \<or> i = 0" using assms(2) by linarith
  then have i: "it_pos iter = i" "it_start iter = fs" "it_dest_struct iter = dest" using iter_at_pos [OF assms(1), of i dest] assms(3) by auto
  note n = next_iter [OF assms(1) i(2,3)]
  show ?thesis
  proof (cases "Suc (Suc i) < length fs")
    case True
    then show ?thesis using n i(1) assms(3) by auto
  next
    case False
    then show ?thesis using n i(1) assms(2) begin_iter [OF assms(1), of dest] by auto
  qed
qed

section \<open>Searching\<close>

definition is_wanted :: "uint32 \<Rightarrow> pb_field \<Rightarrow> bool" where
  "is_wanted tag f \<longleftrightarrow> pf_tag f = tag \<and> PB_LTYPE (pf_type f) \<noteq> PB_LTYPE_EXTENSION"

lemma find_loop_cases:
  assumes "fields_ok fs" "length fs = Suc n" "i < n" "iter_at fs dest i = Some iter"
  shows "pb_field_iter_find_loop start tag iter =
    (if is_wanted tag (fs ! i) then Some (True, iter)
     else (let iter' = the (iter_at fs dest (Suc i mod n))
           in if Suc i mod n = start then Some (False, iter') else pb_field_iter_find_loop start tag iter'))"
proof -
  have i: "it_pos iter = i" "it_start iter = fs" using iter_at_pos [OF assms(1), of i dest] assms(2-4) by auto
  obtain b iter' where n: "pb_field_iter_next iter = Some (b, iter')" "b \<longleftrightarrow> Suc i < n" "iter_at fs dest (if b then Suc i else 0) = Some iter'"
    using next_iter_at [OF assms(1) _ assms(4)] assms(2,3) by auto
  define j where "j = Suc i mod n"
  have j: "(if b then Suc i else 0) = j" "j < n" using assms(3) n(2) by (auto simp: mod_Suc j_def)
  then have "it_pos iter' = j" using iter_at_pos [OF assms(1), of j dest] n(3) assms(2) by auto
  then show ?thesis using i n(1,3) j assms(2,3) unfolding j_def [symmetric]
    by (subst pb_field_iter_find_loop.simps) (simp add: field_at_def is_wanted_def Let_def)
qed

lemma find_loop:
  assumes "fields_ok fs" "length fs = Suc n" "0 < d" "d \<le> n" "(i + d) mod n = start" "i < n" "iter_at fs dest i = Some iter"
  shows "\<exists>r j iter'. pb_field_iter_find_loop start tag iter = Some (r, iter') \<and> iter_at fs dest j = Some iter' \<and> j < n \<and>
    (if r then is_wanted tag (fs ! j) else j = start \<and> (\<forall>t < d. \<not> is_wanted tag (fs ! ((i + t) mod n))))"
  using assms(3-)
proof (induction d arbitrary: i iter)
  case (Suc d)
  define j where "j = Suc i mod n"
  have j: "j < n" using Suc.prems(4) by (simp add: j_def)
  obtain iter' where iter': "iter_at fs dest j = Some iter'" using iter_at_pos [OF assms(1), of j dest] j assms(2) by auto
  have sh: "(j + t) mod n = Suc (i + t) mod n" for t unfolding j_def by (metis add_Suc mod_add_left_eq)
  note step = find_loop_cases [OF assms(1,2) Suc.prems(4,5), of start tag, folded j_def, unfolded Let_def iter' option.sel]
  show ?case
  proof (cases "is_wanted tag (fs ! i)")
    case True
    then show ?thesis using step Suc.prems(4,5) by (intro exI [of _ True] exI [of _ i] exI [of _ iter]) simp
  next
    case False
    have first: "(\<forall>t < Suc d. \<not> is_wanted tag (fs ! ((i + t) mod n))) \<longleftrightarrow> (\<forall>t < d. \<not> is_wanted tag (fs ! ((j + t) mod n)))"
      using False Suc.prems(4) by (simp add: sh All_less_Suc2)
    show ?thesis
    proof (cases "j = start")
      case True
      have "(j + d) mod n = j" using Suc.prems(3) True sh [of d] by simp
      moreover have "(j + d) mod n = j + d - n" if "n \<le> j + d" using that j Suc.prems(2) by (simp add: le_mod_geq)
      ultimately have "d = 0" using j Suc.prems(2) by (cases "j + d < n") auto
      then show ?thesis using step False True iter' j first by (intro exI [of _ False] exI [of _ j] exI [of _ iter']) simp
    next
      case nothere: False
      have "0 < d" using nothere Suc.prems(3) by (cases d) (auto simp: j_def)
      moreover have "pb_field_iter_find_loop start tag iter = pb_field_iter_find_loop start tag iter'" using step False nothere by simp
      ultimately show ?thesis using Suc.IH [of j iter'] Suc.prems(2,3) sh [of d] j iter' unfolding first by simp
    qed
  qed
qed simp

lemma field_search:
  assumes "fields_ok fs" "length fs = Suc n" "i < n" "iter_at fs dest i = Some iter"
  shows "\<exists>r j iter'. pb_field_iter_find tag iter = Some (r, iter') \<and> j < n \<and> iter_at fs dest j = Some iter' \<and>
    (r \<longleftrightarrow> (\<exists>f \<in> set (butlast fs). pf_tag f = tag \<and> PB_LTYPE (pf_type f) \<noteq> PB_LTYPE_EXTENSION)) \<and>
    (if r then pf_tag (fs ! j) = tag \<and> PB_LTYPE (pf_type (fs ! j)) \<noteq> PB_LTYPE_EXTENSION else iter' = iter)"
proof -
  have pos: "it_pos iter = i" using iter_at_pos [OF assms(1), of i dest] assms(2-4) by auto
  obtain r j iter' where f: "pb_field_iter_find_loop i tag iter = Some (r, iter')" "iter_at fs dest j = Some iter'" "j < n"
      "if r then is_wanted tag (fs ! j) else j = i \<and> (\<forall>t < n. \<not> is_wanted tag (fs ! ((i + t) mod n)))"
    using find_loop [OF assms(1,2), of n i i dest iter tag] assms(3,4) by auto
  have all: "set (butlast fs) = {fs ! k |k. k < n}" using assms(2) nth_butlast [of _ fs] by (force simp: set_conv_nth)
  have "\<exists>t < n. k = (i + t) mod n" if "k < n" for k
    using that assms(3) by (intro exI [of _ "if i \<le> k then k - i else k + n - i"]) auto
  then have "r \<longleftrightarrow> (\<exists>f \<in> set (butlast fs). is_wanted tag f)" using f(3,4) unfolding all by (cases r) auto
  then show ?thesis using f assms(4) pos unfolding pb_field_iter_find_def is_wanted_def
    by (intro exI [of _ r] exI [of _ j] exI [of _ iter']) (auto split: if_splits)
qed



end
