(* ===== verification/Pb_Encode.thy ===== *)
theory Pb_Encode
  imports Pb_Fields Mem Byte_Order
begin

text \<open>
  The encoder of nanopb, \<open>nanopb/pb_encode.c\<close>: output streams over a buffer, the encodings of the wire
  format, and the encoders of single values.  The state of a stream is an offset into its buffer;
  a stream without a callback only counts the bytes.  Writing outside of a buffer, reading outside of
  an object and dereferencing a null pointer give \<open>None\<close>.  Objects in memory are lists of bytes, integers
  in them are little endian.  A \<open>pb_int64_t\<close> is a 64-bit word that \<open>sint\<close> reads.
\<close>

section \<open>Streams\<close>

record pb_ostream =
  os_callback :: bool
  os_buf :: "byte list"
  os_state :: nat
  os_max_size :: nat
  os_bytes_written :: nat
  os_errmsg :: "string option"

type_synonym pb_writer = "pb_ostream \<Rightarrow> (bool \<times> pb_ostream) option"

text \<open>The macro \<open>PB_RETURN_ERROR\<close>: an error that is set already is kept.\<close>

definition os_error :: "string \<Rightarrow> pb_writer" where
  "os_error msg stream = Some (False, stream\<lparr>os_errmsg := Some (case os_errmsg stream of None \<Rightarrow> msg | Some e \<Rightarrow> e)\<rparr>)"

text \<open>The call \<open>if (!f(stream)) return false;\<close> in front of \<open>g\<close>.\<close>

definition pb_and :: "pb_writer \<Rightarrow> pb_writer \<Rightarrow> pb_writer" where
  "pb_and f g stream =
     (case f stream of
        None \<Rightarrow> None
      | Some (False, stream) \<Rightarrow> Some (False, stream)
      | Some (True, stream) \<Rightarrow> g stream)"

definition buf_write :: "byte list option \<Rightarrow> nat \<Rightarrow> pb_writer" where
  "buf_write buf cnt stream =
     (case buf of
        None \<Rightarrow> if cnt = 0 then Some (True, stream) else None
      | Some buf \<Rightarrow>
          if length buf < cnt \<or> length (os_buf stream) < os_state stream + cnt then None
          else Some (True, stream\<lparr>os_state := os_state stream + cnt,
                                  os_buf := poke (os_buf stream) (os_state stream) (take cnt buf)\<rparr>))"

definition pb_ostream_from_buffer :: "byte list \<Rightarrow> nat \<Rightarrow> pb_ostream" where
  "pb_ostream_from_buffer buf bufsize =
     \<lparr>os_callback = True, os_buf = buf, os_state = 0, os_max_size = bufsize, os_bytes_written = 0, os_errmsg = None\<rparr>"

definition PB_OSTREAM_SIZING :: pb_ostream where
  "PB_OSTREAM_SIZING =
     \<lparr>os_callback = False, os_buf = [], os_state = 0, os_max_size = 0, os_bytes_written = 0, os_errmsg = None\<rparr>"

definition pb_write :: "byte list option \<Rightarrow> nat \<Rightarrow> pb_writer" where
  "pb_write buf cnt stream =
     (let written = size_add (os_bytes_written stream) cnt
      in if cnt > 0 \<and> os_callback stream then
           if written < os_bytes_written stream \<or> written > os_max_size stream then os_error ''stream full'' stream
           else
             (case buf_write buf cnt stream of
                None \<Rightarrow> None
              | Some (False, stream) \<Rightarrow> os_error ''io error'' stream
              | Some (True, stream) \<Rightarrow> Some (True, stream\<lparr>os_bytes_written := written\<rparr>))
         else Some (True, stream\<lparr>os_bytes_written := written\<rparr>))"

section \<open>The wire format\<close>

function pb_encode_varint_loop :: "uint64 \<Rightarrow> byte list" where
  "pb_encode_varint_loop value =
     (if value = 0 then [] else ((ucast (value AND 0x7F)) OR 0x80) # pb_encode_varint_loop (drop_bit 7 value))"
  by pat_completeness auto
termination
proof (relation "measure unat")
  fix v :: uint64
  assume "v \<noteq> 0"
  then have "0 < unat v" by (simp add: unat_gt_0)
  then show "(drop_bit 7 v, v) \<in> measure unat" by (simp add: unat_drop_bit)
qed simp

declare pb_encode_varint_loop.simps [simp del]

definition pb_encode_varint :: "uint64 \<Rightarrow> pb_writer" where
  "pb_encode_varint value stream =
     (if value \<le> 0x7F then pb_write (Some [ucast value]) 1 stream
      else
        let buffer = pb_encode_varint_loop value; i = length buffer
        in if i > 10 then None
           else pb_write (Some (buffer[i - 1 := buffer ! (i - 1) AND 0x7F])) i stream)"

definition pb_encode_svarint :: "uint64 \<Rightarrow> pb_writer" where
  "pb_encode_svarint value =
     (let zigzagged = (if sint value < 0 then NOT (push_bit 1 value) else push_bit 1 value)
      in pb_encode_varint zigzagged)"

text \<open>The integer in the first \<open>n\<close> bytes of an object.\<close>

definition load_le :: "nat \<Rightarrow> byte list \<Rightarrow> nat option" where
  "load_le n p = (if length p < n then None else Some (be_nat (rev (take n p))))"

definition pb_encode_fixed32 :: "byte list \<Rightarrow> pb_writer" where
  "pb_encode_fixed32 value stream =
     (case load_le 4 value of
        None \<Rightarrow> None
      | Some x \<Rightarrow>
          let val = of_nat x :: uint32
          in pb_write (Some [ucast (val AND 0xFF), ucast (drop_bit 8 val AND 0xFF), ucast (drop_bit 16 val AND 0xFF),
                             ucast (drop_bit 24 val AND 0xFF)]) 4 stream)"

definition pb_encode_fixed64 :: "byte list \<Rightarrow> pb_writer" where
  "pb_encode_fixed64 value stream =
     (case load_le 8 value of
        None \<Rightarrow> None
      | Some x \<Rightarrow>
          let val = of_nat x :: uint64
          in pb_write (Some [ucast (val AND 0xFF), ucast (drop_bit 8 val AND 0xFF), ucast (drop_bit 16 val AND 0xFF),
                             ucast (drop_bit 24 val AND 0xFF), ucast (drop_bit 32 val AND 0xFF), ucast (drop_bit 40 val AND 0xFF),
                             ucast (drop_bit 48 val AND 0xFF), ucast (drop_bit 56 val AND 0xFF)]) 8 stream)"

type_synonym pb_wire_type = uint32

abbreviation (input) PB_WT_VARINT :: pb_wire_type where "PB_WT_VARINT \<equiv> 0"
abbreviation (input) PB_WT_64BIT :: pb_wire_type where "PB_WT_64BIT \<equiv> 1"
abbreviation (input) PB_WT_STRING :: pb_wire_type where "PB_WT_STRING \<equiv> 2"
abbreviation (input) PB_WT_32BIT :: pb_wire_type where "PB_WT_32BIT \<equiv> 5"

definition pb_encode_tag :: "pb_wire_type \<Rightarrow> uint32 \<Rightarrow> pb_writer" where
  "pb_encode_tag wiretype field_number =
     (let tag = push_bit 3 (ucast field_number :: uint64) OR ucast wiretype
      in pb_encode_varint tag)"

definition pb_encode_tag_for_field :: "pb_field \<Rightarrow> pb_writer" where
  "pb_encode_tag_for_field field stream =
     (let ltype = PB_LTYPE (pf_type field)
      in if ltype = PB_LTYPE_BOOL \<or> ltype = PB_LTYPE_VARINT \<or> ltype = PB_LTYPE_UVARINT \<or> ltype = PB_LTYPE_SVARINT
         then pb_encode_tag PB_WT_VARINT (pf_tag field) stream
         else if ltype = PB_LTYPE_FIXED32 then pb_encode_tag PB_WT_32BIT (pf_tag field) stream
         else if ltype = PB_LTYPE_FIXED64 then pb_encode_tag PB_WT_64BIT (pf_tag field) stream
         else if ltype = PB_LTYPE_BYTES \<or> ltype = PB_LTYPE_STRING \<or> ltype = PB_LTYPE_SUBMESSAGE \<or> ltype = PB_LTYPE_FIXED_LENGTH_BYTES
         then pb_encode_tag PB_WT_STRING (pf_tag field) stream
         else os_error ''invalid field type'' stream)"

definition pb_encode_string :: "byte list option \<Rightarrow> nat \<Rightarrow> pb_writer" where
  "pb_encode_string buffer sz = pb_and (pb_encode_varint (of_nat sz)) (pb_write buffer sz)"

text \<open>The function \<open>pb_encode\<close>, for the descriptors and the struct of the submessage, is an argument.\<close>

definition pb_encode_submessage :: "pb_writer \<Rightarrow> pb_writer" where
  "pb_encode_submessage pb_encode stream =
     (case pb_encode PB_OSTREAM_SIZING of
        None \<Rightarrow> None
      | Some (False, substream) \<Rightarrow> Some (False, stream\<lparr>os_errmsg := os_errmsg substream\<rparr>)
      | Some (True, substream) \<Rightarrow>
          let sz = os_bytes_written substream
          in (case pb_encode_varint (of_nat sz) stream of
                None \<Rightarrow> None
              | Some (False, stream) \<Rightarrow> Some (False, stream)
              | Some (True, stream) \<Rightarrow>
                  if \<not> os_callback stream then pb_write None sz stream
                  else if size_add (os_bytes_written stream) sz > os_max_size stream then os_error ''stream full'' stream
                  else
                    (case pb_encode \<lparr>os_callback = os_callback stream, os_buf = os_buf stream, os_state = os_state stream,
                                     os_max_size = sz, os_bytes_written = 0, os_errmsg = None\<rparr> of
                       None \<Rightarrow> None
                     | Some (status, substream) \<Rightarrow>
                         let stream = stream\<lparr>os_bytes_written := size_add (os_bytes_written stream) (os_bytes_written substream),
                                             os_state := os_state substream, os_buf := os_buf substream,
                                             os_errmsg := os_errmsg substream\<rparr>
                         in if os_bytes_written substream \<noteq> sz then os_error ''submsg size changed'' stream
                            else Some (status, stream))))"

section \<open>The encoders of values\<close>

definition safe_read_bool :: "byte list \<Rightarrow> bool option" where
  "safe_read_bool pSize = (case pSize of [] \<Rightarrow> None | b # _ \<Rightarrow> Some (b \<noteq> 0))"

definition pb_enc_bool :: "byte list \<Rightarrow> pb_writer" where
  "pb_enc_bool src stream = (case safe_read_bool src of None \<Rightarrow> None | Some b \<Rightarrow> pb_encode_varint (if b then 1 else 0) stream)"

text \<open>The signed or unsigned integer that an object of \<open>n\<close> bytes holds, as 64 bits.  The outer option is \<open>None\<close> for
  a size that the encoders refuse.\<close>

definition signed_object :: "nat \<Rightarrow> byte list \<Rightarrow> uint64 option option" where
  "signed_object n src =
     (if n = 1 then Some (map_option (\<lambda>x. scast (of_nat x :: 8 word)) (load_le 1 src))
      else if n = 2 then Some (map_option (\<lambda>x. scast (of_nat x :: 16 word)) (load_le 2 src))
      else if n = 4 then Some (map_option (\<lambda>x. scast (of_nat x :: 32 word)) (load_le 4 src))
      else if n = 8 then Some (map_option of_nat (load_le 8 src))
      else None)"

definition unsigned_object :: "nat \<Rightarrow> byte list \<Rightarrow> uint64 option option" where
  "unsigned_object n src =
     (if n = 1 \<or> n = 2 \<or> n = 4 \<or> n = 8 then Some (map_option of_nat (load_le n src)) else None)"

definition pb_enc_varint :: "pb_field \<Rightarrow> byte list \<Rightarrow> pb_writer" where
  "pb_enc_varint field src stream =
     (case signed_object (unat (pf_data_size field)) src of
        None \<Rightarrow> os_error ''invalid data_size'' stream
      | Some None \<Rightarrow> None
      | Some (Some value) \<Rightarrow> pb_encode_varint value stream)"

definition pb_enc_uvarint :: "pb_field \<Rightarrow> byte list \<Rightarrow> pb_writer" where
  "pb_enc_uvarint field src stream =
     (case unsigned_object (unat (pf_data_size field)) src of
        None \<Rightarrow> os_error ''invalid data_size'' stream
      | Some None \<Rightarrow> None
      | Some (Some value) \<Rightarrow> pb_encode_varint value stream)"

definition pb_enc_svarint :: "pb_field \<Rightarrow> byte list \<Rightarrow> pb_writer" where
  "pb_enc_svarint field src stream =
     (case signed_object (unat (pf_data_size field)) src of
        None \<Rightarrow> os_error ''invalid data_size'' stream
      | Some None \<Rightarrow> None
      | Some (Some value) \<Rightarrow> pb_encode_svarint value stream)"

definition pb_enc_fixed64 :: "byte list \<Rightarrow> pb_writer" where
  "pb_enc_fixed64 src = pb_encode_fixed64 src"

definition pb_enc_fixed32 :: "byte list \<Rightarrow> pb_writer" where
  "pb_enc_fixed32 src = pb_encode_fixed32 src"

text \<open>A \<open>pb_bytes_array_t\<close> has its size in the first four bytes, and the bytes behind it.\<close>

definition pb_enc_bytes :: "pb_field \<Rightarrow> byte list option \<Rightarrow> pb_writer" where
  "pb_enc_bytes field src stream =
     (case src of
        None \<Rightarrow> pb_encode_string None 0 stream
      | Some src \<Rightarrow>
          (case load_le 4 src of
             None \<Rightarrow> None
           | Some sz \<Rightarrow>
               if PB_ATYPE (pf_type field) = PB_ATYPE_STATIC \<and>
                  of_nat sz > (ucast (pf_data_size field) - 4 :: uint64)
               then os_error ''bytes size exceeded'' stream
               else pb_encode_string (Some (drop 4 src)) sz stream))"

text \<open>The length of a C string in at most \<open>max_size\<close> bytes.\<close>

fun bounded_length :: "nat \<Rightarrow> byte list \<Rightarrow> nat option" where
  "bounded_length 0 p = Some 0"
| "bounded_length (Suc n) [] = None"
| "bounded_length (Suc n) (c # p) = (if c = 0 then Some 0 else map_option Suc (bounded_length n p))"

definition pb_enc_string :: "pb_field \<Rightarrow> byte list option \<Rightarrow> pb_writer" where
  "pb_enc_string field src stream =
     (let max_size = (if PB_ATYPE (pf_type field) = PB_ATYPE_POINTER then SIZE_MAX else unat (pf_data_size field))
      in (case (case src of None \<Rightarrow> Some 0 | Some p \<Rightarrow> bounded_length max_size p) of
            None \<Rightarrow> None
          | Some sz \<Rightarrow> pb_encode_string src sz stream))"

definition pb_enc_fixed_length_bytes :: "pb_field \<Rightarrow> byte list \<Rightarrow> pb_writer" where
  "pb_enc_fixed_length_bytes field src = pb_encode_string (Some src) (unat (pf_data_size field))"

section \<open>What a writer writes\<close>

definition ostream_ok :: "pb_ostream \<Rightarrow> bool" where
  "ostream_ok s \<longleftrightarrow> os_errmsg s = None \<and> os_bytes_written s \<le> SIZE_MAX \<and>
     (os_callback s \<longrightarrow> os_bytes_written s \<le> os_max_size s \<and> os_max_size s \<le> SIZE_MAX \<and>
        os_state s + (os_max_size s - os_bytes_written s) \<le> length (os_buf s))"

definition emit :: "byte list \<Rightarrow> pb_ostream \<Rightarrow> pb_ostream" where
  "emit bs s =
     (if os_callback s
      then s\<lparr>os_buf := poke (os_buf s) (os_state s) bs, os_state := os_state s + length bs, os_bytes_written := os_bytes_written s + length bs\<rparr>
      else s\<lparr>os_bytes_written := os_bytes_written s + length bs\<rparr>)"

definition fits :: "byte list \<Rightarrow> pb_ostream \<Rightarrow> bool" where
  "fits bs s \<longleftrightarrow> os_bytes_written s + length bs \<le> (if os_callback s then os_max_size s else SIZE_MAX)"

text \<open>A writer of fixed bytes: it writes them all if they fit, and reports an error otherwise.\<close>

definition writes :: "pb_writer \<Rightarrow> byte list \<Rightarrow> bool" where
  "writes f bs \<longleftrightarrow>
     (\<forall>s. ostream_ok s \<longrightarrow>
        (if fits bs s then f s = Some (True, emit bs s)
         else os_callback s \<longrightarrow> os_bytes_written s + length bs \<le> SIZE_MAX \<longrightarrow> (\<exists>s'. f s = Some (False, s') \<and> os_errmsg s' \<noteq> None)))"

lemma poke_poke: "off + length a + length b \<le> length buf \<Longrightarrow> poke (poke buf off a) (off + length a) b = poke buf off (a @ b)"
  by (simp add: poke_def ac_simps)

lemma emit_ok: "ostream_ok s \<Longrightarrow> fits bs s \<Longrightarrow> ostream_ok (emit bs s)"
  by (auto simp: ostream_ok_def emit_def fits_def)

lemma fits_append: "fits (a @ b) s \<longleftrightarrow> fits a s \<and> fits b (emit a s)"
  by (auto simp: fits_def emit_def)

lemma emit_append: "ostream_ok s \<Longrightarrow> fits (a @ b) s \<Longrightarrow> emit b (emit a s) = emit (a @ b) s"
  by (auto simp: emit_def ostream_ok_def fits_def poke_poke)

lemma writesI:
  assumes "\<And>s. ostream_ok s \<Longrightarrow> fits bs s \<Longrightarrow> f s = Some (True, emit bs s)"
    and "\<And>s. ostream_ok s \<Longrightarrow> \<not> fits bs s \<Longrightarrow> os_callback s \<Longrightarrow> os_bytes_written s + length bs \<le> SIZE_MAX \<Longrightarrow> \<exists>s'. f s = Some (False, s') \<and> os_errmsg s' \<noteq> None"
  shows "writes f bs"
  using assms by (simp add: writes_def)

lemma writesD:
  assumes "writes f bs" "ostream_ok s"
  shows "fits bs s \<Longrightarrow> f s = Some (True, emit bs s)"
    "\<not> fits bs s \<Longrightarrow> os_callback s \<Longrightarrow> os_bytes_written s + length bs \<le> SIZE_MAX \<Longrightarrow> \<exists>s'. f s = Some (False, s') \<and> os_errmsg s' \<noteq> None"
  using assms by (auto simp: writes_def)

lemma writes_cong: "writes f bs \<Longrightarrow> (\<And>s. g s = f s) \<Longrightarrow> writes g bs"
  by (metis ext)

lemma writes_nothing: "writes (\<lambda>s. Some (True, s)) []"
  by (rule writesI) (auto simp: emit_def fits_def ostream_ok_def poke_def split: if_splits)

lemma writes_and:
  assumes "writes f a" "writes g b"
  shows "writes (pb_and f g) (a @ b)"
proof (rule writesI)
  fix s
  assume s: "ostream_ok s" "fits (a @ b) s"
  then have a: "fits a s" "fits b (emit a s)" by (simp_all add: fits_append)
  show "pb_and f g s = Some (True, emit (a @ b) s)"
    using writesD(1) [OF assms(1) s(1) a(1)] writesD(1) [OF assms(2) emit_ok [OF s(1) a(1)] a(2)] emit_append [OF s]
    by (simp add: pb_and_def)
next
  fix s
  assume s: "ostream_ok s" "\<not> fits (a @ b) s" "os_callback s" "os_bytes_written s + length (a @ b) \<le> SIZE_MAX"
  show "\<exists>s'. pb_and f g s = Some (False, s') \<and> os_errmsg s' \<noteq> None"
  proof (cases "fits a s")
    case True
    then have "\<not> fits b (emit a s)" "os_callback (emit a s)" "os_bytes_written (emit a s) + length b \<le> SIZE_MAX"
      using s by (simp_all add: fits_append emit_def)
    then show ?thesis using writesD(1) [OF assms(1) s(1) True] writesD(2) [OF assms(2) emit_ok [OF s(1) True]] by (auto simp: pb_and_def)
  next
    case False
    then show ?thesis using writesD(2) [OF assms(1) s(1) False s(3)] s(4) by (auto simp: pb_and_def)
  qed
qed

lemma writes_pb_write:
  assumes "n \<le> length b" "n \<le> SIZE_MAX"
  shows "writes (pb_write (Some b) n) (take n b)"
proof (rule writesI)
  fix s
  assume s: "ostream_ok s" "fits (take n b) s"
  have "os_bytes_written s + n \<le> SIZE_MAX" using s assms(1) by (auto simp: ostream_ok_def fits_def split: if_splits)
  then have "size_add (os_bytes_written s) n = os_bytes_written s + n" by (simp add: size_add_nowrap)
  then show "pb_write (Some b) n s = Some (True, emit (take n b) s)"
    using s assms(1) by (auto simp: pb_write_def buf_write_def Let_def emit_def ostream_ok_def fits_def poke_def split: if_splits)
next
  fix s
  assume s: "ostream_ok s" "\<not> fits (take n b) s" "os_callback s" "os_bytes_written s + length (take n b) \<le> SIZE_MAX"
  then have "size_add (os_bytes_written s) n > os_max_size s" using assms(1) by (simp add: size_add_nowrap fits_def)
  moreover have "0 < n" using s by (cases n) (auto simp: fits_def ostream_ok_def)
  ultimately show "\<exists>s'. pb_write (Some b) n s = Some (False, s') \<and> os_errmsg s' \<noteq> None"
    using s(3) by (simp add: pb_write_def Let_def os_error_def)
qed

text \<open>Base-128 integers with the least significant group first.\<close>

function varint :: "nat \<Rightarrow> byte list" where
  "varint n = (if n < 128 then [of_nat n] else of_nat (n mod 128 + 128) # varint (n div 128))"
  by pat_completeness auto
termination
  by (relation "measure id") auto

declare varint.simps [simp del]

lemma varint_small: "n < 128 \<Longrightarrow> varint n = [of_nat n]"
  by (simp add: varint.simps)

lemma varint_large: "128 \<le> n \<Longrightarrow> varint n = of_nat (n mod 128 + 128) # varint (n div 128)"
  by (subst varint.simps) simp

lemma varint_length: "n < 128 ^ k \<Longrightarrow> length (varint n) \<le> (if k = 0 then 1 else k)"
proof (induction k arbitrary: n)
  case (Suc k)
  then show ?case using Suc.IH [of "n div 128"]
    by (cases "n < 128"; cases k) (auto simp: varint_small varint_large less_mult_imp_div_less mult.commute)
qed (simp add: varint_small)

lemma varint_Suc: "length (varint n) \<noteq> 0"
  by (subst varint.simps) simp

lemma low_group: "unat (ucast (v AND 0x7F) OR 0x80 :: byte) = unat v mod 128 + 128" "unat (ucast (v AND 0x7F) :: byte) = unat v mod 128" for v :: uint64
proof -
  have m: "unat (v AND 0x7F) = unat v mod 128" using unat_and_mask [of v 7] by (simp add: mask_eq_exp_minus_1)
  show u: "unat (ucast (v AND 0x7F) :: byte) = unat v mod 128" using unat_ucast_down [of "v AND 0x7F", where 'b = 8] m by simp
  have "push_bit 7 1 OR (ucast (v AND 0x7F) :: byte) = 0x80 OR ucast (v AND 0x7F)" by simp
  then show "unat (ucast (v AND 0x7F) OR 0x80 :: byte) = unat v mod 128 + 128"
    using unat_shift_or [of "ucast (v AND 0x7F) :: byte" 7 1] u by (simp add: or.commute)
qed

lemma encode_varint_loop:
  "v \<noteq> 0 \<Longrightarrow> length (pb_encode_varint_loop v) = length (varint (unat v)) \<and>
    (pb_encode_varint_loop v)[length (pb_encode_varint_loop v) - 1 := pb_encode_varint_loop v ! (length (pb_encode_varint_loop v) - 1) AND 0x7F] = varint (unat v)"
proof (induction v rule: pb_encode_varint_loop.induct)
  case (1 v)
  have head: "(ucast (v AND 0x7F) OR 0x80 :: byte) = of_nat (unat v mod 128 + 128)"
    by (rule byte_eqI) (simp only: low_group unat_of_nat_byte, simp)
  have step: "pb_encode_varint_loop v = (ucast (v AND 0x7F) OR 0x80) # pb_encode_varint_loop (drop_bit 7 v)"
    using 1(2) by (subst pb_encode_varint_loop.simps) simp
  have d: "unat (drop_bit 7 v) = unat v div 128" by (simp add: unat_drop_bit)
  show ?case
  proof (cases "unat v < 128")
    case True
    then have "drop_bit 7 v = 0" using d by (metis div_less unat_eq_zero)
    moreover have "(ucast (v AND 0x7F) OR 0x80) AND (0x7F :: byte) = of_nat (unat v)"
      by (rule byte_eqI) (simp only: byte_and_7f low_group unat_of_nat_byte, use True in simp)
    ultimately show ?thesis using step True by (simp add: varint_small pb_encode_varint_loop.simps [of 0])
  next
    case False
    then have "drop_bit 7 v \<noteq> 0" using d by (metis div_eq_0_iff unat_0 zero_neq_numeral)
    note IH = 1(1) [OF 1(2) this]
    have "pb_encode_varint_loop (drop_bit 7 v) \<noteq> []" using IH varint_Suc by (metis length_0_conv)
    then obtain l b where l: "pb_encode_varint_loop (drop_bit 7 v) = l @ [b]" by (metis rev_exhaust)
    then have "varint (unat v div 128) = l @ [b AND 0x7F]" using IH by (simp add: d)
    then show ?thesis using False unfolding step head l by (simp add: varint_large nth_append)
  qed
qed

lemma writes_varint: "writes (pb_encode_varint v) (varint (unat v))"
proof (cases "v \<le> 0x7F")
  case True
  then have "unat v < 128" by (simp add: word_le_nat_alt)
  then have "varint (unat v) = [ucast v]" by (simp add: varint_small)
  moreover have "writes (pb_write (Some [ucast v]) 1) [ucast v]" using writes_pb_write [of 1 "[ucast v]"] by simp
  moreover have "pb_encode_varint v s = pb_write (Some [ucast v]) 1 s" for s using True by (simp add: pb_encode_varint_def)
  ultimately show ?thesis using writes_cong by metis
next
  case False
  then have "v \<noteq> 0" by auto
  define B where "B = pb_encode_varint_loop v"
  note L = encode_varint_loop [OF \<open>v \<noteq> 0\<close>, folded B_def]
  have "unat v < 128 ^ 10" using unsigned_less [of v, where 'a = nat] by simp
  from varint_length [OF this] have len: "length (varint (unat v)) \<le> 10" by simp
  have "writes (pb_write (Some (varint (unat v))) (length (varint (unat v)))) (varint (unat v))"
    using writes_pb_write [of "length (varint (unat v))" "varint (unat v)"] len by simp
  moreover have "pb_encode_varint v s = pb_write (Some (varint (unat v))) (length (varint (unat v))) s" for s
    unfolding pb_encode_varint_def Let_def B_def [symmetric] L [THEN conjunct2] using False L len by simp
  ultimately show ?thesis by (rule writes_cong)
qed

text \<open>Strings, tags, integers of fixed size and submessages.\<close>

lemma unat_of_size: "n \<le> SIZE_MAX \<Longrightarrow> unat (of_nat n :: uint64) = n"
  by (simp add: unat_of_nat)

lemma writes_string:
  assumes "n \<le> length b" "n \<le> SIZE_MAX"
  shows "writes (pb_encode_string (Some b) n) (varint n @ take n b)"
  using writes_and [OF writes_varint [of "of_nat n"] writes_pb_write [OF assms]]
  unfolding unat_of_size [OF assms(2)] pb_encode_string_def .

lemma writes_tag:
  assumes "unat wt < 8"
  shows "writes (pb_encode_tag wt t) (varint (8 * unat t + unat wt))"
proof -
  have u: "unat (ucast t :: uint64) = unat t" "unat (ucast wt :: uint64) = unat wt" by (simp_all add: unat_ucast_up)
  have "unat t * 8 + unat wt < 2 ^ 64" using unsigned_less [of t, where 'a = nat] assms by simp
  then have "unat (push_bit 3 (ucast t :: uint64) OR ucast wt) = 8 * unat t + unat wt"
    using unat_shift_or [of "ucast wt :: uint64" 3 "ucast t"] assms u by simp
  then show ?thesis using writes_varint [of "push_bit 3 (ucast t :: uint64) OR ucast wt"] by (simp add: pb_encode_tag_def)
qed

lemma and_ff: "ucast (v AND 0xFF) = (ucast v :: byte)" for v :: "'a::len word"
proof -
  have "bit (0xFF :: 'a word) n \<longleftrightarrow> n < 8 \<and> n < LENGTH('a)" for n
    using bit_mask_iff [of 8 n, where 'a = "'a word"] by (auto simp: mask_eq_exp_minus_1 possible_bit_word)
  then show ?thesis by (intro bit_eqI) (auto simp: bit_ucast_iff bit_and_iff dest: bit_imp_le_length)
qed

lemma le_bytes:
  assumes "k \<le> length p" "8 * k = LENGTH('a::len)"
  shows "map (\<lambda>i. ucast (drop_bit (8 * i) (of_nat (be_nat (rev (take k p))) :: 'a word))) [0..<k] = take k p"
proof -
  have "be_nat (rev (take k p)) < 256 ^ k" using be_nat_less [of "rev (take k p)"] assms(1) by simp
  also have "(256 :: nat) ^ k = 2 ^ LENGTH('a)" by (simp add: power_mult flip: assms(2))
  finally have u: "unat (of_nat (be_nat (rev (take k p))) :: 'a word) = be_nat (rev (take k p))" by (simp add: unat_of_nat)
  have "nat_be k (be_nat (rev (take k p))) = rev (take k p)" using nat_be_be_nat [of "rev (take k p)"] assms(1) by simp
  then have "rev (take k p) = map (\<lambda>i. ucast (drop_bit (8 * i) (of_nat (be_nat (rev (take k p))) :: 'a word))) (rev [0..<k])"
    using nat_be_word [of k "of_nat (be_nat (rev (take k p))) :: 'a word"] u by simp
  then show ?thesis by (metis rev_map rev_rev_ident)
qed

lemma writes_fixed32:
  assumes "4 \<le> length p"
  shows "writes (pb_encode_fixed32 p) (take 4 p)"
proof -
  have "[0..<4] = [0, 1, 2, 3 :: nat]" by (simp add: upt_conv_Cons)
  then have "pb_encode_fixed32 p s = pb_write (Some (take 4 p)) 4 s" for s
    using assms le_bytes [of 4 p, where 'a = 32] by (simp add: pb_encode_fixed32_def load_le_def and_ff Let_def)
  moreover have "writes (pb_write (Some (take 4 p)) 4) (take 4 p)" using writes_pb_write [of 4 "take 4 p"] assms by simp
  ultimately show ?thesis using writes_cong by metis
qed

lemma writes_fixed64:
  assumes "8 \<le> length p"
  shows "writes (pb_encode_fixed64 p) (take 8 p)"
proof -
  have "[0..<8] = [0, 1, 2, 3, 4, 5, 6, 7 :: nat]" by (simp add: upt_conv_Cons)
  then have "pb_encode_fixed64 p s = pb_write (Some (take 8 p)) 8 s" for s
    using assms le_bytes [of 8 p, where 'a = 64] by (simp add: pb_encode_fixed64_def load_le_def and_ff Let_def)
  moreover have "writes (pb_write (Some (take 8 p)) 8) (take 8 p)" using writes_pb_write [of 8 "take 8 p"] assms by simp
  ultimately show ?thesis using writes_cong by metis
qed

text \<open>The two passes of a submessage agree, and its second pass has exactly the room the first one counted.\<close>

lemma writes_submessage:
  assumes "writes f bs" "length bs \<le> SIZE_MAX"
  shows "writes (pb_encode_submessage f) (varint (length bs) @ bs)"
proof -
  let ?len = "varint (length bs)"
  have sizing: "f PB_OSTREAM_SIZING = Some (True, emit bs PB_OSTREAM_SIZING)" "os_bytes_written (emit bs PB_OSTREAM_SIZING) = length bs"
    using writesD(1) [OF assms(1), of PB_OSTREAM_SIZING] assms(2)
    by (simp_all add: ostream_ok_def fits_def PB_OSTREAM_SIZING_def emit_def)
  have len: "writes (pb_encode_varint (of_nat (length bs))) ?len" using writes_varint [of "of_nat (length bs)"] unat_of_size [OF assms(2)] by simp
  define rest where "rest = (\<lambda>stream. if \<not> os_callback stream then pb_write None (length bs) stream
      else if size_add (os_bytes_written stream) (length bs) > os_max_size stream then os_error ''stream full'' stream
      else
        (case f \<lparr>os_callback = os_callback stream, os_buf = os_buf stream, os_state = os_state stream,
                         os_max_size = length bs, os_bytes_written = 0, os_errmsg = None\<rparr> of
           None \<Rightarrow> None
         | Some (status, substream) \<Rightarrow>
             let stream = stream\<lparr>os_bytes_written := size_add (os_bytes_written stream) (os_bytes_written substream),
                                 os_state := os_state substream, os_buf := os_buf substream,
                                 os_errmsg := os_errmsg substream\<rparr>
             in if os_bytes_written substream \<noteq> length bs then os_error ''submsg size changed'' stream
                else Some (status, stream)))"
  have eq: "pb_encode_submessage f s = pb_and (pb_encode_varint (of_nat (length bs))) rest s" for s
    by (simp only: pb_encode_submessage_def pb_and_def rest_def sizing option.case prod.case bool.case Let_def)
  have "writes rest bs"
  proof (rule writesI)
    fix s
    assume s: "ostream_ok s" "fits bs s"
    then have add: "size_add (os_bytes_written s) (length bs) = os_bytes_written s + length bs"
      by (intro size_add_nowrap) (auto simp: ostream_ok_def fits_def split: if_splits)
    show "rest s = Some (True, emit bs s)"
    proof (cases "os_callback s")
      case True
      let ?sub = "\<lparr>os_callback = True, os_buf = os_buf s, os_state = os_state s, os_max_size = length bs, os_bytes_written = 0, os_errmsg = None\<rparr>"
      have "f ?sub = Some (True, emit bs ?sub)"
        by (rule writesD(1) [OF assms(1)]) (use s True assms(2) in \<open>auto simp: ostream_ok_def fits_def\<close>)
      then show ?thesis using s True add by (simp add: rest_def emit_def fits_def ostream_ok_def Let_def)
    next
      case False
      then show ?thesis using add by (simp add: rest_def emit_def pb_write_def)
    qed
  next
    fix s
    assume s: "ostream_ok s" "\<not> fits bs s" "os_callback s" "os_bytes_written s + length bs \<le> SIZE_MAX"
    then have "size_add (os_bytes_written s) (length bs) > os_max_size s" by (simp add: size_add_nowrap fits_def)
    then show "\<exists>s'. rest s = Some (False, s') \<and> os_errmsg s' \<noteq> None" using s(3) by (simp add: rest_def os_error_def)
  qed
  from writes_and [OF len this] show ?thesis by (rule writes_cong) (simp add: eq)
qed

end
