(* ===== verification/Pb_Decode.thy ===== *)
theory Pb_Decode
  imports Pb_Encode
begin

text \<open>
  The decoder of nanopb, \<open>nanopb/pb_decode.c\<close>: input streams over a buffer, the wire format, and the
  decoders of single values.  The state of a stream is an offset into its buffer; reading outside
  of the buffer or writing outside of an object gives \<open>None\<close>.  A reader returns \<open>Some\<close> of a value or \<open>None\<close> for
  the result false, and the stream.  \<open>uint_fast8_t\<close> has eight bits.
\<close>

section \<open>Streams\<close>

record pb_istream =
  is_buf :: "byte list"
  is_state :: nat
  is_bytes_left :: nat
  is_errmsg :: "string option"

type_synonym 'a pb_reader = "pb_istream \<Rightarrow> ('a option \<times> pb_istream) option"

definition is_set_error :: "string \<Rightarrow> pb_istream \<Rightarrow> pb_istream" where
  "is_set_error msg stream = stream\<lparr>is_errmsg := Some (case is_errmsg stream of None \<Rightarrow> msg | Some e \<Rightarrow> e)\<rparr>"

definition is_error :: "string \<Rightarrow> 'a pb_reader" where
  "is_error msg stream = Some (None, is_set_error msg stream)"

definition pb_bind :: "'a pb_reader \<Rightarrow> ('a \<Rightarrow> 'b pb_reader) \<Rightarrow> 'b pb_reader" where
  "pb_bind f g stream =
     (case f stream of
        None \<Rightarrow> None
      | Some (None, stream) \<Rightarrow> Some (None, stream)
      | Some (Some x, stream) \<Rightarrow> g x stream)"

definition pb_return :: "'a \<Rightarrow> 'a pb_reader" where
  "pb_return x stream = Some (Some x, stream)"

definition buf_read :: "nat \<Rightarrow> byte list pb_reader" where
  "buf_read cnt stream =
     (if length (is_buf stream) < is_state stream + cnt then None
      else Some (Some (take cnt (drop (is_state stream) (is_buf stream))), stream\<lparr>is_state := is_state stream + cnt\<rparr>))"

definition pb_read :: "nat \<Rightarrow> byte list pb_reader" where
  "pb_read cnt stream =
     (if cnt = 0 then Some (Some [], stream)
      else if is_bytes_left stream < cnt then is_error ''end-of-stream'' stream
      else
        (case buf_read cnt stream of
           None \<Rightarrow> None
         | Some (None, stream) \<Rightarrow> is_error ''io error'' stream
         | Some (Some buf, stream) \<Rightarrow> Some (Some buf, stream\<lparr>is_bytes_left := is_bytes_left stream - cnt\<rparr>)))"

definition pb_readbyte :: "byte pb_reader" where
  "pb_readbyte stream =
     (if is_bytes_left stream = 0 then is_error ''end-of-stream'' stream
      else
        (case buf_read 1 stream of
           None \<Rightarrow> None
         | Some (None, stream) \<Rightarrow> is_error ''io error'' stream
         | Some (Some buf, stream) \<Rightarrow> Some (Some (hd buf), stream\<lparr>is_bytes_left := is_bytes_left stream - 1\<rparr>)))"

definition pb_istream_from_buffer :: "byte list \<Rightarrow> nat \<Rightarrow> pb_istream" where
  "pb_istream_from_buffer buf bufsize = \<lparr>is_buf = buf, is_state = 0, is_bytes_left = bufsize, is_errmsg = None\<rparr>"

section \<open>Helper functions\<close>

lemma readbyte_left: "pb_readbyte s = Some (Some b, s') \<Longrightarrow> is_bytes_left s' < is_bytes_left s"
  by (auto simp: pb_readbyte_def is_error_def buf_read_def split: if_splits)

function pb_decode_varint32_loop :: "uint32 \<Rightarrow> nat \<Rightarrow> uint32 pb_reader" where
  "pb_decode_varint32_loop result bitpos stream =
     (case pb_readbyte stream of
        None \<Rightarrow> None
      | Some (None, stream) \<Rightarrow> Some (None, stream)
      | Some (Some byte, stream) \<Rightarrow>
          let sign_extension = (if bitpos < 63 then 0xFF else 0x01)
          in if bitpos \<ge> 32 \<and> byte AND 0x7F \<noteq> 0 \<and> (drop_bit 31 result = 0 \<or> byte \<noteq> sign_extension)
             then is_error ''varint overflow'' stream
             else
               let result = (if bitpos \<ge> 32 then result else result OR push_bit bitpos (ucast (byte AND 0x7F)));
                   bitpos = (bitpos + 7) mod 256
               in if byte AND 0x80 \<noteq> 0 then pb_decode_varint32_loop result bitpos stream
                  else if bitpos = 35 \<and> byte AND 0x70 \<noteq> 0 then is_error ''varint overflow'' stream
                  else Some (Some result, stream))"
  by pat_completeness auto
termination
  by (relation "measure (\<lambda>(_, _, s). is_bytes_left s)") (auto dest: readbyte_left)

declare pb_decode_varint32_loop.simps [simp del]

text \<open>The flag is whether \<open>eof\<close> is set.\<close>

definition pb_decode_varint32_eof :: "pb_istream \<Rightarrow> (uint32 option \<times> bool \<times> pb_istream) option" where
  "pb_decode_varint32_eof stream =
     (case pb_readbyte stream of
        None \<Rightarrow> None
      | Some (None, stream) \<Rightarrow> Some (None, is_bytes_left stream = 0, stream)
      | Some (Some byte, stream) \<Rightarrow>
          if byte AND 0x80 = 0 then Some (Some (ucast byte), False, stream)
          else map_option (\<lambda>(r, stream). (r, False, stream)) (pb_decode_varint32_loop (ucast (byte AND 0x7F)) 7 stream))"

definition pb_decode_varint32 :: "uint32 pb_reader" where
  "pb_decode_varint32 stream = map_option (\<lambda>(r, _, stream). (r, stream)) (pb_decode_varint32_eof stream)"

function pb_decode_varint_loop :: "uint64 \<Rightarrow> nat \<Rightarrow> uint64 pb_reader" where
  "pb_decode_varint_loop result bitpos stream =
     (if bitpos \<ge> 64 then is_error ''varint overflow'' stream
      else
        (case pb_readbyte stream of
           None \<Rightarrow> None
         | Some (None, stream) \<Rightarrow> Some (None, stream)
         | Some (Some byte, stream) \<Rightarrow>
             let result = result OR push_bit bitpos (ucast (byte AND 0x7F));
                 bitpos = (bitpos + 7) mod 256
             in if byte AND 0x80 \<noteq> 0 then pb_decode_varint_loop result bitpos stream else Some (Some result, stream)))"
  by pat_completeness auto
termination
  by (relation "measure (\<lambda>(_, _, s). is_bytes_left s)") (auto dest: readbyte_left)

declare pb_decode_varint_loop.simps [simp del]

definition pb_decode_varint :: "uint64 pb_reader" where
  "pb_decode_varint = pb_decode_varint_loop 0 0"

lemma read_left: "pb_read (Suc n) s = Some (Some b, s') \<Longrightarrow> is_bytes_left s' < is_bytes_left s \<and> length b = Suc n"
  by (auto simp: pb_read_def is_error_def buf_read_def split: if_splits)

function pb_skip_varint :: "unit pb_reader" where
  "pb_skip_varint stream =
     (case pb_read 1 stream of
        None \<Rightarrow> None
      | Some (None, stream) \<Rightarrow> Some (None, stream)
      | Some (Some byte, stream) \<Rightarrow> if hd byte AND 0x80 \<noteq> 0 then pb_skip_varint stream else Some (Some (), stream))"
  by pat_completeness auto
termination
  by (relation "measure is_bytes_left") (auto dest: read_left)

declare pb_skip_varint.simps [simp del]

definition pb_skip_string :: "unit pb_reader" where
  "pb_skip_string = pb_bind pb_decode_varint32 (\<lambda>len. pb_bind (pb_read (unat len)) (\<lambda>_. pb_return ()))"

text \<open>The wire type and the tag, and whether \<open>eof\<close> is set.\<close>

definition pb_decode_tag :: "pb_istream \<Rightarrow> ((pb_wire_type \<times> uint32) option \<times> bool \<times> pb_istream) option" where
  "pb_decode_tag stream =
     (case pb_decode_varint32_eof stream of
        None \<Rightarrow> None
      | Some (None, eof, stream) \<Rightarrow> Some (None, eof, stream)
      | Some (Some temp, eof, stream) \<Rightarrow>
          if temp = 0 then Some (None, True, stream)
          else Some (Some (temp AND 7, drop_bit 3 temp), eof, stream))"

definition pb_skip_field :: "pb_wire_type \<Rightarrow> unit pb_reader" where
  "pb_skip_field wire_type =
     (if wire_type = PB_WT_VARINT then pb_skip_varint
      else if wire_type = PB_WT_64BIT then pb_bind (pb_read 8) (\<lambda>_. pb_return ())
      else if wire_type = PB_WT_STRING then pb_skip_string
      else if wire_type = PB_WT_32BIT then pb_bind (pb_read 4) (\<lambda>_. pb_return ())
      else is_error ''invalid wire_type'')"

text \<open>The bytes read so far are in the buffer of \<open>max_size\<close> bytes.\<close>

function read_raw_varint :: "nat \<Rightarrow> byte list \<Rightarrow> byte list pb_reader" where
  "read_raw_varint max_size buf stream =
     (if length buf + 1 > max_size then Some (None, stream)
      else
        (case pb_read 1 stream of
           None \<Rightarrow> None
         | Some (None, stream) \<Rightarrow> Some (None, stream)
         | Some (Some byte, stream) \<Rightarrow>
             if hd byte AND 0x80 \<noteq> 0 then read_raw_varint max_size (buf @ byte) stream else Some (Some (buf @ byte), stream)))"
  by pat_completeness auto
termination
  by (relation "measure (\<lambda>(_, _, s). is_bytes_left s)") (auto dest: read_left)

declare read_raw_varint.simps [simp del]

definition read_raw_value :: "pb_wire_type \<Rightarrow> nat \<Rightarrow> byte list pb_reader" where
  "read_raw_value wire_type max_size =
     (if wire_type = PB_WT_VARINT then read_raw_varint max_size []
      else if wire_type = PB_WT_64BIT then pb_read 8
      else if wire_type = PB_WT_32BIT then pb_read 4
      else is_error ''invalid wire_type'')"

definition pb_make_string_substream :: "pb_istream pb_reader" where
  "pb_make_string_substream =
     pb_bind pb_decode_varint32 (\<lambda>sz stream.
       if is_bytes_left stream < unat sz then is_error ''parent stream too short'' stream
       else Some (Some (stream\<lparr>is_bytes_left := unat sz\<rparr>), stream\<lparr>is_bytes_left := is_bytes_left stream - unat sz\<rparr>))"

definition pb_close_string_substream :: "pb_istream \<Rightarrow> unit pb_reader" where
  "pb_close_string_substream substream stream =
     (case (if is_bytes_left substream \<noteq> 0 then pb_read (is_bytes_left substream) substream else Some (Some [], substream)) of
        None \<Rightarrow> None
      | Some (None, _) \<Rightarrow> Some (None, stream)
      | Some (Some _, substream) \<Rightarrow> Some (Some (), stream\<lparr>is_state := is_state substream, is_errmsg := is_errmsg substream\<rparr>))"

section \<open>The decoders of values\<close>

definition pb_decode_svarint :: "uint64 pb_reader" where
  "pb_decode_svarint =
     pb_bind pb_decode_varint (\<lambda>val. pb_return (if val AND 1 \<noteq> 0 then NOT (drop_bit 1 val) else drop_bit 1 val))"

text \<open>The bytes of an integer object.\<close>

definition store_le :: "nat \<Rightarrow> nat \<Rightarrow> byte list" where
  "store_le n x = rev (nat_be n x)"

definition pb_decode_fixed32 :: "byte list pb_reader" where
  "pb_decode_fixed32 =
     pb_bind (pb_read 4) (\<lambda>bytes. pb_return (store_le 4 (unat (
       push_bit 0 (ucast (bytes ! 0)) OR push_bit 8 (ucast (bytes ! 1)) OR push_bit 16 (ucast (bytes ! 2)) OR
       push_bit 24 (ucast (bytes ! 3)) :: uint32))))"

definition pb_decode_fixed64 :: "byte list pb_reader" where
  "pb_decode_fixed64 =
     pb_bind (pb_read 8) (\<lambda>bytes. pb_return (store_le 8 (unat (
       push_bit 0 (ucast (bytes ! 0)) OR push_bit 8 (ucast (bytes ! 1)) OR push_bit 16 (ucast (bytes ! 2)) OR
       push_bit 24 (ucast (bytes ! 3)) OR push_bit 32 (ucast (bytes ! 4)) OR push_bit 40 (ucast (bytes ! 5)) OR
       push_bit 48 (ucast (bytes ! 6)) OR push_bit 56 (ucast (bytes ! 7)) :: uint64))))"

definition pb_dec_bool :: "byte list pb_reader" where
  "pb_dec_bool = pb_bind pb_decode_varint32 (\<lambda>val. pb_return [if val \<noteq> 0 then 1 else 0])"

definition pb_decode_bool :: "byte list pb_reader" where
  "pb_decode_bool = pb_dec_bool"

text \<open>The decoders of integers: the result, the bytes stored in the object, and the stream.  The
  object is written before the value is checked.\<close>

definition pb_dec_varint :: "pb_field \<Rightarrow> pb_istream \<Rightarrow> (bool \<times> byte list \<times> pb_istream) option" where
  "pb_dec_varint field stream =
     (case pb_decode_varint stream of
        None \<Rightarrow> None
      | Some (None, stream) \<Rightarrow> Some (False, [], stream)
      | Some (Some val, stream) \<Rightarrow>
          let n = unat (pf_data_size field);
              svalue = (if n = 8 then val else scast (ucast val :: 32 word))
          in (case (if n = 8 then Some svalue
                    else if n = 4 then Some (scast (ucast svalue :: 32 word))
                    else if n = 2 then Some (scast (ucast svalue :: 16 word))
                    else if n = 1 then Some (scast (ucast svalue :: 8 word))
                    else None) of
                None \<Rightarrow> Some (False, [], is_set_error ''invalid data_size'' stream)
              | Some clamped \<Rightarrow>
                  if clamped \<noteq> svalue then Some (False, store_le n (unat clamped), is_set_error ''integer too large'' stream)
                  else Some (True, store_le n (unat clamped), stream)))"

definition pb_dec_uvarint :: "pb_field \<Rightarrow> pb_istream \<Rightarrow> (bool \<times> byte list \<times> pb_istream) option" where
  "pb_dec_uvarint field stream =
     (case pb_decode_varint stream of
        None \<Rightarrow> None
      | Some (None, stream) \<Rightarrow> Some (False, [], stream)
      | Some (Some val, stream) \<Rightarrow>
          let n = unat (pf_data_size field)
          in (case (if n = 8 then Some val
                    else if n = 4 then Some (ucast (ucast val :: 32 word))
                    else if n = 2 then Some (ucast (ucast val :: 16 word))
                    else if n = 1 then Some (ucast (ucast val :: 8 word))
                    else None) of
                None \<Rightarrow> Some (False, [], is_set_error ''invalid data_size'' stream)
              | Some clamped \<Rightarrow>
                  if clamped \<noteq> val then Some (False, store_le n (unat clamped), is_set_error ''integer too large'' stream)
                  else Some (True, store_le n (unat clamped), stream)))"

definition pb_dec_svarint :: "pb_field \<Rightarrow> pb_istream \<Rightarrow> (bool \<times> byte list \<times> pb_istream) option" where
  "pb_dec_svarint field stream =
     (case pb_decode_svarint stream of
        None \<Rightarrow> None
      | Some (None, stream) \<Rightarrow> Some (False, [], stream)
      | Some (Some val, stream) \<Rightarrow>
          let n = unat (pf_data_size field)
          in (case (if n = 8 then Some val
                    else if n = 4 then Some (scast (ucast val :: 32 word))
                    else if n = 2 then Some (scast (ucast val :: 16 word))
                    else if n = 1 then Some (scast (ucast val :: 8 word))
                    else None) of
                None \<Rightarrow> Some (False, [], is_set_error ''invalid data_size'' stream)
              | Some clamped \<Rightarrow>
                  if clamped \<noteq> val then Some (False, store_le n (unat clamped), is_set_error ''integer too large'' stream)
                  else Some (True, store_le n (unat clamped), stream)))"

definition pb_dec_fixed32 :: "byte list pb_reader" where
  "pb_dec_fixed32 = pb_decode_fixed32"

definition pb_dec_fixed64 :: "byte list pb_reader" where
  "pb_dec_fixed64 = pb_decode_fixed64"

text \<open>The library function \<open>realloc\<close> is an argument: a pointer, or the null pointer, and a size give a block of
  the size or nothing.\<close>

type_synonym realloc = "byte list option \<Rightarrow> nat \<Rightarrow> byte list option"

definition allocate_field :: "realloc \<Rightarrow> byte list option \<Rightarrow> nat \<Rightarrow> nat \<Rightarrow> pb_istream \<Rightarrow> byte list option \<times> pb_istream" where
  "allocate_field pb_realloc ptr data_size array_size stream =
     (if data_size = 0 \<or> array_size = 0 then (None, is_set_error ''invalid size'' stream)
      else if (data_size \<ge> 0x100000000 \<or> array_size \<ge> 0x100000000) \<and> SIZE_MAX div array_size < data_size
      then (None, is_set_error ''size too large'' stream)
      else
        (case pb_realloc ptr (size_mul array_size data_size) of
           None \<Rightarrow> (None, is_set_error ''realloc failed'' stream)
         | Some ptr \<Rightarrow> (Some ptr, stream)))"

text \<open>The destination of a field: an object inside of the message, or a pointer.\<close>

datatype pb_dest = Inside "byte list" | Pointer "byte list option"

text \<open>Where a decoder stores: the memory it may write, or a failure.\<close>

definition field_memory ::
  "realloc \<Rightarrow> string \<Rightarrow> pb_field \<Rightarrow> pb_dest \<Rightarrow> nat \<Rightarrow> nat \<Rightarrow> pb_istream \<Rightarrow> (byte list option \<times> pb_istream) option" where
  "field_memory pb_realloc msg field dest sz alloc_size stream =
     (if PB_ATYPE (pf_type field) = PB_ATYPE_POINTER then
        (case dest of
           Inside _ \<Rightarrow> None
         | Pointer p \<Rightarrow>
             if is_bytes_left stream < sz then is_error ''end-of-stream'' stream
             else Some (allocate_field pb_realloc p alloc_size 1 stream))
      else
        (case dest of
           Pointer _ \<Rightarrow> None
         | Inside mem \<Rightarrow> if alloc_size > unat (pf_data_size field) then is_error msg stream else Some (Some mem, stream)))"

definition stored :: "pb_dest \<Rightarrow> byte list \<Rightarrow> pb_dest" where
  "stored dest mem = (case dest of Inside _ \<Rightarrow> Inside mem | Pointer _ \<Rightarrow> Pointer (Some mem))"

definition pb_dec_bytes :: "realloc \<Rightarrow> pb_field \<Rightarrow> pb_dest \<Rightarrow> pb_istream \<Rightarrow> (bool \<times> pb_dest \<times> pb_istream) option" where
  "pb_dec_bytes pb_realloc field dest stream =
     (case pb_decode_varint32 stream of
        None \<Rightarrow> None
      | Some (None, stream) \<Rightarrow> Some (False, dest, stream)
      | Some (Some sz, stream) \<Rightarrow>
          if sz > PB_SIZE_MAX then Some (False, dest, is_set_error ''bytes overflow'' stream)
          else
            let alloc_size = size_add (unat sz) 4
            in if unat sz > alloc_size then Some (False, dest, is_set_error ''size too large'' stream)
               else
                 (case field_memory pb_realloc ''bytes overflow'' field dest (unat sz) alloc_size stream of
                    None \<Rightarrow> None
                  | Some (None, stream) \<Rightarrow> Some (False, dest, stream)
                  | Some (Some bdest, stream) \<Rightarrow>
                      if length bdest < 4 then None
                      else
                        let bdest = poke bdest 0 (store_le 4 (unat sz))
                        in (case pb_read (unat sz) stream of
                              None \<Rightarrow> None
                            | Some (None, stream) \<Rightarrow> Some (False, stored dest bdest, stream)
                            | Some (Some bytes, stream) \<Rightarrow>
                                if length bdest < 4 + unat sz then None else Some (True, stored dest (poke bdest 4 bytes), stream))))"

definition pb_dec_string :: "realloc \<Rightarrow> pb_field \<Rightarrow> pb_dest \<Rightarrow> pb_istream \<Rightarrow> (bool \<times> pb_dest \<times> pb_istream) option" where
  "pb_dec_string pb_realloc field dest stream =
     (case pb_decode_varint32 stream of
        None \<Rightarrow> None
      | Some (None, stream) \<Rightarrow> Some (False, dest, stream)
      | Some (Some sz, stream) \<Rightarrow>
          let alloc_size = unat (sz + 1)
          in if alloc_size < unat sz then Some (False, dest, is_set_error ''size too large'' stream)
             else
               (case field_memory pb_realloc ''string overflow'' field dest (unat sz) alloc_size stream of
                  None \<Rightarrow> None
                | Some (None, stream) \<Rightarrow> Some (False, dest, stream)
                | Some (Some mem, stream) \<Rightarrow>
                    (case pb_read (unat sz) stream of
                       None \<Rightarrow> None
                     | Some (status, stream) \<Rightarrow>
                         if length mem < unat sz + 1 then None
                         else
                           let mem = (case status of None \<Rightarrow> mem | Some bytes \<Rightarrow> poke mem 0 bytes)
                           in Some (status \<noteq> None, stored dest (poke mem (unat sz) [0]), stream))))"

definition pb_dec_fixed_length_bytes :: "pb_field \<Rightarrow> byte list \<Rightarrow> pb_istream \<Rightarrow> (bool \<times> byte list \<times> pb_istream) option" where
  "pb_dec_fixed_length_bytes field dest stream =
     (case pb_decode_varint32 stream of
        None \<Rightarrow> None
      | Some (None, stream) \<Rightarrow> Some (False, dest, stream)
      | Some (Some sz, stream) \<Rightarrow>
          if sz > PB_SIZE_MAX then Some (False, dest, is_set_error ''bytes overflow'' stream)
          else if length dest < unat (pf_data_size field) then None
          else if sz = 0 then Some (True, poke dest 0 (replicate (unat (pf_data_size field)) 0), stream)
          else if sz \<noteq> pf_data_size field then Some (False, dest, is_set_error ''incorrect fixed length bytes size'' stream)
          else
            (case pb_read (unat (pf_data_size field)) stream of
               None \<Rightarrow> None
             | Some (None, stream) \<Rightarrow> Some (False, dest, stream)
             | Some (Some bytes, stream) \<Rightarrow> Some (True, poke dest 0 bytes, stream)))"

section \<open>Reading is safe\<close>

definition istream_ok :: "pb_istream \<Rightarrow> bool" where
  "istream_ok s \<longleftrightarrow> is_state s + is_bytes_left s \<le> length (is_buf s)"

text \<open>A stream after some reading: it is still within the buffer and ends where it ended.\<close>

definition later :: "pb_istream \<Rightarrow> pb_istream \<Rightarrow> bool" where
  "later s s' \<longleftrightarrow> istream_ok s' \<and> is_buf s' = is_buf s \<and> is_state s \<le> is_state s' \<and>
     is_state s' + is_bytes_left s' = is_state s + is_bytes_left s"

definition safe :: "'a pb_reader \<Rightarrow> bool" where
  "safe f \<longleftrightarrow> (\<forall>s. istream_ok s \<longrightarrow> (\<exists>r s'. f s = Some (r, s') \<and> later s s'))"

lemma later_refl: "istream_ok s \<Longrightarrow> later s s"
  by (simp add: later_def)

lemma later_trans: "later a b \<Longrightarrow> later b c \<Longrightarrow> later a c"
  by (auto simp: later_def)

lemma later_ok: "later a b \<Longrightarrow> istream_ok b"
  by (simp add: later_def)

lemma set_error_ok [simp]: "istream_ok (is_set_error msg s) = istream_ok s" "later s (is_set_error msg t) = later s t"
  by (simp_all add: is_set_error_def istream_ok_def later_def)

lemma safeD: "safe f \<Longrightarrow> istream_ok s \<Longrightarrow> \<exists>r s'. f s = Some (r, s') \<and> later s s'"
  by (simp add: safe_def)

lemma safe_error: "safe (is_error msg)"
  by (simp add: safe_def is_error_def later_refl)

lemma safe_return: "safe (pb_return x)"
  by (simp add: safe_def pb_return_def later_refl)

lemma safe_bind:
  assumes "safe f" "\<And>x. safe (g x)"
  shows "safe (pb_bind f g)"
  unfolding safe_def
proof (intro allI impI)
  fix s
  assume "istream_ok s"
  then obtain r s1 where f: "f s = Some (r, s1)" "later s s1" using safeD [OF assms(1)] by blast
  show "\<exists>r s'. pb_bind f g s = Some (r, s') \<and> later s s'"
  proof (cases r)
    case (Some x)
    then show ?thesis using safeD [OF assms(2) later_ok [OF f(2)], of x] f by (auto simp: pb_bind_def intro: later_trans)
  qed (use f in \<open>simp add: pb_bind_def\<close>)
qed

lemma safe_read: "safe (pb_read n)"
  by (auto simp: safe_def pb_read_def is_error_def buf_read_def is_set_error_def istream_ok_def later_def)

lemma safe_readbyte: "safe pb_readbyte"
  by (auto simp: safe_def pb_readbyte_def is_error_def buf_read_def is_set_error_def istream_ok_def later_def)

lemma safe_varint32_loop: "safe (pb_decode_varint32_loop r b)"
proof -
  have "\<exists>x s'. pb_decode_varint32_loop r b s = Some (x, s') \<and> later s s'" if "istream_ok s" for s
    using that
  proof (induction r b s rule: pb_decode_varint32_loop.induct)
    case (1 r b s)
    obtain x s1 where x: "pb_readbyte s = Some (x, s1)" "later s s1" using safeD [OF safe_readbyte 1(2)] by blast
    show ?case
    proof (cases x)
      case None
      then show ?thesis using x by (subst pb_decode_varint32_loop.simps) simp
    next
      case (Some byte)
      note IH = 1(1) [OF x(1) refl Some refl _ refl refl _ later_ok [OF x(2)]]
      show ?thesis using x Some IH by (subst pb_decode_varint32_loop.simps) (auto simp: Let_def is_error_def intro!: later_trans [OF x(2)])
    qed
  qed
  then show ?thesis by (simp add: safe_def)
qed

lemma safe_varint_loop: "safe (pb_decode_varint_loop r b)"
proof -
  have "\<exists>x s'. pb_decode_varint_loop r b s = Some (x, s') \<and> later s s'" if "istream_ok s" for s
    using that
  proof (induction r b s rule: pb_decode_varint_loop.induct)
    case (1 r b s)
    obtain x s1 where x: "pb_readbyte s = Some (x, s1)" "later s s1" using safeD [OF safe_readbyte 1(2)] by blast
    show ?case
    proof (cases "64 \<le> b \<or> x = None")
      case True
      then show ?thesis using x 1(2) by (subst pb_decode_varint_loop.simps) (auto simp: is_error_def later_refl)
    next
      case False
      then obtain byte where b: "\<not> 64 \<le> b" "x = Some byte" by auto
      note IH = 1(1) [OF b(1) x(1) refl b(2) refl refl _ later_ok [OF x(2)]]
      show ?thesis using x b IH by (subst pb_decode_varint_loop.simps) (auto simp: Let_def intro: later_trans [OF x(2)])
    qed
  qed
  then show ?thesis by (simp add: safe_def)
qed

lemma safe_skip_varint: "safe pb_skip_varint"
proof -
  have "\<exists>x s'. pb_skip_varint s = Some (x, s') \<and> later s s'" if "istream_ok s" for s
    using that
  proof (induction s rule: pb_skip_varint.induct)
    case (1 s)
    obtain x s1 where x: "pb_read 1 s = Some (x, s1)" "later s s1" using safeD [OF safe_read 1(2)] by blast
    show ?case
    proof (cases x)
      case (Some byte)
      note IH = 1(1) [OF x(1) refl Some _ later_ok [OF x(2)]]
      show ?thesis using x Some IH by (subst pb_skip_varint.simps) (auto intro: later_trans [OF x(2)])
    qed (use x in \<open>subst pb_skip_varint.simps, simp\<close>)
  qed
  then show ?thesis by (simp add: safe_def)
qed

lemma safe_read_raw_varint: "safe (read_raw_varint k buf)"
proof -
  have "\<exists>x s'. read_raw_varint k buf s = Some (x, s') \<and> later s s'" if "istream_ok s" for s
    using that
  proof (induction k buf s rule: read_raw_varint.induct)
    case (1 k buf s)
    obtain x s1 where x: "pb_read 1 s = Some (x, s1)" "later s s1" using safeD [OF safe_read 1(2)] by blast
    show ?case
    proof (cases "k < length buf + 1 \<or> x = None")
      case True
      then show ?thesis using x 1(2) by (subst read_raw_varint.simps) (auto simp: later_refl)
    next
      case False
      then obtain byte where b: "\<not> k < length buf + 1" "x = Some byte" by auto
      note IH = 1(1) [OF b(1) x(1) refl b(2) _ later_ok [OF x(2)]]
      show ?thesis using x b IH by (subst read_raw_varint.simps) (auto intro: later_trans [OF x(2)])
    qed
  qed
  then show ?thesis by (simp add: safe_def)
qed

lemma varint32_eof_safe:
  assumes "istream_ok s"
  shows "\<exists>r eof s'. pb_decode_varint32_eof s = Some (r, eof, s') \<and> later s s' \<and> (eof \<longrightarrow> r = None \<and> is_bytes_left s = 0)"
proof -
  obtain x s1 where x: "pb_readbyte s = Some (x, s1)" "later s s1" using safeD [OF safe_readbyte assms] by blast
  show ?thesis
  proof (cases x)
    case None
    then have "is_bytes_left s = 0" using x assms by (auto simp: pb_readbyte_def is_error_def buf_read_def split: if_splits)
    then show ?thesis using None x by (auto simp: pb_decode_varint32_eof_def)
  next
    case (Some byte)
    then show ?thesis using x safeD [OF safe_varint32_loop later_ok [OF x(2)], of "ucast (byte AND 0x7F)" 7]
      by (auto simp: pb_decode_varint32_eof_def intro: later_trans [OF x(2)])
  qed
qed

lemma safe_varint32: "safe pb_decode_varint32"
  using varint32_eof_safe by (fastforce simp: safe_def pb_decode_varint32_def)

lemma tag_safe:
  assumes "istream_ok s"
  shows "\<exists>r eof s'. pb_decode_tag s = Some (r, eof, s') \<and> later s s'"
  using varint32_eof_safe [OF assms] by (auto simp: pb_decode_tag_def split: option.split)

lemma safe_varint: "safe pb_decode_varint" "safe pb_decode_svarint"
  unfolding pb_decode_varint_def pb_decode_svarint_def by (intro safe_bind safe_varint_loop safe_return)+

lemma safe_skip_field: "safe (pb_skip_field wt)"
  unfolding pb_skip_field_def pb_skip_string_def
  by (auto intro!: safe_bind safe_varint32 safe_read safe_return safe_skip_varint safe_error)

lemma safe_read_raw_value: "safe (read_raw_value wt k)"
  unfolding read_raw_value_def by (auto intro!: safe_read safe_read_raw_varint safe_error)

lemma safe_fixed: "safe pb_decode_fixed32" "safe pb_decode_fixed64" "safe pb_decode_bool"
  unfolding pb_decode_fixed32_def pb_decode_fixed64_def pb_decode_bool_def pb_dec_bool_def
  by (intro safe_bind safe_read safe_return safe_varint32)+

text \<open>A substream is the part of the stream that it was made from.\<close>

lemma substream_safe:
  assumes "istream_ok s"
  shows "\<exists>r s'. pb_make_string_substream s = Some (r, s') \<and>
    (case r of None \<Rightarrow> later s s'
     | Some sub \<Rightarrow> istream_ok sub \<and> is_buf sub = is_buf s \<and> is_state s \<le> is_state sub \<and> is_buf s' = is_buf s \<and> is_state s' = is_state sub \<and>
         is_state sub + is_bytes_left sub + is_bytes_left s' = is_state s + is_bytes_left s)"
proof -
  obtain r s1 where "pb_decode_varint32 s = Some (r, s1)" "later s s1" using safeD [OF safe_varint32 assms] by blast
  then show ?thesis by (cases r) (auto simp: pb_make_string_substream_def pb_bind_def is_error_def is_set_error_def later_def istream_ok_def)
qed

text \<open>Closing a substream moves the stream behind it.\<close>

lemma close_substream:
  assumes "istream_ok sub"
  shows "pb_close_string_substream sub s = Some (Some (), s\<lparr>is_state := is_state sub + is_bytes_left sub, is_errmsg := is_errmsg sub\<rparr>)"
  using assms by (simp add: pb_close_string_substream_def pb_read_def buf_read_def istream_ok_def)

end
