(* ===== verification/Pb_Wire.thy ===== *)
theory Pb_Wire
  imports Pb_Decode
begin

text \<open>
  What the decoder of nanopb reads from what the encoder wrote, and from anything else.
\<close>

section \<open>Reading what was written\<close>

definition contents :: "pb_istream \<Rightarrow> byte list" where
  "contents s = take (is_bytes_left s) (drop (is_state s) (is_buf s))"

definition advance :: "nat \<Rightarrow> pb_istream \<Rightarrow> pb_istream" where
  "advance n s = s\<lparr>is_state := is_state s + n, is_bytes_left := is_bytes_left s - n\<rparr>"

text \<open>A reader takes these bytes for this value, whatever follows them.\<close>

definition reads_as :: "'a pb_reader \<Rightarrow> byte list \<Rightarrow> 'a \<Rightarrow> bool" where
  "reads_as f bs v \<longleftrightarrow> (\<forall>s rest. istream_ok s \<longrightarrow> contents s = bs @ rest \<longrightarrow> f s = Some (Some v, advance (length bs) s))"

lemma length_istream: "istream_ok s \<Longrightarrow> length (contents s) = is_bytes_left s"
  by (simp add: istream_ok_def contents_def)

lemma advance_contents:
  assumes "istream_ok s" "contents s = bs @ rest"
  shows "istream_ok (advance (length bs) s)" "contents (advance (length bs) s) = rest"
proof -
  have len: "length bs + length rest = is_bytes_left s" using length_istream [OF assms(1)] assms(2) by simp
  then show "istream_ok (advance (length bs) s)" using assms(1) by (simp add: istream_ok_def advance_def)
  have "contents (advance (length bs) s) = drop (length bs) (contents s)"
    by (simp add: contents_def advance_def drop_take add.commute)
  then show "contents (advance (length bs) s) = rest" using assms(2) by simp
qed

lemma advance_advance [simp]: "advance m (advance n s) = advance (n + m) s" "advance 0 s = s"
  by (simp_all add: advance_def)

lemma reads_as_return: "reads_as (pb_return v) [] v"
  by (simp add: reads_as_def pb_return_def)

lemma reads_as_bind:
  assumes "reads_as f a v" "reads_as (g v) b w"
  shows "reads_as (pb_bind f g) (a @ b) w"
  unfolding reads_as_def
proof (intro allI impI)
  fix s rest
  assume s: "istream_ok s" "contents s = (a @ b) @ rest"
  then have a: "f s = Some (Some v, advance (length a) s)" using assms(1) by (simp add: reads_as_def)
  have "istream_ok (advance (length a) s)" "contents (advance (length a) s) = b @ rest" using advance_contents [OF s(1), of a "b @ rest"] s(2) by simp_all
  then have "g v (advance (length a) s) = Some (Some w, advance (length b) (advance (length a) s))" using assms(2) by (simp add: reads_as_def)
  then show "pb_bind f g s = Some (Some w, advance (length (a @ b)) s)" using a by (simp add: pb_bind_def)
qed

lemma reads_as_read: "reads_as (pb_read (length bs)) bs bs"
  unfolding reads_as_def
proof (intro allI impI)
  fix s rest
  assume s: "istream_ok s" "contents s = bs @ rest"
  then have "length bs \<le> is_bytes_left s" using length_istream [of s] by simp
  moreover from this have "take (length bs) (drop (is_state s) (is_buf s)) = bs"
    using s(2) by (metis append_eq_conv_conj contents_def min.absorb1 take_take)
  ultimately show "pb_read (length bs) s = Some (Some bs, advance (length bs) s)"
    using s(1) by (auto simp: pb_read_def buf_read_def istream_ok_def advance_def)
qed

lemma readbyte_reads:
  assumes "istream_ok s" "contents s = b # rest"
  shows "pb_readbyte s = Some (Some b, advance 1 s)"
proof -
  have "pb_read 1 s = Some (Some [b], advance 1 s)" using reads_as_read [of "[b]"] assms by (simp add: reads_as_def)
  moreover have "take (Suc 0) xs = [b] \<Longrightarrow> hd xs = b" for xs :: "byte list" by (cases xs) auto
  ultimately show ?thesis by (auto simp: pb_read_def pb_readbyte_def buf_read_def is_error_def split: if_splits)
qed

text \<open>Groups of seven bits.\<close>

lemma group_byte:
  assumes "n < 128"
  shows "(of_nat n :: byte) AND 0x7F = of_nat n" "(of_nat n :: byte) AND 0x80 = 0" "(of_nat (n + 128) :: byte) AND 0x7F = of_nat n"
    "(of_nat (n + 128) :: byte) AND 0x80 \<noteq> 0"
proof -
  have u: "unat (of_nat n :: byte) = n" "unat (of_nat (n + 128) :: byte) = n + 128" using assms unat_of_nat_byte [of n] unat_of_nat_byte [of "n + 128"] by simp_all
  show "(of_nat n :: byte) AND 0x7F = of_nat n" by (rule byte_eqI) (use assms u in \<open>simp only: byte_and_7f, simp\<close>)
  show "(of_nat (n + 128) :: byte) AND 0x7F = of_nat n" by (rule byte_eqI) (simp only: byte_and_7f u, use assms in simp)
  show "(of_nat n :: byte) AND 0x80 = 0" by (simp only: byte_and_80 u assms)
  show "(of_nat (n + 128) :: byte) AND 0x80 \<noteq> 0" by (simp only: byte_and_80 u)
qed

lemma group_word: "(of_nat n :: 'a::len word) = of_nat (n mod 128) OR push_bit 7 (of_nat (n div 128))" if "7 < LENGTH('a)"
proof -
  have "128 < (2 :: nat) ^ LENGTH('a)" using power_strict_increasing [OF that, of "2 :: nat"] by simp
  then have "unat (of_nat (n mod 128) :: 'a word) < 2 ^ 7" by (simp add: unat_of_nat)
  from or_eq_plus [OF this, of "of_nat (n div 128)"]
  have "push_bit 7 (of_nat (n div 128) :: 'a word) OR of_nat (n mod 128) = of_nat (n div 128 * 128) + of_nat (n mod 128)"
    by (simp add: push_bit_eq_mult)
  also have "\<dots> = of_nat n" by (metis div_mult_mod_eq of_nat_add)
  finally show ?thesis by (simp add: or.commute)
qed

lemma ucast_group: "n < 128 \<Longrightarrow> (ucast (of_nat n :: byte) :: 'a::len word) = of_nat n"
proof -
  assume "n < 128"
  then have "unat (of_nat n :: byte) = n" using unat_of_nat_byte [of n] by simp
  then show ?thesis by (metis of_nat_unat)
qed

lemma pow_7: "(2 :: nat) ^ 7 = 128"
  by simp

lemma group_bound:
  fixes n :: nat
  assumes "n < 2 ^ (w - b)" "128 \<le> n"
  shows "b + 7 < w" "n div 128 < 2 ^ (w - (b + 7))"
proof -
  show b: "b + 7 < w"
  proof (rule ccontr)
    assume "\<not> b + 7 < w"
    then have "(2 :: nat) ^ (w - b) \<le> 2 ^ 7" by (intro power_increasing) auto
    then show False using assms by simp
  qed
  then have "w - b = w - (b + 7) + 7" by simp
  then have "(2 :: nat) ^ (w - b) = 2 ^ (w - (b + 7)) * 128" by (metis power_add pow_7)
  then show "n div 128 < 2 ^ (w - (b + 7))" using assms(1) by (simp add: less_mult_imp_div_less)
qed

lemma decode_varint_loop:
  assumes "n < 2 ^ (64 - b)" "b < 64"
  shows "reads_as (pb_decode_varint_loop r b) (varint n) (r OR push_bit b (of_nat n))"
  using assms
proof (induction n arbitrary: r b rule: varint.induct)
  case (1 n)
  show ?case
    unfolding reads_as_def
  proof (intro allI impI)
    fix s rest
    assume s: "istream_ok s" "contents s = varint n @ rest"
    show "pb_decode_varint_loop r b s = Some (Some (r OR push_bit b (of_nat n)), advance (length (varint n)) s)"
    proof (cases "n < 128")
      case True
      then have "contents s = of_nat n # rest" using s(2) by (simp add: varint_small)
      from readbyte_reads [OF s(1) this] show ?thesis
        using True 1(3) group_byte [OF True] ucast_group [OF True, where 'a = 64]
        by (subst pb_decode_varint_loop.simps) (simp add: varint_small Let_def)
    next
      case False
      have m: "n mod 128 < 128" by simp
      have c: "contents s = [of_nat (n mod 128 + 128)] @ varint (n div 128) @ rest" using s(2) False by (simp add: varint_large)
      have bnd: "b + 7 < 64" "n div 128 < 2 ^ (64 - (b + 7))" using group_bound [OF 1(2)] False by simp_all
      then have IH: "reads_as (pb_decode_varint_loop (r OR push_bit b (of_nat (n mod 128))) (b + 7)) (varint (n div 128))
          ((r OR push_bit b (of_nat (n mod 128))) OR push_bit (b + 7) (of_nat (n div 128)))" using 1(1) [OF False] by blast
      have adv: "istream_ok (advance 1 s)" "contents (advance 1 s) = varint (n div 128) @ rest" using advance_contents [OF s(1) c] by simp_all
      have "push_bit b (of_nat n :: uint64) = push_bit b (of_nat (n mod 128)) OR push_bit (b + 7) (of_nat (n div 128))"
        using group_word [of n, where 'a = 64] by (simp add: push_bit_or)
      then show ?thesis using readbyte_reads [OF s(1) c [simplified]] IH adv 1(3) bnd(1) group_byte [OF m] ucast_group [OF m, where 'a = 64] False
        by (subst pb_decode_varint_loop.simps) (simp add: varint_large reads_as_def Let_def or.assoc)
    qed
  qed
qed

lemma varint_reads: "reads_as pb_decode_varint (varint (unat v)) v"
  using decode_varint_loop [of "unat v" 0 0] unsigned_less [of v, where 'a = nat] by (simp add: pb_decode_varint_def)

lemma decode_varint32_loop:
  assumes "n < 2 ^ (32 - b)" "b < 32"
  shows "reads_as (pb_decode_varint32_loop r b) (varint n) (r OR push_bit b (of_nat n))"
  using assms
proof (induction n arbitrary: r b rule: varint.induct)
  case (1 n)
  show ?case
    unfolding reads_as_def
  proof (intro allI impI)
    fix s rest
    assume s: "istream_ok s" "contents s = varint n @ rest"
    show "pb_decode_varint32_loop r b s = Some (Some (r OR push_bit b (of_nat n)), advance (length (varint n)) s)"
    proof (cases "n < 128")
      case True
      then have c: "contents s = of_nat n # rest" using s(2) by (simp add: varint_small)
      have "(of_nat n :: byte) AND 0x70 = 0" if "b = 28"
      proof -
        have "(of_nat n :: byte) AND mask 4 = of_nat n" using 1(2) that unat_and_mask [of "of_nat n :: byte" 4] unat_of_nat_byte [of n] by (intro byte_eqI) simp
        then have "(of_nat n :: byte) AND 0x70 = of_nat n AND (mask 4 AND 0x70)" by (metis and.assoc)
        then show ?thesis by (simp add: mask_eq_exp_minus_1)
      qed
      then show ?thesis using readbyte_reads [OF s(1) c] True 1(3) group_byte [OF True] ucast_group [OF True, where 'a = 32]
        by (subst pb_decode_varint32_loop.simps) (auto simp: varint_small Let_def)
    next
      case False
      have m: "n mod 128 < 128" by simp
      have c: "contents s = [of_nat (n mod 128 + 128)] @ varint (n div 128) @ rest" using s(2) False by (simp add: varint_large)
      have bnd: "b + 7 < 32" "n div 128 < 2 ^ (32 - (b + 7))" using group_bound [OF 1(2)] False by simp_all
      then have IH: "reads_as (pb_decode_varint32_loop (r OR push_bit b (of_nat (n mod 128))) (b + 7)) (varint (n div 128))
          ((r OR push_bit b (of_nat (n mod 128))) OR push_bit (b + 7) (of_nat (n div 128)))" using 1(1) [OF False] by blast
      have adv: "istream_ok (advance 1 s)" "contents (advance 1 s) = varint (n div 128) @ rest" using advance_contents [OF s(1) c] by simp_all
      have "push_bit b (of_nat n :: uint32) = push_bit b (of_nat (n mod 128)) OR push_bit (b + 7) (of_nat (n div 128))"
        using group_word [of n, where 'a = 32] by (simp add: push_bit_or)
      then show ?thesis using readbyte_reads [OF s(1) c [simplified]] IH adv 1(3) bnd(1) group_byte [OF m] ucast_group [OF m, where 'a = 32] False
        by (subst pb_decode_varint32_loop.simps) (simp add: varint_large reads_as_def Let_def or.assoc)
    qed
  qed
qed

lemma varint32_eof_reads:
  assumes "istream_ok s" "contents s = varint n @ rest" "n < 2 ^ 32"
  shows "pb_decode_varint32_eof s = Some (Some (of_nat n), False, advance (length (varint n)) s)"
proof (cases "n < 128")
  case True
  then have "contents s = of_nat n # rest" using assms(2) by (simp add: varint_small)
  from readbyte_reads [OF assms(1) this] show ?thesis
    using True group_byte [OF True] ucast_group [OF True, where 'a = 32] by (simp add: pb_decode_varint32_eof_def varint_small)
next
  case False
  have m: "n mod 128 < 128" by simp
  have c: "contents s = [of_nat (n mod 128 + 128)] @ varint (n div 128) @ rest" using assms(2) False by (simp add: varint_large)
  have "reads_as (pb_decode_varint32_loop (of_nat (n mod 128)) 7) (varint (n div 128)) (of_nat (n mod 128) OR push_bit 7 (of_nat (n div 128)))"
    using assms(3) by (intro decode_varint32_loop) (simp_all add: less_mult_imp_div_less)
  then have "pb_decode_varint32_loop (of_nat (n mod 128)) 7 (advance 1 s) = Some (Some (of_nat n), advance (length (varint n)) s)"
    using advance_contents [OF assms(1) c] group_word [of n, where 'a = 32] False by (simp add: reads_as_def varint_large)
  then show ?thesis using readbyte_reads [OF assms(1) c [simplified]] group_byte [OF m] ucast_group [OF m, where 'a = 32]
    by (simp add: pb_decode_varint32_eof_def)
qed

lemma varint32_reads: "n < 2 ^ 32 \<Longrightarrow> reads_as pb_decode_varint32 (varint n) (of_nat n)"
  using varint32_eof_reads by (simp add: reads_as_def pb_decode_varint32_def)

text \<open>On the same bytes the decoder for 32 bits gives the low half of what the decoder for 64 bits
  gives, unless it refuses them.\<close>

lemma low_half:
  "ucast (r OR push_bit b (ucast (x :: byte) :: uint64)) = (if 32 \<le> b then ucast r else ucast r OR push_bit b (ucast x) :: uint32)"
  by (rule bit_word_eqI) (auto simp: bit_simps)

lemma varint32_loop_agrees:
  assumes "pb_decode_varint_loop r b s = Some (Some v, s')"
  shows "\<exists>x s2. pb_decode_varint32_loop (ucast r) b s = Some (x, s2) \<and> (x = None \<or> x = Some (ucast v) \<and> s2 = s')"
  using assms
proof (induction r b s rule: pb_decode_varint_loop.induct)
  case (1 r b s)
  have b: "\<not> 64 \<le> b" using 1(2) by (subst (asm) pb_decode_varint_loop.simps) (auto simp: is_error_def split: if_splits)
  then obtain byte s1 where read: "pb_readbyte s = Some (Some byte, s1)"
    using 1(2) by (subst (asm) pb_decode_varint_loop.simps) (auto split: option.splits)
  let ?r = "r OR push_bit b (ucast (byte AND 0x7F))" and ?b = "(b + 7) mod 256"
  have r32: "(ucast ?r :: uint32) = (if 32 \<le> b then ucast r else ucast r OR push_bit b (ucast (byte AND 0x7F)))" by (rule low_half)
  have eq: "pb_decode_varint_loop r b s = (if byte AND 0x80 \<noteq> 0 then pb_decode_varint_loop ?r ?b s1 else Some (Some ?r, s1))"
    using b read by (subst pb_decode_varint_loop.simps) (simp add: Let_def)
  show ?case
  proof (cases "byte AND 0x80 = 0")
    case True
    then have "v = ?r" "s1 = s'" using 1(2) by (simp_all add: eq)
    then show ?thesis using True read r32 by (subst pb_decode_varint32_loop.simps) (auto simp: Let_def is_error_def)
  next
    case False
    then have "pb_decode_varint_loop ?r ?b s1 = Some (Some v, s')" using 1(2) by (simp add: eq)
    with 1(1) [OF b read refl refl refl refl False] show ?thesis
      using False read r32 by (subst pb_decode_varint32_loop.simps) (auto simp: Let_def is_error_def)
  qed
qed

lemma varint32_as_loop: "pb_decode_varint32 s = pb_decode_varint32_loop 0 0 s"
proof (cases "pb_readbyte s")
  case (Some p)
  obtain x s1 where p: "p = (x, s1)" by force
  show ?thesis
  proof (cases x)
    case (Some byte)
    have "byte AND 0x80 = 0 \<Longrightarrow> byte AND 0x7F = byte" by (rule byte_eqI) (simp add: byte_and_7f byte_and_80)
    then show ?thesis using Some \<open>pb_readbyte s = Some p\<close> p
      by (subst pb_decode_varint32_loop.simps) (auto simp: pb_decode_varint32_def pb_decode_varint32_eof_def Let_def option.map_comp o_def case_prod_unfold option.map_ident)
  qed (use Some p in \<open>subst pb_decode_varint32_loop.simps, simp add: pb_decode_varint32_def pb_decode_varint32_eof_def\<close>)
qed (subst pb_decode_varint32_loop.simps, simp add: pb_decode_varint32_def pb_decode_varint32_eof_def)

lemma varint32_agrees:
  "pb_decode_varint s = Some (Some v, s') \<Longrightarrow>
    \<exists>x s2. pb_decode_varint32 s = Some (x, s2) \<and> (x = None \<or> x = Some (ucast v) \<and> s2 = s')"
  unfolding varint32_as_loop pb_decode_varint_def using varint32_loop_agrees [of 0 0 s v s'] by simp

text \<open>The decoder for 32 bits does not refuse every larger number: the upper bits of the fifth byte are
  lost when more bytes follow, and the position in the result, eight bits wide, wraps around after 37
  bytes, so that the next byte is added at bit 3.\<close>

lemma varint32_truncates:
  "let s = pb_istream_from_buffer [0x80, 0x80, 0x80, 0x80, 0xF0, 0x00] 6
   in map_option fst (pb_decode_varint32 s) = Some (Some 0) \<and> map_option fst (pb_decode_varint s) = Some (Some 0x700000000)"
  by (simp add: varint32_as_loop pb_decode_varint_def pb_istream_from_buffer_def pb_decode_varint32_loop.simps
      pb_decode_varint_loop.simps pb_readbyte_def buf_read_def Let_def)

lemma varint32_wraps:
  assumes "istream_ok s" "contents s = 0x80 # byte # rest" "byte AND 0x80 = 0"
  shows "pb_decode_varint32_loop r 252 s = Some (Some (r OR push_bit 3 (ucast (byte AND 0x7F))), advance 2 s)"
proof -
  have "istream_ok (advance 1 s)" "contents (advance 1 s) = byte # rest" using advance_contents [OF assms(1), of "[0x80]"] assms(2) by simp_all
  from readbyte_reads [OF assms(1,2)] readbyte_reads [OF this] show ?thesis
    using assms(3) by (subst pb_decode_varint32_loop.simps) (simp add: Let_def, subst pb_decode_varint32_loop.simps, simp add: Let_def numeral_2_eq_2)
qed

section \<open>Other encodings\<close>

lemma sint_neg_iff: "sint v < 0 \<longleftrightarrow> bit v 63" for v :: uint64
  using bit_last_iff [of v] by simp

lemma zigzag:
  fixes v :: uint64
  defines "z \<equiv> (if sint v < 0 then NOT (push_bit 1 v) else push_bit 1 v)"
  shows "(if z AND 1 \<noteq> 0 then NOT (drop_bit 1 z) else drop_bit 1 z) = v"
proof -
  define w where "w = push_bit 1 v"
  have w: "bit w n \<longleftrightarrow> 1 \<le> n \<and> n < 64 \<and> bit v (n - 1)" for n
    unfolding w_def by (simp only: bit_push_bit_iff possible_bit_word) auto
  have z: "z = (if bit v 63 then NOT w else w)" by (simp only: z_def sint_neg_iff w_def)
  have "z AND 1 \<noteq> 0 \<longleftrightarrow> odd z" by (simp add: and_one_eq odd_iff_mod_2_eq_one)
  also have "\<dots> \<longleftrightarrow> bit z 0" by (simp add: bit_0)
  also have "\<dots> \<longleftrightarrow> bit v 63" by (simp add: z bit_not_iff w)
  finally have odd: "z AND 1 \<noteq> 0 \<longleftrightarrow> bit v 63" .
  show ?thesis unfolding odd
  proof (rule bit_word_eqI)
    fix n
    assume "n < LENGTH(64)"
    then show "bit (if bit v 63 then NOT (drop_bit 1 z) else drop_bit 1 z) n = bit v n"
      by (cases "n = 63") (auto simp: z bit_not_iff bit_drop_bit_eq w)
  qed
qed

definition zigzag_word :: "uint64 \<Rightarrow> uint64" where
  "zigzag_word v = (if sint v < 0 then NOT (push_bit 1 v) else push_bit 1 v)"

lemma writes_svarint: "writes (pb_encode_svarint v) (varint (unat (zigzag_word v)))"
  using writes_varint [of "zigzag_word v"] unfolding pb_encode_svarint_def zigzag_word_def Let_def .

lemma svarint_reads: "reads_as pb_decode_svarint (varint (unat (zigzag_word v))) v"
proof -
  have "reads_as pb_decode_svarint (varint (unat (zigzag_word v)) @ []) v"
    unfolding pb_decode_svarint_def
    by (rule reads_as_bind [OF varint_reads]) (simp only: zigzag [of v, folded zigzag_word_def] reads_as_return)
  then show ?thesis by simp
qed

text \<open>A word from its bytes.\<close>

lemma store_le_word:
  fixes w :: "'a::len word"
  assumes "8 * k = LENGTH('a)" "length bs = k" "\<And>i. i < k \<Longrightarrow> ucast (drop_bit (8 * i) w) = bs ! i"
  shows "store_le k (unat w) = bs"
proof -
  have "store_le k (unat w) = map (\<lambda>i. ucast (drop_bit (8 * i) w)) [0..<k]" by (simp add: store_le_def nat_be_word rev_map)
  also have "\<dots> = bs" using assms(2,3) by (intro nth_equalityI) simp_all
  finally show ?thesis .
qed

lemma fixed32_reads: "length bs = 4 \<Longrightarrow> reads_as pb_decode_fixed32 bs bs"
proof -
  assume l: "length bs = 4"
  let ?w = "push_bit 0 (ucast (bs ! 0)) OR push_bit 8 (ucast (bs ! 1)) OR push_bit 16 (ucast (bs ! 2)) OR push_bit 24 (ucast (bs ! 3)) :: uint32"
  have "store_le 4 (unat ?w) = bs"
  proof (rule store_le_word)
    show "ucast (drop_bit (8 * i) ?w) = bs ! i" if "i < 4" for i
    proof -
      consider "i = 0" | "i = 1" | "i = 2" | "i = 3" using \<open>i < 4\<close> by linarith
      then show ?thesis by cases (rule bit_word_eqI, auto simp: bit_simps dest: bit_imp_le_length)+
    qed
  qed (use l in simp_all)
  then have "reads_as (pb_return (store_le 4 (unat ?w))) [] bs" by (simp add: reads_as_return)
  from reads_as_bind [OF reads_as_read [of bs, unfolded l], of "\<lambda>bytes. pb_return (store_le 4 (unat (
       push_bit 0 (ucast (bytes ! 0)) OR push_bit 8 (ucast (bytes ! 1)) OR push_bit 16 (ucast (bytes ! 2)) OR
       push_bit 24 (ucast (bytes ! 3)) :: uint32)))", OF this]
  show ?thesis unfolding pb_decode_fixed32_def by simp
qed

lemma fixed64_reads: "length bs = 8 \<Longrightarrow> reads_as pb_decode_fixed64 bs bs"
proof -
  assume l: "length bs = 8"
  let ?w = "push_bit 0 (ucast (bs ! 0)) OR push_bit 8 (ucast (bs ! 1)) OR push_bit 16 (ucast (bs ! 2)) OR push_bit 24 (ucast (bs ! 3)) OR
     push_bit 32 (ucast (bs ! 4)) OR push_bit 40 (ucast (bs ! 5)) OR push_bit 48 (ucast (bs ! 6)) OR push_bit 56 (ucast (bs ! 7)) :: uint64"
  have "store_le 8 (unat ?w) = bs"
  proof (rule store_le_word)
    show "ucast (drop_bit (8 * i) ?w) = bs ! i" if "i < 8" for i
    proof -
      have "bit (ucast (drop_bit (8 * i) ?w) :: byte) n = bit (bs ! i) n" if "n < 8" for n
        using less8_cases [OF \<open>i < 8\<close>] that by (elim disjE) (auto simp: bit_simps dest: bit_imp_le_length)
      then show ?thesis by (rule byte_eq_bits)
    qed
  qed (use l in simp_all)
  then have "reads_as (pb_return (store_le 8 (unat ?w))) [] bs" by (simp add: reads_as_return)
  from reads_as_bind [OF reads_as_read [of bs, unfolded l], of "\<lambda>bytes. pb_return (store_le 8 (unat (
       push_bit 0 (ucast (bytes ! 0)) OR push_bit 8 (ucast (bytes ! 1)) OR push_bit 16 (ucast (bytes ! 2)) OR
       push_bit 24 (ucast (bytes ! 3)) OR push_bit 32 (ucast (bytes ! 4)) OR push_bit 40 (ucast (bytes ! 5)) OR
       push_bit 48 (ucast (bytes ! 6)) OR push_bit 56 (ucast (bytes ! 7)) :: uint64)))", OF this]
  show ?thesis unfolding pb_decode_fixed64_def by simp
qed

lemma tag_reads:
  assumes "istream_ok s" "contents s = varint (8 * unat t + unat wt) @ rest" "unat t < 2 ^ 29" "unat wt < 8" "t \<noteq> 0"
  shows "pb_decode_tag s = Some (Some (wt, t), False, advance (length (varint (8 * unat t + unat wt))) s)"
proof -
  have n: "8 * unat t + unat wt < 2 ^ 32" using assms(3,4) by simp
  let ?x = "of_nat (8 * unat t + unat wt) :: uint32"
  have u: "unat ?x = 8 * unat t + unat wt" using n unat_of_nat [of "8 * unat t + unat wt", where 'a = 32] by simp
  have "?x AND 7 = wt" using unat_and_mask [of ?x 3] assms(4) unfolding u by (intro byte_eqI) (simp add: mask_eq_exp_minus_1)
  moreover have "drop_bit 3 ?x = t" using unat_drop_bit [of 3 ?x] assms(4) unfolding u by (intro byte_eqI) simp
  moreover have "?x \<noteq> 0" using u assms(5) by (metis add_is_0 mult_is_0 unat_0 unat_eq_zero zero_neq_numeral)
  ultimately show ?thesis using varint32_eof_reads [OF assms(1,2) n] by (simp only: pb_decode_tag_def option.case prod.case if_False)
qed

lemma skip_varint_reads: "reads_as pb_skip_varint (varint n) ()"
proof (induction n rule: varint.induct)
  case (1 n)
  show ?case
    unfolding reads_as_def
  proof (intro allI impI)
    fix s rest
    assume s: "istream_ok s" "contents s = varint n @ rest"
    have read: "pb_read 1 s = Some (Some [b], advance 1 s)" if "contents s = b # r" for b r
      using reads_as_read [of "[b]"] s(1) that by (simp add: reads_as_def)
    show "pb_skip_varint s = Some (Some (), advance (length (varint n)) s)"
    proof (cases "n < 128")
      case True
      then show ?thesis using read [of "of_nat n" rest] s(2) group_byte [OF True] by (subst pb_skip_varint.simps) (simp add: varint_small)
    next
      case False
      have m: "n mod 128 < 128" by simp
      have c: "contents s = [of_nat (n mod 128 + 128)] @ varint (n div 128) @ rest" using s(2) False by (simp add: varint_large)
      have "pb_skip_varint (advance 1 s) = Some (Some (), advance (length (varint (n div 128))) (advance 1 s))"
        using 1 [OF False] advance_contents [OF s(1) c] by (simp add: reads_as_def)
      then show ?thesis using read [of "of_nat (n mod 128 + 128)"] c group_byte [OF m] False by (subst pb_skip_varint.simps) (simp add: varint_large)
    qed
  qed
qed

lemma unat_length: "length b < 2 ^ 32 \<Longrightarrow> unat (of_nat (length b) :: uint32) = length b"
  by (simp add: unat_of_nat)

lemma skip_string_reads:
  assumes "length b < 2 ^ 32"
  shows "reads_as pb_skip_string (varint (length b) @ b) ()"
proof -
  have "reads_as (pb_bind (pb_read (unat (of_nat (length b) :: uint32))) (\<lambda>_. pb_return ())) (b @ []) ()"
    unfolding unat_length [OF assms] by (rule reads_as_bind [OF reads_as_read reads_as_return])
  from reads_as_bind [OF varint32_reads [OF assms], of "\<lambda>len. pb_bind (pb_read (unat len)) (\<lambda>_. pb_return ())", OF this]
  show ?thesis by (simp add: pb_skip_string_def)
qed

section \<open>Sequences of fields\<close>

text \<open>The values of the wire format, and the programs that write and read a sequence of them with the
  functions above.\<close>

datatype pb_value = Varint uint64 | Fixed64 "byte list" | Bytes "byte list" | Fixed32 "byte list"

type_synonym pb_fields = "(uint32 \<times> pb_value) list"

fun wire_type :: "pb_value \<Rightarrow> pb_wire_type" where
  "wire_type (Varint _) = PB_WT_VARINT"
| "wire_type (Fixed64 _) = PB_WT_64BIT"
| "wire_type (Bytes _) = PB_WT_STRING"
| "wire_type (Fixed32 _) = PB_WT_32BIT"

fun value_ok :: "pb_value \<Rightarrow> bool" where
  "value_ok (Varint _) = True"
| "value_ok (Fixed64 p) = (length p = 8)"
| "value_ok (Bytes b) = (length b < 0x100000000)"
| "value_ok (Fixed32 p) = (length p = 4)"

fun value_bytes :: "pb_value \<Rightarrow> byte list" where
  "value_bytes (Varint v) = varint (unat v)"
| "value_bytes (Fixed64 p) = p"
| "value_bytes (Bytes b) = varint (length b) @ b"
| "value_bytes (Fixed32 p) = p"

definition tag_of_field :: "uint32 \<times> pb_value \<Rightarrow> byte list" where
  "tag_of_field f = varint (8 * unat (fst f) + unat (wire_type (snd f)))"

definition wire_bytes :: "pb_fields \<Rightarrow> byte list" where
  "wire_bytes fs = concat (map (\<lambda>f. tag_of_field f @ value_bytes (snd f)) fs)"

fun put_value :: "pb_value \<Rightarrow> pb_writer" where
  "put_value (Varint v) = pb_encode_varint v"
| "put_value (Fixed64 p) = pb_encode_fixed64 p"
| "put_value (Bytes b) = pb_encode_string (Some b) (length b)"
| "put_value (Fixed32 p) = pb_encode_fixed32 p"

fun put_fields :: "pb_fields \<Rightarrow> pb_writer" where
  "put_fields [] stream = Some (True, stream)"
| "put_fields ((t, v) # fs) stream = pb_and (pb_and (pb_encode_tag (wire_type v) t) (put_value v)) (put_fields fs) stream"

definition get_string :: "byte list pb_reader" where
  "get_string stream =
     (case pb_make_string_substream stream of
        None \<Rightarrow> None
      | Some (None, stream) \<Rightarrow> Some (None, stream)
      | Some (Some sub, stream) \<Rightarrow>
          (case pb_read (is_bytes_left sub) sub of
             None \<Rightarrow> None
           | Some (None, _) \<Rightarrow> Some (None, stream)
           | Some (Some b, sub) \<Rightarrow> pb_bind (pb_close_string_substream sub) (\<lambda>_. pb_return b) stream))"

definition get_value :: "pb_wire_type \<Rightarrow> pb_value pb_reader" where
  "get_value wt =
     (if wt = PB_WT_VARINT then pb_bind pb_decode_varint (\<lambda>v. pb_return (Varint v))
      else if wt = PB_WT_64BIT then pb_bind pb_decode_fixed64 (\<lambda>p. pb_return (Fixed64 p))
      else if wt = PB_WT_STRING then pb_bind get_string (\<lambda>b. pb_return (Bytes b))
      else if wt = PB_WT_32BIT then pb_bind pb_decode_fixed32 (\<lambda>p. pb_return (Fixed32 p))
      else is_error ''invalid wire_type'')"

text \<open>Reading all fields, and skipping all of them, up to the end of the stream.\<close>

partial_function (option) get_fields :: "pb_fields \<Rightarrow> pb_istream \<Rightarrow> (pb_fields option \<times> pb_istream) option" where
  "get_fields acc stream =
     (case pb_decode_tag stream of
        None \<Rightarrow> None
      | Some (None, eof, stream) \<Rightarrow> Some (if eof then Some acc else None, stream)
      | Some (Some (wt, t), _, stream) \<Rightarrow>
          (case get_value wt stream of
             None \<Rightarrow> None
           | Some (None, stream) \<Rightarrow> Some (None, stream)
           | Some (Some v, stream) \<Rightarrow> get_fields (acc @ [(t, v)]) stream))"

partial_function (option) skip_fields :: "pb_istream \<Rightarrow> (bool \<times> pb_istream) option" where
  "skip_fields stream =
     (case pb_decode_tag stream of
        None \<Rightarrow> None
      | Some (None, eof, stream) \<Rightarrow> Some (eof, stream)
      | Some (Some (wt, t), _, stream) \<Rightarrow>
          (case pb_skip_field wt stream of
             None \<Rightarrow> None
           | Some (None, stream) \<Rightarrow> Some (False, stream)
           | Some (Some _, stream) \<Rightarrow> skip_fields stream))"

lemma string_writes: "length b < 0x100000000 \<Longrightarrow> writes (pb_encode_string (Some b) (length b)) (varint (length b) @ b)"
  using writes_string [of "length b" b] by simp

lemma writes_value: "value_ok v \<Longrightarrow> writes (put_value v) (value_bytes v)"
  using writes_varint writes_fixed32 [of "value_bytes v"] writes_fixed64 [of "value_bytes v"]
  by (cases v) (simp_all add: string_writes)

lemma writes_fields: "\<forall>f \<in> set fs. value_ok (snd f) \<Longrightarrow> writes (put_fields fs) (wire_bytes fs)"
proof (induction fs)
  case Nil
  then show ?case using writes_nothing by (rule_tac writes_cong [OF _ put_fields.simps(1)]) (simp add: wire_bytes_def)
next
  case (Cons f fs)
  obtain t v where f: "f = (t, v)" by force
  have wt: "unat (wire_type v) < 8" by (cases v) simp_all
  have "writes (pb_and (pb_and (pb_encode_tag (wire_type v) t) (put_value v)) (put_fields fs)) ((tag_of_field f @ value_bytes v) @ wire_bytes fs)"
    using Cons by (intro writes_and) (auto simp: f tag_of_field_def intro: writes_tag [OF wt] writes_value)
  then show ?case by (rule_tac writes_cong) (auto simp: f wire_bytes_def)
qed

lemma string_reads:
  assumes "length b < 2 ^ 32"
  shows "reads_as get_string (varint (length b) @ b) b"
  unfolding reads_as_def
proof (intro allI impI)
  fix s rest
  assume s: "istream_ok s" "contents s = (varint (length b) @ b) @ rest"
  let ?s = "advance (length (varint (length b))) s"
  have len: "pb_decode_varint32 s = Some (Some (of_nat (length b)), ?s)" using varint32_reads [OF assms] s by (simp add: reads_as_def)
  have c: "istream_ok ?s" "contents ?s = b @ rest" using advance_contents [OF s(1), of "varint (length b)"] s(2) by simp_all
  then have left: "length b \<le> is_bytes_left ?s" using length_istream [OF c(1)] by simp
  define sub where "sub = ?s\<lparr>is_bytes_left := length b\<rparr>"
  have make: "pb_make_string_substream s = Some (Some sub, ?s\<lparr>is_bytes_left := is_bytes_left ?s - length b\<rparr>)"
    using len left unat_length [OF assms] by (simp add: pb_make_string_substream_def pb_bind_def sub_def)
  have "istream_ok sub" using c(1) left by (simp add: sub_def istream_ok_def)
  moreover have "contents sub = take (length b) (contents ?s)" using left by (simp add: contents_def sub_def min_def)
  ultimately have "istream_ok sub" "contents sub = b @ []" using c(2) by simp_all
  then have read: "pb_read (is_bytes_left sub) sub = Some (Some b, advance (length b) sub)" "istream_ok (advance (length b) sub)"
    using reads_as_read [of b] advance_contents(1) by (auto simp: reads_as_def sub_def)
  show "get_string s = Some (Some b, advance (length (varint (length b) @ b)) s)"
    using close_substream [OF read(2)] make read(1)
    by (simp add: get_string_def pb_bind_def pb_return_def) (simp add: sub_def advance_def)
qed

lemma reads_as_map: "reads_as f bs x \<Longrightarrow> reads_as (pb_bind f (\<lambda>x. pb_return (g x))) bs (g x)"
  using reads_as_bind [of f bs x "\<lambda>x. pb_return (g x)" "[]"] reads_as_return by fastforce

lemma value_reads: "value_ok v \<Longrightarrow> reads_as (get_value (wire_type v)) (value_bytes v) v"
  using reads_as_map [OF varint_reads, of Varint] reads_as_map [OF fixed64_reads, of _ Fixed64] reads_as_map [OF fixed32_reads, of _ Fixed32]
    reads_as_map [OF string_reads, of _ Bytes]
  by (cases v) (simp_all add: get_value_def)

lemma skip_reads: "value_ok v \<Longrightarrow> reads_as (pb_skip_field (wire_type v)) (value_bytes v) ()"
proof (cases v)
  case (Fixed64 p)
  assume "value_ok v"
  then show ?thesis using Fixed64 reads_as_bind [OF reads_as_read [of p] reads_as_return [of "()"]] by (simp add: pb_skip_field_def)
next
  case (Fixed32 p)
  assume "value_ok v"
  then show ?thesis using Fixed32 reads_as_bind [OF reads_as_read [of p] reads_as_return [of "()"]] by (simp add: pb_skip_field_def)
qed (use skip_varint_reads skip_string_reads in \<open>simp_all add: pb_skip_field_def\<close>)

lemma field_reads:
  assumes "istream_ok s" "contents s = wire_bytes ((t, v) # fs)" "t \<noteq> 0" "unat t < 2 ^ 29" "value_ok v"
  shows "\<exists>s1 s2. pb_decode_tag s = Some (Some (wire_type v, t), False, s1) \<and> get_value (wire_type v) s1 = Some (Some v, s2) \<and>
    pb_skip_field (wire_type v) s1 = Some (Some (), s2) \<and> istream_ok s2 \<and> contents s2 = wire_bytes fs"
proof -
  let ?t = "tag_of_field (t, v)"
  have wt: "unat (wire_type v) < 8" by (cases v) simp_all
  have c: "contents s = ?t @ value_bytes v @ wire_bytes fs" using assms(2) by (simp add: wire_bytes_def)
  note s1 = advance_contents [OF assms(1) c]
  note s2 = advance_contents [OF s1]
  have "pb_decode_tag s = Some (Some (wire_type v, t), False, advance (length ?t) s)"
    using tag_reads [OF assms(1) _ assms(4) wt assms(3)] c by (simp add: tag_of_field_def)
  moreover have "get_value (wire_type v) (advance (length ?t) s) = Some (Some v, advance (length (value_bytes v)) (advance (length ?t) s))"
      "pb_skip_field (wire_type v) (advance (length ?t) s) = Some (Some (), advance (length (value_bytes v)) (advance (length ?t) s))"
    using value_reads [OF assms(5)] skip_reads [OF assms(5)] s1 by (simp_all add: reads_as_def del: advance_advance)
  ultimately show ?thesis using s2 by blast
qed

lemma tag_at_end: "istream_ok s \<Longrightarrow> contents s = [] \<Longrightarrow> \<exists>s'. pb_decode_tag s = Some (None, True, s')"
  using length_istream [of s]
  by (auto simp: pb_decode_tag_def pb_decode_varint32_eof_def pb_readbyte_def is_error_def is_set_error_def)

lemma fields_read:
  assumes "\<forall>f \<in> set fs. fst f \<noteq> 0 \<and> unat (fst f) < 2 ^ 29 \<and> value_ok (snd f)" "istream_ok s" "contents s = wire_bytes fs"
  shows "(\<exists>s'. get_fields acc s = Some (Some (acc @ fs), s')) \<and> (\<exists>s'. skip_fields s = Some (True, s'))"
  using assms
proof (induction fs arbitrary: acc s)
  case Nil
  then obtain s' where "pb_decode_tag s = Some (None, True, s')" using tag_at_end by (auto simp: wire_bytes_def)
  then show ?case by (simp add: get_fields.simps [of acc s] skip_fields.simps [of s])
next
  case (Cons f fs)
  obtain t v where f: "f = (t, v)" by force
  obtain s1 s2 where r: "pb_decode_tag s = Some (Some (wire_type v, t), False, s1)" "get_value (wire_type v) s1 = Some (Some v, s2)"
      "pb_skip_field (wire_type v) s1 = Some (Some (), s2)" "istream_ok s2" "contents s2 = wire_bytes fs"
    using field_reads [OF Cons.prems(2), of t v fs] Cons.prems(1,3) by (auto simp: f)
  show ?case using Cons.IH [OF _ r(4,5), of "acc @ [f]"] Cons.prems(1) r(1-3)
    by (simp add: get_fields.simps [of acc s] skip_fields.simps [of s] f)
qed

text \<open>The stream over the written part of a buffer.\<close>

lemma written:
  assumes "writes f bs" "length bs \<le> length buf" "length buf \<le> SIZE_MAX"
  shows "f (pb_ostream_from_buffer buf (length buf)) = Some (True, emit bs (pb_ostream_from_buffer buf (length buf)))"
    "istream_ok (pb_istream_from_buffer (bs @ drop (length bs) buf) (length bs))"
    "contents (pb_istream_from_buffer (bs @ drop (length bs) buf) (length bs)) = bs"
    "os_buf (emit bs (pb_ostream_from_buffer buf (length buf))) = bs @ drop (length bs) buf"
    "os_bytes_written (emit bs (pb_ostream_from_buffer buf (length buf))) = length bs"
  using writesD(1) [OF assms(1), of "pb_ostream_from_buffer buf (length buf)"] assms(2,3)
  by (auto simp: pb_ostream_from_buffer_def pb_istream_from_buffer_def ostream_ok_def fits_def emit_def istream_ok_def contents_def poke_def)

section \<open>The interface of an encoding\<close>

lemma reads_all:
  assumes "reads_as f bs v" "istream_ok s" "contents s = bs"
  shows "\<exists>s'. f s = Some (Some v, s') \<and> is_bytes_left s' = 0 \<and> istream_ok s'"
  using assms advance_contents [of s bs "[]"] length_istream [of s] by (auto simp: reads_as_def advance_def)

text \<open>A writer of values and a reader of them that agree on the bytes.  The clients encode into a buffer
  and decode what was written.\<close>

locale wire_codec =
  fixes put :: "'a \<Rightarrow> pb_writer" and get :: "'a pb_reader" and bytes :: "'a \<Rightarrow> byte list" and ok :: "'a \<Rightarrow> bool"
  assumes put_writes: "ok v \<Longrightarrow> writes (put v) (bytes v)"
    and get_reads: "ok v \<Longrightarrow> reads_as get (bytes v) v"
begin

lemma through_buffer:
  assumes "ok v" "length (bytes v) \<le> length buf" "length buf \<le> SIZE_MAX"
  shows "\<exists>os s'. put v (pb_ostream_from_buffer buf (length buf)) = Some (True, os) \<and> os_bytes_written os = length (bytes v) \<and>
    get (pb_istream_from_buffer (os_buf os) (os_bytes_written os)) = Some (Some v, s') \<and> is_bytes_left s' = 0"
proof -
  note W = written [OF put_writes [OF assms(1)] assms(2,3)]
  show ?thesis using W reads_all [OF get_reads [OF assms(1)] W(2,3)] by auto
qed

text \<open>Two values in a row.\<close>

lemma prefix_free: "ok v \<Longrightarrow> ok w \<Longrightarrow> bytes v @ r = bytes w @ r' \<Longrightarrow> v = w"
proof -
  assume *: "ok v" "ok w" "bytes v @ r = bytes w @ r'"
  define s where "s = pb_istream_from_buffer (bytes v @ r) (length (bytes v @ r))"
  have "istream_ok s" "contents s = bytes v @ r" by (simp_all add: s_def istream_ok_def contents_def pb_istream_from_buffer_def)
  then show "v = w" using get_reads [OF *(1)] get_reads [OF *(2)] *(3) unfolding reads_as_def by (metis option.inject prod.inject)
qed

end

interpretation pb_uvarint: wire_codec pb_encode_varint pb_decode_varint "\<lambda>v. varint (unat v)" "\<lambda>_. True"
  by unfold_locales (rule writes_varint varint_reads)+

interpretation pb_svarint: wire_codec pb_encode_svarint pb_decode_svarint "\<lambda>v. varint (unat (zigzag_word v))" "\<lambda>_. True"
  by unfold_locales (rule writes_svarint svarint_reads)+

lemma fixed32_writes: "length p = 4 \<Longrightarrow> writes (pb_encode_fixed32 p) p"
  using writes_fixed32 [of p] by simp

lemma fixed64_writes: "length p = 8 \<Longrightarrow> writes (pb_encode_fixed64 p) p"
  using writes_fixed64 [of p] by simp

interpretation pb_fixed32: wire_codec pb_encode_fixed32 pb_decode_fixed32 "\<lambda>p. p" "\<lambda>p. length p = 4"
  by unfold_locales (simp_all add: fixed32_writes fixed32_reads)

interpretation pb_fixed64: wire_codec pb_encode_fixed64 pb_decode_fixed64 "\<lambda>p. p" "\<lambda>p. length p = 8"
  by unfold_locales (simp_all add: fixed64_writes fixed64_reads)

interpretation pb_string: wire_codec "\<lambda>b. pb_encode_string (Some b) (length b)" get_string "\<lambda>b. varint (length b) @ b" "\<lambda>b. length b < 0x100000000"
  by unfold_locales (use string_writes string_reads in simp_all)

section \<open>Properties\<close>

text \<open>C4.  The wire format round-trips.  Write any sequence of fields, with their tags, as varints, 32-bit and 64-bit
  values and length-delimited strings, into a buffer that has room for it: the encoder succeeds, and
  decoding the bytes it wrote up to the end of the stream returns exactly the fields; skipping every
  field as unknown ends at the same place without an error.\<close>

theorem pb_fields_roundtrip:
  assumes "\<forall>f \<in> set fs. fst f \<noteq> 0 \<and> unat (fst f) < 2 ^ 29 \<and> value_ok (snd f)"
    and "length (wire_bytes fs) \<le> length buf" "length buf \<le> SIZE_MAX"
  shows "\<exists>os. put_fields fs (pb_ostream_from_buffer buf (length buf)) = Some (True, os) \<and> os_bytes_written os = length (wire_bytes fs) \<and>
    (\<exists>s'. get_fields [] (pb_istream_from_buffer (os_buf os) (os_bytes_written os)) = Some (Some fs, s')) \<and>
    (\<exists>s'. skip_fields (pb_istream_from_buffer (os_buf os) (os_bytes_written os)) = Some (True, s'))"
proof -
  have "writes (put_fields fs) (wire_bytes fs)" using assms(1) by (intro writes_fields) blast
  note w = written [OF this assms(2,3)]
  show ?thesis using w fields_read [OF assms(1) w(2,3), of "[]"] by simp
qed

theorem pb_fields_roundtrip_witness:
  "let fs = [(1, Varint 300), (2, Bytes [0x61, 0x62]), (536870911, Fixed32 [1, 2, 3, 4])] :: pb_fields
   in \<exists>os. put_fields fs (pb_ostream_from_buffer (replicate 32 0) 32) = Some (True, os) \<and>
    (\<exists>s'. get_fields [] (pb_istream_from_buffer (os_buf os) (os_bytes_written os)) = Some (Some fs, s'))"
proof -
  let ?fs = "[(1, Varint 300), (2, Bytes [0x61, 0x62]), (536870911, Fixed32 [1, 2, 3, 4])] :: pb_fields"
  have "\<forall>f \<in> set ?fs. fst f \<noteq> 0 \<and> unat (fst f) < 2 ^ 29 \<and> value_ok (snd f)" by simp
  moreover have "length (wire_bytes ?fs) \<le> length (replicate 32 (0 :: byte))"
    by (simp add: wire_bytes_def tag_of_field_def varint_small varint_large)
  ultimately show ?thesis using pb_fields_roundtrip [of ?fs "replicate 32 0"] by (auto simp: Let_def)
qed

text \<open>C17.  The decoder of 32-bit varints agrees with the decoder of 64-bit varints: whatever the latter accepts
  the former refuses or reads as the low 32 bits, consuming the same bytes; and it accepts the
  encodings of all 32-bit numbers.\<close>

theorem pb_varint32_agrees:
  assumes "istream_ok s" "pb_decode_varint s = Some (Some v, s')"
  shows "(\<exists>x s2. pb_decode_varint32 s = Some (x, s2) \<and> (x = None \<or> x = Some (ucast v) \<and> s2 = s')) \<and>
    ((\<exists>rest n. contents s = varint n @ rest \<and> n < 2 ^ 32) \<longrightarrow> pb_decode_varint32 s = Some (Some (ucast v), s'))"
proof -
  have a: "\<exists>x s2. pb_decode_varint32 s = Some (x, s2) \<and> (x = None \<or> x = Some (ucast v) \<and> s2 = s')" by (rule varint32_agrees [OF assms(2)])
  moreover have "\<exists>y. pb_decode_varint32 s = Some (Some y, advance (length (varint n)) s)" if "contents s = varint n @ rest" "n < 2 ^ 32" for n rest
    using varint32_reads [OF that(2)] assms(1) that(1) by (simp add: reads_as_def)
  ultimately show ?thesis by fastforce
qed

theorem pb_varint32_agrees_witness:
  "pb_decode_varint32 (pb_istream_from_buffer [0xAC, 0x02, 0x07] 3) = Some (Some 300, advance 2 (pb_istream_from_buffer [0xAC, 0x02, 0x07] 3))"
proof -
  let ?s = "pb_istream_from_buffer [0xAC, 0x02, 0x07] 3"
  have v: "varint 300 = [0xAC, 0x02]" by (simp add: varint_small varint_large)
  have s: "istream_ok ?s" "contents ?s = varint 300 @ [0x07]"
    by (simp_all add: v istream_ok_def contents_def pb_istream_from_buffer_def)
  have "unat (300 :: uint64) = 300" by simp
  from varint_reads [of "300 :: uint64", unfolded this v]
  have "pb_decode_varint ?s = Some (Some 300, advance 2 ?s)" using s v by (simp add: reads_as_def numeral_2_eq_2)
  from pb_varint32_agrees [OF s(1) this] have "pb_decode_varint32 ?s = Some (Some (ucast (300 :: uint64)), advance 2 ?s)" using s(2) by fastforce
  then show ?thesis by simp
qed

end
