(* ===== verification/Pb_Values.thy ===== *)
theory Pb_Values
  imports Pb_Wire
begin

text \<open>
  The encoders and decoders of single values of nanopb: they invert each other, and the decoders are
  safe on any input.
\<close>

section \<open>Integer objects\<close>

lemma object_byte: "length p = k \<Longrightarrow> 8 * k = LENGTH('a::len) \<Longrightarrow> i < k \<Longrightarrow> ucast (drop_bit (8 * i) (of_nat (be_nat (rev p)) :: 'a word)) = p ! i"
  using arg_cong [OF le_bytes [of k p, where 'a = 'a], of "\<lambda>l. l ! i"] by simp

text \<open>The low bytes of a value that was extended to 64 bits are the object.\<close>

lemma extended_bytes:
  fixes x :: "'a::len word" and w :: uint64
  assumes "length p = k" "8 * k = LENGTH('a)" "x = of_nat (be_nat (rev p))" "\<And>n. n < LENGTH('a) \<Longrightarrow> bit w n = bit x n"
  shows "store_le k (unat w) = p"
proof -
  have "store_le k (unat w) = map (\<lambda>i. ucast (drop_bit (8 * i) w)) [0..<k]" by (simp add: store_le_def nat_be_word rev_map)
  also have "\<dots> = p"
  proof (rule nth_equalityI)
    fix i
    assume "i < length (map (\<lambda>i. ucast (drop_bit (8 * i) w) :: byte) [0..<k])"
    then have i: "i < k" by simp
    have "ucast (drop_bit (8 * i) w) = (ucast (drop_bit (8 * i) x) :: byte)"
    proof (rule byte_eq_bits)
      fix n :: nat
      assume "n < 8"
      then have "8 * i + n < LENGTH('a)" using i assms(2) by linarith
      then show "bit (ucast (drop_bit (8 * i) w) :: byte) n = bit (ucast (drop_bit (8 * i) x) :: byte) n"
        using assms(4) [of "8 * i + n"] \<open>n < 8\<close> by (simp add: bit_ucast_iff bit_drop_bit_eq)
    qed
    then show "map (\<lambda>i. ucast (drop_bit (8 * i) w)) [0..<k] ! i = p ! i" using object_byte [OF assms(1,2) i] i by (simp add: assms(3))
  qed (simp add: assms(1))
  finally show ?thesis .
qed

text \<open>Widening and narrowing.\<close>

lemma bit_scast64: "LENGTH('a) \<le> 64 \<Longrightarrow> n < LENGTH('a) \<Longrightarrow> bit (scast x :: uint64) n = bit x n" for x :: "'a::len word"
  by (simp add: bit_signed_iff min_def) (use order_antisym in fastforce)

lemma scast_back:
  "scast (ucast (scast x :: uint64) :: 32 word) = (scast x :: uint64)" "scast (ucast (scast y :: uint64) :: 32 word) = (scast y :: uint64)"
  "scast (ucast (scast z :: uint64) :: 32 word) = (scast z :: uint64)" "scast (ucast (scast y :: uint64) :: 16 word) = (scast y :: uint64)"
  "scast (ucast (scast z :: uint64) :: 8 word) = (scast z :: uint64)"
  for x :: "32 word" and y :: "16 word" and z :: "8 word"
  by (rule bit_word_eqI; auto simp: bit_simps min_def)+

lemma ucast_back:
  "ucast (ucast (ucast x :: uint64) :: 32 word) = (ucast x :: uint64)" "ucast (ucast (ucast y :: uint64) :: 16 word) = (ucast y :: uint64)"
  "ucast (ucast (ucast z :: uint64) :: 8 word) = (ucast z :: uint64)" for x :: "32 word" and y :: "16 word" and z :: "8 word"
  by (rule bit_word_eqI; auto simp: bit_simps dest: bit_imp_le_length)+

text \<open>The integer in an object, and its bytes again.\<close>

lemma signed_object_ok:
  assumes "n \<in> {1, 2, 4, 8}" "length p = n"
  shows "\<exists>w. signed_object n p = Some (Some w) \<and> store_le n (unat w) = p \<and>
    (n \<noteq> 8 \<longrightarrow> scast (ucast w :: 32 word) = w) \<and> (n = 2 \<longrightarrow> scast (ucast w :: 16 word) = w) \<and> (n = 1 \<longrightarrow> scast (ucast w :: 8 word) = w)"
proof -
  let ?x = "be_nat (rev p)"
  have "length p = 1 \<Longrightarrow> store_le 1 (unat (scast (of_nat ?x :: 8 word) :: uint64)) = p"
    "length p = 2 \<Longrightarrow> store_le 2 (unat (scast (of_nat ?x :: 16 word) :: uint64)) = p"
    "length p = 4 \<Longrightarrow> store_le 4 (unat (scast (of_nat ?x :: 32 word) :: uint64)) = p"
    "length p = 8 \<Longrightarrow> store_le 8 (unat (of_nat ?x :: uint64)) = p"
    using extended_bytes [of p 1 "of_nat ?x :: 8 word"] extended_bytes [of p 2 "of_nat ?x :: 16 word"] extended_bytes [of p 4 "of_nat ?x :: 32 word"]
      extended_bytes [of p 8 "of_nat ?x :: 64 word"]
    by (simp_all add: bit_scast64)
  then show ?thesis using assms scast_back by (auto simp: signed_object_def load_le_def)
qed

lemma unsigned_object_ok:
  assumes "n \<in> {1, 2, 4, 8}" "length p = n"
  shows "\<exists>w. unsigned_object n p = Some (Some w) \<and> store_le n (unat w) = p \<and>
    (n = 4 \<longrightarrow> ucast (ucast w :: 32 word) = w) \<and> (n = 2 \<longrightarrow> ucast (ucast w :: 16 word) = w) \<and> (n = 1 \<longrightarrow> ucast (ucast w :: 8 word) = w)"
proof -
  let ?x = "be_nat (rev p)"
  have "?x < 256 ^ n" using be_nat_less [of "rev p"] assms(2) by simp
  then have u: "n = 1 \<Longrightarrow> of_nat ?x = (ucast (of_nat ?x :: 8 word) :: uint64)" "n = 2 \<Longrightarrow> of_nat ?x = (ucast (of_nat ?x :: 16 word) :: uint64)"
      "n = 4 \<Longrightarrow> of_nat ?x = (ucast (of_nat ?x :: 32 word) :: uint64)" "unat (of_nat ?x :: uint64) = ?x"
    using assms(1) by (auto intro!: byte_eqI simp: unat_ucast_up unat_of_nat)
  have "store_le n (unat (of_nat ?x :: uint64)) = p" unfolding u(4) using nat_be_be_nat [of "rev p"] assms(2) by (simp add: store_le_def)
  then show ?thesis using assms u(1-3) ucast_back by (auto simp: unsigned_object_def load_le_def)
qed

text \<open>C36.  Integer fields round-trip through memory.  An object of one, two, four or eight bytes, signed, unsigned or in
  zigzag form, is encoded in at most ten bytes, and decoding them into a field of the same size stores
  the same bytes: no sign is lost by the detour over 32 bits, and no value is refused as too large.\<close>

theorem pb_integer_fields:
  assumes "unat (pf_data_size field) \<in> {1, 2, 4, 8}" "length p = unat (pf_data_size field)" "10 \<le> length buf" "length buf \<le> SIZE_MAX"
  shows "\<forall>(enc, dec) \<in> {(pb_enc_varint, pb_dec_varint), (pb_enc_uvarint, pb_dec_uvarint), (pb_enc_svarint, pb_dec_svarint)}.
    \<exists>os s'. enc field p (pb_ostream_from_buffer buf (length buf)) = Some (True, os) \<and> os_bytes_written os \<le> 10 \<and>
      dec field (pb_istream_from_buffer (os_buf os) (os_bytes_written os)) = Some (True, p, s') \<and> is_bytes_left s' = 0"
proof -
  let ?n = "unat (pf_data_size field)" and ?os = "pb_ostream_from_buffer buf (length buf)"
  obtain w where w: "signed_object ?n p = Some (Some w)" "store_le ?n (unat w) = p" "?n \<noteq> 8 \<Longrightarrow> scast (ucast w :: 32 word) = w"
      "?n = 2 \<Longrightarrow> scast (ucast w :: 16 word) = w" "?n = 1 \<Longrightarrow> scast (ucast w :: 8 word) = w"
    using signed_object_ok [OF assms(1,2)] by blast
  obtain u where u: "unsigned_object ?n p = Some (Some u)" "store_le ?n (unat u) = p" "?n = 4 \<Longrightarrow> ucast (ucast u :: 32 word) = u"
      "?n = 2 \<Longrightarrow> ucast (ucast u :: 16 word) = u" "?n = 1 \<Longrightarrow> ucast (ucast u :: 8 word) = u"
    using unsigned_object_ok [OF assms(1,2)] by blast
  have len: "length (varint (unat v)) \<le> 10" for v :: uint64
  proof -
    have "unat v < 128 ^ 10" using unsigned_less [of v, where 'a = nat] by simp
    from varint_length [OF this] show ?thesis by simp
  qed
  have room: "length (varint (unat v)) \<le> length buf" for v :: uint64 using len [of v] assms(3) by simp
  obtain os1 s1 where 1: "pb_encode_varint w ?os = Some (True, os1)" "os_bytes_written os1 \<le> 10"
      "pb_decode_varint (pb_istream_from_buffer (os_buf os1) (os_bytes_written os1)) = Some (Some w, s1)" "is_bytes_left s1 = 0"
    using pb_uvarint.through_buffer [OF _ room [of w] assms(4)] len by force
  obtain os2 s2 where 2: "pb_encode_varint u ?os = Some (True, os2)" "os_bytes_written os2 \<le> 10"
      "pb_decode_varint (pb_istream_from_buffer (os_buf os2) (os_bytes_written os2)) = Some (Some u, s2)" "is_bytes_left s2 = 0"
    using pb_uvarint.through_buffer [OF _ room [of u] assms(4)] len by force
  obtain os3 s3 where 3: "pb_encode_svarint w ?os = Some (True, os3)" "os_bytes_written os3 \<le> 10"
      "pb_decode_svarint (pb_istream_from_buffer (os_buf os3) (os_bytes_written os3)) = Some (Some w, s3)" "is_bytes_left s3 = 0"
    using pb_svarint.through_buffer [OF _ room [of "zigzag_word w"] assms(4)] len by force
  have "pb_enc_varint field p ?os = Some (True, os1)" "pb_dec_varint field (pb_istream_from_buffer (os_buf os1) (os_bytes_written os1)) = Some (True, p, s1)"
    using 1(1,3) w assms(1) by (auto simp: pb_enc_varint_def pb_dec_varint_def Let_def)
  moreover have "pb_enc_uvarint field p ?os = Some (True, os2)" "pb_dec_uvarint field (pb_istream_from_buffer (os_buf os2) (os_bytes_written os2)) = Some (True, p, s2)"
    using 2(1,3) u assms(1) by (auto simp: pb_enc_uvarint_def pb_dec_uvarint_def Let_def)
  moreover have "pb_enc_svarint field p ?os = Some (True, os3)" "pb_dec_svarint field (pb_istream_from_buffer (os_buf os3) (os_bytes_written os3)) = Some (True, p, s3)"
    using 3(1,3) w assms(1) by (auto simp: pb_enc_svarint_def pb_dec_svarint_def Let_def)
  ultimately show ?thesis using 1(2,4) 2(2,4) 3(2,4) by blast
qed

text \<open>The object of \<open>-2\<close> in two bytes.\<close>

theorem pb_integer_fields_witness:
  "let field = \<lparr>pf_tag = 1, pf_type = PB_LTYPE_VARINT, pf_data_offset = 0, pf_size_offset = 0, pf_data_size = 2, pf_array_size = 0, pf_ptr = 0\<rparr>
   in \<exists>os s'. pb_enc_varint field [0xFE, 0xFF] (pb_ostream_from_buffer (replicate 16 0) 16) = Some (True, os) \<and>
        pb_dec_varint field (pb_istream_from_buffer (os_buf os) (os_bytes_written os)) = Some (True, [0xFE, 0xFF], s')"
proof -
  let ?field = "\<lparr>pf_tag = 1, pf_type = PB_LTYPE_VARINT, pf_data_offset = 0, pf_size_offset = 0, pf_data_size = 2, pf_array_size = 0, pf_ptr = 0\<rparr>"
  show ?thesis using pb_integer_fields [of ?field "[0xFE, 0xFF]" "replicate 16 0"] by (auto simp: Let_def)
qed

section \<open>Bytes and strings\<close>

lemma bounded_length_string: "0 \<notin> set c \<Longrightarrow> length c < n \<Longrightarrow> bounded_length n (c @ 0 # r) = Some (length c)"
proof (induction c arbitrary: n)
  case Nil
  then show ?case by (cases n) simp_all
next
  case (Cons x c)
  then show ?case by (cases n) auto
qed

lemma load_store_le: "n < 2 ^ 32 \<Longrightarrow> load_le 4 (store_le 4 n @ r) = Some n"
  by (simp add: load_le_def store_le_def be_nat_nat_be)

lemma length_store_le [simp]: "length (store_le k n) = k"
  by (simp add: store_le_def)

lemma varint_length32: "n < 2 ^ 32 \<Longrightarrow> length (varint n) \<le> 5"
  using varint_length [of n 5] by simp

text \<open>Decoding a string into the memory of a field that has room for it.\<close>

lemma string_in_stream:
  assumes "istream_ok s" "contents s = varint (length b) @ b" "length b < 2 ^ 32"
  shows "pb_decode_varint32 s = Some (Some (of_nat (length b)), advance (length (varint (length b))) s)"
    "\<exists>s'. pb_read (length b) (advance (length (varint (length b))) s) = Some (Some b, s') \<and> is_bytes_left s' = 0"
proof -
  show "pb_decode_varint32 s = Some (Some (of_nat (length b)), advance (length (varint (length b))) s)"
    using varint32_reads [OF assms(3)] assms(1,2) by (simp add: reads_as_def)
  show "\<exists>s'. pb_read (length b) (advance (length (varint (length b))) s) = Some (Some b, s') \<and> is_bytes_left s' = 0"
    using reads_all [OF reads_as_read [of b]] advance_contents [OF assms(1,2)] by blast
qed

lemma dec_bytes_ok:
  assumes "istream_ok s" "contents s = varint (length b) @ b" "length b < 2 ^ 32"
    and field: "PB_ATYPE (pf_type field) = PB_ATYPE_STATIC" "length mem = unat (pf_data_size field)" "4 + length b \<le> length mem"
  shows "\<exists>s'. pb_dec_bytes pb_realloc field (Inside mem) s = Some (True, Inside (store_le 4 (length b) @ b @ drop (4 + length b) mem), s')"
proof -
  note S = string_in_stream [OF assms(1-3)]
  have u: "unat (of_nat (length b) :: uint32) = length b" using unat_length assms(3) by simp
  have add: "size_add (length b) 4 = length b + 4" using assms(3) by (intro size_add_nowrap) simp
  have max: "\<not> (of_nat (length b) :: uint32) > PB_SIZE_MAX"
    using unsigned_less [of "of_nat (length b) :: uint32", where 'a = nat] by (simp add: word_less_nat_alt)
  have "poke (poke mem 0 (store_le 4 (length b))) 4 b = store_le 4 (length b) @ b @ drop (4 + length b) mem"
    using field(3) by (simp add: poke_def add.commute)
  then show ?thesis using S u add max field
    by (auto simp: pb_dec_bytes_def field_memory_def Let_def stored_def)
qed

lemma dec_string_ok:
  assumes "istream_ok s" "contents s = varint (length b) @ b" "length b < 2 ^ 32 - 1"
    and field: "PB_ATYPE (pf_type field) = PB_ATYPE_STATIC" "length mem = unat (pf_data_size field)" "length b < length mem"
  shows "\<exists>s'. pb_dec_string pb_realloc field (Inside mem) s = Some (True, Inside (b @ 0 # drop (length b + 1) mem), s')"
proof -
  have l: "length b < 2 ^ 32" using assms(3) by simp
  note S = string_in_stream [OF assms(1,2) l]
  have u: "unat (of_nat (length b) :: uint32) = length b" using unat_length l by simp
  have "unat (of_nat (length b) + 1 :: uint32) = unat (of_nat (length b + 1) :: uint32)" by (simp add: add.commute)
  also have "\<dots> = length b + 1" using assms(3) by (simp only: unat_of_nat) simp
  finally have add: "unat (of_nat (length b) + 1 :: uint32) = length b + 1" .
  have "poke (poke mem 0 b) (length b) [0] = b @ 0 # drop (length b + 1) mem" using field(3) by (simp add: poke_def)
  then show ?thesis using S u add field
    by (auto simp: pb_dec_string_def field_memory_def Let_def stored_def)
qed

text \<open>C37.  Byte arrays and strings round-trip through memory.  The object of a byte array, its size and its bytes,
  and a NUL-terminated string are encoded with their lengths, and decoding into a field of the
  same size stores the same bytes, for a string with its terminator, and leaves the rest of the
  destination as it was.\<close>

theorem pb_string_fields:
  assumes "PB_ATYPE (pf_type field) = PB_ATYPE_STATIC" "length mem = unat (pf_data_size field)" "length buf = 5 + length b" "length buf \<le> SIZE_MAX"
  shows "(4 + length b \<le> length mem \<longrightarrow>
      (\<exists>os s'. pb_enc_bytes field (Some (store_le 4 (length b) @ b @ pad)) (pb_ostream_from_buffer buf (length buf)) = Some (True, os) \<and>
        pb_dec_bytes pb_realloc field (Inside mem) (pb_istream_from_buffer (os_buf os) (os_bytes_written os)) =
        Some (True, Inside (store_le 4 (length b) @ b @ drop (4 + length b) mem), s'))) \<and>
    (length b < length mem \<and> 0 \<notin> set b \<and> length b < 2 ^ 32 - 1 \<longrightarrow>
      (\<exists>os s'. pb_enc_string field (Some (b @ 0 # pad)) (pb_ostream_from_buffer buf (length buf)) = Some (True, os) \<and>
        pb_dec_string pb_realloc field (Inside mem) (pb_istream_from_buffer (os_buf os) (os_bytes_written os)) =
        Some (True, Inside (b @ 0 # drop (length b + 1) mem), s')))"
proof -
  let ?os = "pb_ostream_from_buffer buf (length buf)"
  have ds: "unat (pf_data_size field) < 2 ^ 32" using unsigned_less [of "pf_data_size field", where 'a = nat] by simp
  have enc: "\<exists>os. pb_encode_string (Some (b @ r)) (length b) ?os = Some (True, os) \<and>
      istream_ok (pb_istream_from_buffer (os_buf os) (os_bytes_written os)) \<and>
      contents (pb_istream_from_buffer (os_buf os) (os_bytes_written os)) = varint (length b) @ b" if "length b < 2 ^ 32" for r
  proof -
    have w: "writes (pb_encode_string (Some (b @ r)) (length b)) (varint (length b) @ b)" using writes_string [of "length b" "b @ r"] that by simp
    have "length (varint (length b) @ b) \<le> length buf" using varint_length32 [OF that] assms(3) by simp
    from written [OF w this assms(4)] show ?thesis by auto
  qed
  have bytes: "\<exists>os s'. pb_enc_bytes field (Some (store_le 4 (length b) @ b @ pad)) ?os = Some (True, os) \<and>
      pb_dec_bytes pb_realloc field (Inside mem) (pb_istream_from_buffer (os_buf os) (os_bytes_written os)) =
      Some (True, Inside (store_le 4 (length b) @ b @ drop (4 + length b) mem), s')" if "4 + length b \<le> length mem"
  proof -
    have l: "length b < 2 ^ 32" using that assms(2) ds by linarith
    have "unat (ucast (pf_data_size field) - 4 :: uint64) = unat (pf_data_size field) - 4"
      using that assms(2) by (subst unat_sub) (simp_all add: word_le_nat_alt unat_ucast_up)
    then have "\<not> of_nat (length b) > (ucast (pf_data_size field) - 4 :: uint64)"
      using that assms(2) unat_of_size [of "length b"] l by (simp add: word_less_nat_alt)
    then have "pb_enc_bytes field (Some (store_le 4 (length b) @ b @ pad)) ?os = pb_encode_string (Some (b @ pad)) (length b) ?os"
      using load_store_le [OF l] assms(1) by (simp add: pb_enc_bytes_def)
    then show ?thesis using enc [OF l, of pad] dec_bytes_ok [OF _ _ l assms(1,2) that] by fastforce
  qed
  have string: "\<exists>os s'. pb_enc_string field (Some (b @ 0 # pad)) ?os = Some (True, os) \<and>
      pb_dec_string pb_realloc field (Inside mem) (pb_istream_from_buffer (os_buf os) (os_bytes_written os)) =
      Some (True, Inside (b @ 0 # drop (length b + 1) mem), s')" if "length b < length mem" "0 \<notin> set b" "length b < 2 ^ 32 - 1"
  proof -
    have l: "length b < 2 ^ 32" using that(3) by simp
    have "pb_enc_string field (Some (b @ 0 # pad)) ?os = pb_encode_string (Some (b @ 0 # pad)) (length b) ?os"
      using bounded_length_string [OF that(2)] that(1) assms(1,2) by (simp add: pb_enc_string_def)
    then show ?thesis using enc [OF l, of "0 # pad"] dec_string_ok [OF _ _ that(3) assms(1,2) that(1)] by fastforce
  qed
  show ?thesis using bytes string by blast
qed

text \<open>The string \<open>ab\<close> in four bytes.\<close>

theorem pb_string_fields_witness:
  "let field = \<lparr>pf_tag = 1, pf_type = PB_LTYPE_STRING, pf_data_offset = 0, pf_size_offset = 0, pf_data_size = 4, pf_array_size = 0, pf_ptr = 0\<rparr>
   in \<exists>os s'. pb_enc_string field (Some ([0x61, 0x62] @ 0 # [9])) (pb_ostream_from_buffer (replicate 7 0) 7) = Some (True, os) \<and>
      pb_dec_string (\<lambda>p n. None) field (Inside [1, 1, 1, 1]) (pb_istream_from_buffer (os_buf os) (os_bytes_written os)) =
      Some (True, Inside [0x61, 0x62, 0, 1], s')"
proof -
  let ?field = "\<lparr>pf_tag = 1, pf_type = PB_LTYPE_STRING, pf_data_offset = 0, pf_size_offset = 0, pf_data_size = 4, pf_array_size = 0, pf_ptr = 0\<rparr>"
  show ?thesis using pb_string_fields [of ?field "[1, 1, 1, 1]" "replicate 7 0" "[0x61, 0x62]" "[9]" "\<lambda>p n. None"] by (simp add: Let_def)
qed

section \<open>Submessages\<close>

text \<open>C38.  A submessage is encoded as the string of its bytes.  The encoder makes two passes, the first one to count
  the bytes and the second one into a stream that is limited to this number; the result is the same
  as for encoding the finished bytes with their length, also in a stream that only counts.\<close>

theorem pb_submessage_is_string:
  assumes "ostream_ok s" "\<forall>f \<in> set fs. value_ok (snd f)" "length (wire_bytes fs) \<le> SIZE_MAX"
    and "fits (varint (length (wire_bytes fs)) @ wire_bytes fs) s"
  shows "pb_encode_submessage (put_fields fs) s = pb_encode_string (Some (wire_bytes fs)) (length (wire_bytes fs)) s"
proof -
  let ?b = "wire_bytes fs"
  have "writes (pb_encode_submessage (put_fields fs)) (varint (length ?b) @ ?b)"
    using writes_submessage [OF writes_fields [OF assms(2)] assms(3)] .
  moreover have "writes (pb_encode_string (Some ?b) (length ?b)) (varint (length ?b) @ ?b)" using writes_string [of "length ?b" ?b] assms(3) by simp
  ultimately show ?thesis using writesD(1) assms(1,4) by metis
qed

theorem pb_submessage_is_string_witness:
  "pb_encode_submessage (put_fields [(1, Varint 5)]) (pb_ostream_from_buffer (replicate 8 0) 8) =
   pb_encode_string (Some [8, 5]) 2 (pb_ostream_from_buffer (replicate 8 0) 8)"
proof -
  have w: "wire_bytes [(1, Varint 5)] = [8, 5]" by (simp add: wire_bytes_def tag_of_field_def varint_small)
  show ?thesis using pb_submessage_is_string [of "pb_ostream_from_buffer (replicate 8 0) 8" "[(1, Varint 5)]"]
    by (simp add: w varint_small ostream_ok_def pb_ostream_from_buffer_def fits_def numeral_2_eq_2 del: put_fields.simps)
qed

section \<open>Safety\<close>

definition realloc_ok :: "realloc \<Rightarrow> bool" where
  "realloc_ok pb_realloc \<longleftrightarrow> (\<forall>p n b. pb_realloc p n = Some b \<longrightarrow> length b = n)"

text \<open>The destination suits the descriptor.\<close>

definition dest_ok :: "pb_field \<Rightarrow> pb_dest \<Rightarrow> bool" where
  "dest_ok field dest =
     (case dest of
        Inside mem \<Rightarrow> PB_ATYPE (pf_type field) \<noteq> PB_ATYPE_POINTER \<and> unat (pf_data_size field) \<le> length mem
      | Pointer _ \<Rightarrow> PB_ATYPE (pf_type field) = PB_ATYPE_POINTER)"

text \<open>The check for overflow in \<open>allocate_field\<close> is exact.\<close>

lemma allocate_exact:
  assumes "realloc_ok pb_realloc" "allocate_field pb_realloc p a b s = (Some mem, s')" "a \<le> SIZE_MAX" "b \<le> SIZE_MAX"
  shows "length mem = b * a" "s' = s"
proof -
  have nz: "a \<noteq> 0" "b \<noteq> 0" and no: "\<not> ((a \<ge> 0x100000000 \<or> b \<ge> 0x100000000) \<and> SIZE_MAX div b < a)"
      and r: "pb_realloc p (size_mul b a) = Some mem" "s' = s"
    using assms(2) by (auto simp: allocate_field_def split: if_splits option.splits)
  have "b * a \<le> SIZE_MAX"
  proof (cases "a \<ge> 0x100000000 \<or> b \<ge> 0x100000000")
    case True
    then have "a \<le> SIZE_MAX div b" using no by simp
    then have "b * a \<le> b * (SIZE_MAX div b)" by simp
    also have "\<dots> \<le> SIZE_MAX" by simp
    finally show ?thesis .
  next
    case False
    then have "b * a \<le> 0xFFFFFFFF * 0xFFFFFFFF" by (intro mult_le_mono) auto
    then show ?thesis by simp
  qed
  then show "length mem = b * a" "s' = s" using r assms(1) by (auto simp: realloc_ok_def size_mul_nowrap)
qed

lemma field_memory_ok:
  assumes "realloc_ok pb_realloc" "dest_ok field dest" "istream_ok s" "sz \<le> alloc" "alloc \<le> SIZE_MAX"
  shows "\<exists>r s'. field_memory pb_realloc msg field dest sz alloc s = Some (r, s') \<and> later s s' \<and> (\<forall>mem. r = Some mem \<longrightarrow> alloc \<le> length mem \<and> s' = s)"
proof (cases dest)
  case (Inside mem)
  then show ?thesis using assms(2,3) by (auto simp: dest_ok_def field_memory_def is_error_def later_refl)
next
  case (Pointer p)
  obtain r s' where a: "allocate_field pb_realloc p alloc 1 s = (r, s')" by force
  have "later s s'" using a assms(3) by (auto simp: allocate_field_def later_refl split: if_splits option.splits)
  moreover have "r = Some mem \<Longrightarrow> length mem = alloc \<and> s' = s" for mem using allocate_exact [OF assms(1) _ assms(5), of p 1 s mem s'] a by simp
  ultimately show ?thesis using Pointer assms(2,3) a by (auto simp: dest_ok_def field_memory_def is_error_def later_refl)
qed

lemma varint32_cases:
  assumes "istream_ok s"
  obtains s1 where "pb_decode_varint32 s = Some (None, s1)" "later s s1" | sz s1 where "pb_decode_varint32 s = Some (Some sz, s1)" "later s s1"
  using safeD [OF safe_varint32 assms] by (metis not_None_eq)

lemma read_cases:
  assumes "istream_ok s"
  obtains s1 where "pb_read n s = Some (None, s1)" "later s s1" | b s1 where "pb_read n s = Some (Some b, s1)" "later s s1" "length b = n"
proof -
  obtain r s1 where r: "pb_read n s = Some (r, s1)" "later s s1" using safeD [OF safe_read assms] by blast
  have "r = Some b \<Longrightarrow> length b = n" for b using r(1) read_left by (cases n) (auto simp: pb_read_def)
  then show thesis using that r by (cases r) auto
qed

lemma dec_bytes_safe:
  assumes "realloc_ok pb_realloc" "dest_ok field dest" "istream_ok s"
  shows "\<exists>r d s'. pb_dec_bytes pb_realloc field dest s = Some (r, d, s') \<and> later s s'"
  using assms(3)
proof (cases rule: varint32_cases)
  case (1 s1)
  then show ?thesis by (auto simp: pb_dec_bytes_def)
next
  case (2 sz s1)
  have "unat sz + 4 \<le> SIZE_MAX" using unsigned_less [of sz, where 'a = nat] by simp
  then have add: "size_add (unat sz) 4 = unat sz + 4" by (rule size_add_nowrap)
  have max: "\<not> sz > PB_SIZE_MAX" using unsigned_less [of sz, where 'a = nat] by (simp add: word_less_nat_alt)
  obtain r s2 where m: "field_memory pb_realloc ''bytes overflow'' field dest (unat sz) (unat sz + 4) s1 = Some (r, s2)" "later s1 s2"
      "\<forall>mem. r = Some mem \<longrightarrow> unat sz + 4 \<le> length mem \<and> s2 = s1"
    using field_memory_ok [OF assms(1,2) later_ok [OF 2(2)] le_add1 \<open>unat sz + 4 \<le> SIZE_MAX\<close>] by blast
  show ?thesis
  proof (cases r)
    case None
    then show ?thesis using 2 m later_trans [OF 2(2) m(2)] max by (auto simp: pb_dec_bytes_def add)
  next
    case (Some mem)
    have l: "length (store_le 4 (unat sz)) = 4" by (simp add: store_le_def)
    have ok: "istream_ok s2" "later s s2" using later_ok [OF m(2)] later_trans [OF 2(2) m(2)] by simp_all
    from ok(1) show ?thesis
    proof (cases rule: read_cases [of _ "unat sz"])
      case (1 s3)
      then show ?thesis using 2 m Some max later_trans [OF ok(2)] by (auto simp: pb_dec_bytes_def add Let_def)
    next
      case (2 b s3)
      then show ?thesis using \<open>pb_decode_varint32 s = Some (Some sz, s1)\<close> m Some max l later_trans [OF ok(2)] by (auto simp: pb_dec_bytes_def add Let_def)
    qed
  qed
qed

lemma dec_string_safe:
  assumes "realloc_ok pb_realloc" "dest_ok field dest" "istream_ok s"
  shows "\<exists>r d s'. pb_dec_string pb_realloc field dest s = Some (r, d, s') \<and> later s s'"
  using assms(3)
proof (cases rule: varint32_cases)
  case (1 s1)
  then show ?thesis by (auto simp: pb_dec_string_def)
next
  case (2 sz s1)
  show ?thesis
  proof (cases "unat (sz + 1) < unat sz")
    case True
    then show ?thesis using 2 by (auto simp: pb_dec_string_def)
  next
    case False
    have "unat (sz + 1) = (unat sz + 1) mod 2 ^ 32" by (simp add: unat_word_ariths)
    moreover have "unat sz < 2 ^ 32" using unsigned_less [of sz, where 'a = nat] by simp
    ultimately have add: "unat (sz + 1) = unat sz + 1" using False by (cases "unat sz + 1 < 2 ^ 32") (simp_all add: le_mod_geq)
    have "unat sz + 1 \<le> SIZE_MAX" using unsigned_less [of sz, where 'a = nat] by simp
    then obtain r s2 where m: "field_memory pb_realloc ''string overflow'' field dest (unat sz) (unat sz + 1) s1 = Some (r, s2)" "later s1 s2"
        "\<forall>mem. r = Some mem \<longrightarrow> unat sz + 1 \<le> length mem \<and> s2 = s1"
      using field_memory_ok [OF assms(1,2) later_ok [OF 2(2)] le_add1] by blast
    have ok: "istream_ok s2" "later s s2" using later_ok [OF m(2)] later_trans [OF 2(2) m(2)] by simp_all
    from ok(1) obtain x s3 where "pb_read (unat sz) s2 = Some (x, s3)" "later s2 s3" using safeD [OF safe_read] by blast
    then show ?thesis using 2 m ok later_trans [OF ok(2)] by (cases r) (auto simp: pb_dec_string_def add Let_def)
  qed
qed

lemma dec_integer_safe:
  assumes "istream_ok s"
  shows "\<exists>r d s'. pb_dec_varint field s = Some (r, d, s') \<and> later s s'" "\<exists>r d s'. pb_dec_uvarint field s = Some (r, d, s') \<and> later s s'"
    "\<exists>r d s'. pb_dec_svarint field s = Some (r, d, s') \<and> later s s'"
proof -
  obtain r s1 where 1: "pb_decode_varint s = Some (r, s1)" "later s s1" using safeD [OF safe_varint(1) assms] by blast
  obtain r' s2 where 2: "pb_decode_svarint s = Some (r', s2)" "later s s2" using safeD [OF safe_varint(2) assms] by blast
  show "\<exists>r d s'. pb_dec_varint field s = Some (r, d, s') \<and> later s s'"
    using 1 by (cases r) (auto simp: pb_dec_varint_def Let_def split: option.split)
  show "\<exists>r d s'. pb_dec_uvarint field s = Some (r, d, s') \<and> later s s'"
    using 1 by (cases r) (auto simp: pb_dec_uvarint_def Let_def split: option.split)
  show "\<exists>r d s'. pb_dec_svarint field s = Some (r, d, s') \<and> later s s'"
    using 2 by (cases r') (auto simp: pb_dec_svarint_def Let_def split: option.split)
qed

lemma dec_fixed_bytes_safe:
  assumes "istream_ok s" "unat (pf_data_size field) \<le> length mem"
  shows "\<exists>r d s'. pb_dec_fixed_length_bytes field mem s = Some (r, d, s') \<and> later s s'"
  using assms(1)
proof (cases rule: varint32_cases)
  case (2 sz s1)
  obtain x s2 where "pb_read (unat (pf_data_size field)) s1 = Some (x, s2)" "later s1 s2" using safeD [OF safe_read later_ok [OF 2(2)]] by blast
  then show ?thesis using 2 assms(2) later_trans [OF 2(2)] by (cases x) (auto simp: pb_dec_fixed_length_bytes_def)
qed (auto simp: pb_dec_fixed_length_bytes_def)



end
