(* ===== verification/Refcount.thy ===== *)
theory Refcount
  imports Prelude
begin

text \<open>
  The atomic reference counts of \<open>crypto/refcount.c\<close>.  An operation loads the counter and
  then repeats a weak compare-and-exchange, which other threads may disturb between any two of its
  accesses and which may fail without a reason.  One iteration of each loop is a function, and a
  step relation interleaves the iterations of any number of threads.  The atomics of the code are
  sequentially consistent, so an interleaving is what an execution is.
\<close>

section \<open>The code\<close>

definition CRYPTO_REFCOUNT_MAX :: uint32 where
  "CRYPTO_REFCOUNT_MAX = 0xffffffff"

text \<open>The result, the counter and the expected value afterwards.  The first argument says whether
  the exchange fails without a reason.\<close>

definition CRYPTO_atomic_compare_exchange_weak_u32 :: "bool \<Rightarrow> uint32 \<Rightarrow> uint32 \<Rightarrow> uint32 \<Rightarrow> bool \<times> uint32 \<times> uint32" where
  "CRYPTO_atomic_compare_exchange_weak_u32 spurious val expected desired =
     (if val \<noteq> expected \<or> spurious then (False, val, val) else (True, desired, expected))"

text \<open>An iteration of the loop of \<open>CRYPTO_refcount_inc\<close>: the counter and, when the loop goes on,
  the next expected value.\<close>

definition CRYPTO_refcount_inc_iter :: "bool \<Rightarrow> uint32 \<Rightarrow> uint32 \<Rightarrow> uint32 \<times> uint32 option" where
  "CRYPTO_refcount_inc_iter spurious val expected =
     (if expected \<noteq> CRYPTO_REFCOUNT_MAX then
        let new_value = expected + 1
        in case CRYPTO_atomic_compare_exchange_weak_u32 spurious val expected new_value of
             (True, val, expected) \<Rightarrow> (val, None)
           | (False, val, expected) \<Rightarrow> (val, Some expected)
      else (val, None))"

datatype dec_outcome = Aborts | Returns bool | Continues uint32

definition CRYPTO_refcount_dec_iter :: "bool \<Rightarrow> uint32 \<Rightarrow> uint32 \<Rightarrow> uint32 \<times> dec_outcome" where
  "CRYPTO_refcount_dec_iter spurious val expected =
     (if expected = 0 then (val, Aborts)
      else if expected = CRYPTO_REFCOUNT_MAX then (val, Returns False)
      else
        let new_value = expected - 1
        in case CRYPTO_atomic_compare_exchange_weak_u32 spurious val expected new_value of
             (True, val, expected) \<Rightarrow> (val, Returns (new_value = 0))
           | (False, val, expected) \<Rightarrow> (val, Continues expected))"

section \<open>Threads\<close>

text \<open>A thread owns some references and is between two calls or inside one, where it holds its
  expected value.\<close>

datatype pc = Idle | Inc uint32 | Dec uint32 | Aborted

record owner =
  refs :: nat
  at :: pc

text \<open>\<open>frees\<close> counts the calls of \<open>CRYPTO_refcount_dec_and_test_zero\<close> that returned one, after each
  of which the caller destroys the object.\<close>

record shared_count =
  counter :: uint32
  owners :: "owner list"
  frees :: nat

text \<open>A thread calls an operation only while it owns a reference.  A call of
  \<open>CRYPTO_refcount_inc\<close> gives it one more, a call of \<open>CRYPTO_refcount_dec_and_test_zero\<close> takes
  one, and a thread may pass a reference on.\<close>

inductive refcount_step :: "shared_count \<Rightarrow> shared_count \<Rightarrow> bool" where
  inc_load:
  "i < length ts \<Longrightarrow> at (ts ! i) = Idle \<Longrightarrow> 0 < refs (ts ! i) \<Longrightarrow>
   refcount_step \<lparr>counter = c, owners = ts, frees = f\<rparr>
     \<lparr>counter = c, owners = ts[i := (ts ! i)\<lparr>at := Inc c\<rparr>], frees = f\<rparr>"
| inc_again:
  "i < length ts \<Longrightarrow> at (ts ! i) = Inc e \<Longrightarrow> CRYPTO_refcount_inc_iter spurious c e = (c', Some e') \<Longrightarrow>
   refcount_step \<lparr>counter = c, owners = ts, frees = f\<rparr>
     \<lparr>counter = c', owners = ts[i := (ts ! i)\<lparr>at := Inc e'\<rparr>], frees = f\<rparr>"
| inc_done:
  "i < length ts \<Longrightarrow> at (ts ! i) = Inc e \<Longrightarrow> CRYPTO_refcount_inc_iter spurious c e = (c', None) \<Longrightarrow>
   refcount_step \<lparr>counter = c, owners = ts, frees = f\<rparr>
     \<lparr>counter = c', owners = ts[i := \<lparr>refs = refs (ts ! i) + 1, at = Idle\<rparr>], frees = f\<rparr>"
| dec_load:
  "i < length ts \<Longrightarrow> at (ts ! i) = Idle \<Longrightarrow> 0 < refs (ts ! i) \<Longrightarrow>
   refcount_step \<lparr>counter = c, owners = ts, frees = f\<rparr>
     \<lparr>counter = c, owners = ts[i := \<lparr>refs = refs (ts ! i) - 1, at = Dec c\<rparr>], frees = f\<rparr>"
| dec_again:
  "i < length ts \<Longrightarrow> at (ts ! i) = Dec e \<Longrightarrow> CRYPTO_refcount_dec_iter spurious c e = (c', Continues e') \<Longrightarrow>
   refcount_step \<lparr>counter = c, owners = ts, frees = f\<rparr>
     \<lparr>counter = c', owners = ts[i := (ts ! i)\<lparr>at := Dec e'\<rparr>], frees = f\<rparr>"
| dec_done:
  "i < length ts \<Longrightarrow> at (ts ! i) = Dec e \<Longrightarrow> CRYPTO_refcount_dec_iter spurious c e = (c', Returns zero) \<Longrightarrow>
   refcount_step \<lparr>counter = c, owners = ts, frees = f\<rparr>
     \<lparr>counter = c', owners = ts[i := (ts ! i)\<lparr>at := Idle\<rparr>], frees = (if zero then f + 1 else f)\<rparr>"
| dec_abort:
  "i < length ts \<Longrightarrow> at (ts ! i) = Dec e \<Longrightarrow> CRYPTO_refcount_dec_iter spurious c e = (c', Aborts) \<Longrightarrow>
   refcount_step \<lparr>counter = c, owners = ts, frees = f\<rparr>
     \<lparr>counter = c', owners = ts[i := (ts ! i)\<lparr>at := Aborted\<rparr>], frees = f\<rparr>"
| pass_on:
  "i < length ts \<Longrightarrow> j < length ts \<Longrightarrow> i \<noteq> j \<Longrightarrow> at (ts ! i) = Idle \<Longrightarrow> 0 < refs (ts ! i) \<Longrightarrow>
   refcount_step \<lparr>counter = c, owners = ts, frees = f\<rparr>
     \<lparr>counter = c, owners = ts[i := (ts ! i)\<lparr>refs := refs (ts ! i) - 1\<rparr>, j := (ts ! j)\<lparr>refs := refs (ts ! j) + 1\<rparr>], frees = f\<rparr>"

text \<open>A new object has a count of one and one owner.\<close>

definition refcount_init :: "nat \<Rightarrow> shared_count" where
  "refcount_init n = \<lparr>counter = 1, owners = \<lparr>refs = 1, at = Idle\<rparr> # replicate n \<lparr>refs = 0, at = Idle\<rparr>, frees = 0\<rparr>"

section \<open>The invariant\<close>

text \<open>A thread inside \<open>CRYPTO_refcount_dec_and_test_zero\<close> has given its reference up, and the
  counter still has to follow.\<close>

definition weight :: "owner \<Rightarrow> nat" where
  "weight t = refs t + (case at t of Dec _ \<Rightarrow> 1 | _ \<Rightarrow> 0)"

definition held :: "owner list \<Rightarrow> nat" where
  "held ts = sum_list (map weight ts)"

text \<open>A thread that holds the saturated value read it from a saturated counter, which stays so.\<close>

definition owner_ok :: "uint32 \<Rightarrow> owner \<Rightarrow> bool" where
  "owner_ok c t =
     (case at t of
        Idle \<Rightarrow> True
      | Inc e \<Rightarrow> 0 < refs t \<and> (e = CRYPTO_REFCOUNT_MAX \<longrightarrow> c = CRYPTO_REFCOUNT_MAX)
      | Dec e \<Rightarrow> e \<noteq> 0 \<and> (e = CRYPTO_REFCOUNT_MAX \<longrightarrow> c = CRYPTO_REFCOUNT_MAX)
      | Aborted \<Rightarrow> False)"

definition counted :: "uint32 \<Rightarrow> nat \<Rightarrow> nat \<Rightarrow> bool" where
  "counted c h f \<longleftrightarrow> (c = CRYPTO_REFCOUNT_MAX \<or> unat c = h) \<and> f = (if c = 0 then 1 else 0)"

definition refcount_inv :: "shared_count \<Rightarrow> bool" where
  "refcount_inv s \<longleftrightarrow> counted (counter s) (held (owners s)) (frees s) \<and> (\<forall>t \<in> set (owners s). owner_ok (counter s) t)"

lemma held_update:
  assumes "i < length ts"
  shows "held (ts[i := t]) = held ts - weight (ts ! i) + weight t" "weight (ts ! i) \<le> held ts"
proof -
  have le: "weight (ts ! i) \<le> held ts"
    using elem_le_sum_list [of i "map weight ts"] assms by (simp add: held_def)
  then show "weight (ts ! i) \<le> held ts" .
  show "held (ts[i := t]) = held ts - weight (ts ! i) + weight t"
    using le assms by (simp add: held_def map_update sum_list_update)
qed

lemma owner_ok_saturated: "owner_ok c t \<Longrightarrow> (c = CRYPTO_REFCOUNT_MAX \<Longrightarrow> c' = c) \<Longrightarrow> owner_ok c' t"
  by (auto simp: owner_ok_def split: pc.splits)

lemma owners_update:
  assumes "\<forall>t \<in> set ts. owner_ok c t" "owner_ok c' t'" "c = CRYPTO_REFCOUNT_MAX \<Longrightarrow> c' = c"
  shows "\<forall>t \<in> set (ts[i := t']). owner_ok c' t"
  using assms owner_ok_saturated [OF _ assms(3)] set_update_subset_insert [of ts i t'] by blast

text \<open>A step that changes one thread keeps the invariant when the counter follows the weight and
  stays saturated once it is.\<close>

lemma refcount_inv_update:
  assumes inv: "refcount_inv \<lparr>counter = c, owners = ts, frees = f\<rparr>" and i: "i < length ts"
    and ok: "owner_ok c' t'" and sat: "c = CRYPTO_REFCOUNT_MAX \<Longrightarrow> c' = c"
    and cnt: "\<And>h. weight (ts ! i) \<le> h \<Longrightarrow> counted c h f \<Longrightarrow> counted c' (h - weight (ts ! i) + weight t') f'"
  shows "refcount_inv \<lparr>counter = c', owners = ts[i := t'], frees = f'\<rparr>"
  using inv cnt [OF held_update(2) [OF i]] owners_update [OF _ ok sat, of ts i]
  by (simp add: refcount_inv_def held_update(1) [OF i])

lemma REFCOUNT_MAX_minus_one: "CRYPTO_REFCOUNT_MAX = - 1"
  by (simp add: CRYPTO_REFCOUNT_MAX_def)

lemma counted_pos: "counted c h f \<Longrightarrow> 0 < h \<Longrightarrow> c \<noteq> 0"
  by (auto simp: counted_def REFCOUNT_MAX_minus_one)

lemmas iter_simps = CRYPTO_refcount_inc_iter_def CRYPTO_refcount_dec_iter_def
  CRYPTO_atomic_compare_exchange_weak_u32_def REFCOUNT_MAX_minus_one counted_def Let_def

lemma counted_inc:
  assumes "counted c h f" "0 < h" "CRYPTO_refcount_inc_iter spurious c e = (c', r)" "e = CRYPTO_REFCOUNT_MAX \<longrightarrow> c = CRYPTO_REFCOUNT_MAX"
  shows "counted c' (if r = None then h + 1 else h) f" "\<And>e'. r = Some e' \<Longrightarrow> e' = c'" "c = CRYPTO_REFCOUNT_MAX \<Longrightarrow> c' = c"
proof -
  have "c + 1 \<noteq> 0" "unat (c + 1) = unat c + 1" if "c \<noteq> - 1"
    using that unatSuc [of c] by (auto simp: add.commute add_eq_0_iff)
  then show "counted c' (if r = None then h + 1 else h) f" "\<And>e'. r = Some e' \<Longrightarrow> e' = c'" "c = CRYPTO_REFCOUNT_MAX \<Longrightarrow> c' = c"
    using assms counted_pos [OF assms(1,2)] by (auto simp: iter_simps split: if_splits)
qed

lemma counted_dec:
  assumes "counted c h f" "0 < h" "CRYPTO_refcount_dec_iter spurious c e = (c', r)" "e \<noteq> 0" "e = CRYPTO_REFCOUNT_MAX \<longrightarrow> c = CRYPTO_REFCOUNT_MAX"
  shows "case r of Aborts \<Rightarrow> False | Returns zero \<Rightarrow> counted c' (h - 1) (if zero then f + 1 else f)
      | Continues e' \<Rightarrow> counted c' h f \<and> e' = c'" "c = CRYPTO_REFCOUNT_MAX \<Longrightarrow> c' = c"
proof -
  have "unat (c - 1) = unat c - 1" if "c \<noteq> 0" using that by (simp add: unat_minus_one)
  then show "case r of Aborts \<Rightarrow> False | Returns zero \<Rightarrow> counted c' (h - 1) (if zero then f + 1 else f)
      | Continues e' \<Rightarrow> counted c' h f \<and> e' = c'" "c = CRYPTO_REFCOUNT_MAX \<Longrightarrow> c' = c"
    using assms counted_pos [OF assms(1,2)] by (auto simp: iter_simps split: if_splits)
qed

lemma refcount_inv_owner:
  assumes "refcount_inv \<lparr>counter = c, owners = ts, frees = f\<rparr>" "i < length ts"
  shows "owner_ok c (ts ! i)" "counted c (held ts) f" "weight (ts ! i) \<le> held ts"
  using assms held_update(2) by (auto simp: refcount_inv_def)

lemma inc_owner:
  assumes "refcount_inv \<lparr>counter = c, owners = ts, frees = f\<rparr>" "i < length ts" "at (ts ! i) = Inc e"
  shows "0 < refs (ts ! i)" "e = CRYPTO_REFCOUNT_MAX \<longrightarrow> c = CRYPTO_REFCOUNT_MAX" "weight (ts ! i) \<le> h \<Longrightarrow> 0 < h"
  using refcount_inv_owner [OF assms(1,2)] assms(3) by (auto simp: owner_ok_def weight_def)

lemma dec_owner:
  assumes "refcount_inv \<lparr>counter = c, owners = ts, frees = f\<rparr>" "i < length ts" "at (ts ! i) = Dec e"
  shows "e \<noteq> 0" "e = CRYPTO_REFCOUNT_MAX \<longrightarrow> c = CRYPTO_REFCOUNT_MAX" "weight (ts ! i) \<le> h \<Longrightarrow> 0 < h"
  using refcount_inv_owner [OF assms(1,2)] assms(3) by (auto simp: owner_ok_def weight_def)

lemma refcount_inv_step: "refcount_step s s' \<Longrightarrow> refcount_inv s \<Longrightarrow> refcount_inv s'"
proof (induction rule: refcount_step.induct)
  case (inc_load i ts c f)
  then show ?case by (intro refcount_inv_update [OF inc_load(4,1)]) (auto simp: owner_ok_def weight_def)
next
  case (inc_again i ts e spurious c c' e' f)
  note o = inc_owner [OF inc_again(4,1,2)] and c = counted_inc [OF _ _ inc_again(3) o(2)]
  show ?case
    using c refcount_inv_owner [OF inc_again(4,1)] inc_again(2) o(1)
    by (intro refcount_inv_update [OF inc_again(4,1)]) (auto simp: owner_ok_def weight_def dest: o(3))
next
  case (inc_done i ts e spurious c c' f)
  note o = inc_owner [OF inc_done(4,1,2)] and c = counted_inc [OF _ _ inc_done(3) o(2)]
  show ?case
    using c refcount_inv_owner [OF inc_done(4,1)] inc_done(2) o(1)
    by (intro refcount_inv_update [OF inc_done(4,1)]) (auto simp: owner_ok_def weight_def dest: o(3))
next
  case (dec_load i ts c f)
  then have "c \<noteq> 0" using refcount_inv_owner [OF dec_load(4,1)] counted_pos by (auto simp: weight_def)
  then show ?case using dec_load(2,3) by (intro refcount_inv_update [OF dec_load(4,1)]) (auto simp: owner_ok_def weight_def)
next
  case (dec_again i ts e spurious c c' e' f)
  note o = dec_owner [OF dec_again(4,1,2)] and w = refcount_inv_owner [OF dec_again(4,1)]
    and c = counted_dec [OF _ _ dec_again(3) o(1,2)]
  have "c' \<noteq> 0" using c(1) [OF w(2) o(3) [OF w(3)]] counted_pos o(3) [OF w(3)] by auto
  then show ?case
    using c w dec_again(2)
    by (intro refcount_inv_update [OF dec_again(4,1)]) (auto simp: owner_ok_def weight_def dest: o(3))
next
  case (dec_done i ts e spurious c c' zero f)
  note o = dec_owner [OF dec_done(4,1,2)] and w = refcount_inv_owner [OF dec_done(4,1)]
    and c = counted_dec [OF _ _ dec_done(3) o(1,2)]
  show ?case
    using c w dec_done(2)
    by (intro refcount_inv_update [OF dec_done(4,1)]) (auto simp: owner_ok_def weight_def dest: o(3))
next
  case (dec_abort i ts e spurious c c' f)
  note o = dec_owner [OF dec_abort(4,1,2)] and w = refcount_inv_owner [OF dec_abort(4,1)]
  show ?case using counted_dec(1) [OF w(2) o(3) [OF w(3)] dec_abort(3) o(1,2)] by simp
next
  case (pass_on i ts j c f)
  let ?ts = "ts[i := (ts ! i)\<lparr>refs := refs (ts ! i) - 1\<rparr>]"
  have "held (?ts[j := (ts ! j)\<lparr>refs := refs (ts ! j) + 1\<rparr>]) = held ts"
    using pass_on held_update [of i ts] held_update [of j ?ts] by (simp add: weight_def split: pc.splits)
  moreover have "owner_ok c ((ts ! i)\<lparr>refs := refs (ts ! i) - 1\<rparr>)" "owner_ok c ((ts ! j)\<lparr>refs := refs (ts ! j) + 1\<rparr>)"
    using pass_on refcount_inv_owner(1) [OF pass_on(6,1)] refcount_inv_owner(1) [OF pass_on(6,2)]
    by (auto simp: owner_ok_def split: pc.splits)
  moreover from calculation(2,3) have "\<forall>t \<in> set (?ts[j := (ts ! j)\<lparr>refs := refs (ts ! j) + 1\<rparr>]). owner_ok c t"
    using pass_on(6) by (intro owners_update [of _ c c]) (auto simp: refcount_inv_def)
  ultimately show ?case using pass_on(6) by (simp add: refcount_inv_def)
qed

text \<open>C8.  However the calls of any number of threads interleave and however often an exchange
  fails, no thread that owns its reference aborts, \<open>CRYPTO_refcount_dec_and_test_zero\<close> returns one
  at most once and never while another thread still owns a reference, and it has returned one when
  the last reference is gone, unless the counter saturated, after which the object is never
  destroyed.\<close>

theorem refcount_safe:
  assumes "refcount_step\<^sup>*\<^sup>* (refcount_init n) s"
  shows "(\<forall>t \<in> set (owners s). at t \<noteq> Aborted) \<and> frees s \<le> 1 \<and>
    (0 < held (owners s) \<longrightarrow> frees s = 0) \<and>
    (held (owners s) = 0 \<longrightarrow> counter s = CRYPTO_REFCOUNT_MAX \<or> frees s = 1)"
proof -
  have "refcount_inv s" using assms
  proof (induction rule: rtranclp_induct)
    case base
    show ?case by (auto simp: refcount_inv_def refcount_init_def counted_def held_def weight_def owner_ok_def sum_list_replicate)
  next
    case (step s s')
    then show ?case using refcount_inv_step by blast
  qed
  then show ?thesis
    by (auto simp: refcount_inv_def counted_def owner_ok_def REFCOUNT_MAX_minus_one unat_eq_zero split: if_splits)
qed

text \<open>Two owners, of which the first gives its reference up and is inside the call.\<close>

lemma two_owners:
  "refcount_step\<^sup>*\<^sup>* (refcount_init 1) \<lparr>counter = 1, owners = [\<lparr>refs = 0, at = Idle\<rparr>, \<lparr>refs = 1, at = Idle\<rparr>], frees = 0\<rparr>"
proof -
  let ?a = "\<lparr>refs = 1, at = Idle\<rparr>" and ?z = "\<lparr>refs = 0, at = Idle\<rparr>"
  have init: "refcount_init 1 = \<lparr>counter = 1, owners = [?a, ?z], frees = 0\<rparr>" by (simp add: refcount_init_def)
  have s1: "refcount_step \<lparr>counter = 1, owners = [?a, ?z], frees = 0\<rparr> \<lparr>counter = 1, owners = [\<lparr>refs = 1, at = Inc 1\<rparr>, ?z], frees = 0\<rparr>"
    using inc_load [of 0 "[?a, ?z]" 1 0] by simp
  have s2: "refcount_step \<lparr>counter = 1, owners = [\<lparr>refs = 1, at = Inc 1\<rparr>, ?z], frees = 0\<rparr> \<lparr>counter = 2, owners = [\<lparr>refs = Suc (Suc 0), at = Idle\<rparr>, ?z], frees = 0\<rparr>"
    using inc_done [of 0 "[\<lparr>refs = 1, at = Inc 1\<rparr>, ?z]" 1 False 1 2 0]
    by (simp add: CRYPTO_refcount_inc_iter_def CRYPTO_atomic_compare_exchange_weak_u32_def CRYPTO_REFCOUNT_MAX_def)
  have s3: "refcount_step \<lparr>counter = 2, owners = [\<lparr>refs = Suc (Suc 0), at = Idle\<rparr>, ?z], frees = 0\<rparr> \<lparr>counter = 2, owners = [?a, ?a], frees = 0\<rparr>"
    using pass_on [of 0 "[\<lparr>refs = Suc (Suc 0), at = Idle\<rparr>, ?z]" 1 2 0] by simp
  have s4: "refcount_step \<lparr>counter = 2, owners = [?a, ?a], frees = 0\<rparr> \<lparr>counter = 2, owners = [\<lparr>refs = 0, at = Dec 2\<rparr>, ?a], frees = 0\<rparr>"
    using dec_load [of 0 "[?a, ?a]" 2 0] by simp
  have s5: "refcount_step \<lparr>counter = 2, owners = [\<lparr>refs = 0, at = Dec 2\<rparr>, ?a], frees = 0\<rparr> \<lparr>counter = 1, owners = [?z, ?a], frees = 0\<rparr>"
    using dec_done [of 0 "[\<lparr>refs = 0, at = Dec 2\<rparr>, ?a]" 2 False 2 1 False 0]
    by (simp add: CRYPTO_refcount_dec_iter_def CRYPTO_atomic_compare_exchange_weak_u32_def CRYPTO_REFCOUNT_MAX_def)
  note chain = converse_rtranclp_into_rtranclp [of refcount_step]
  show ?thesis unfolding init by (rule chain [OF s1 chain [OF s2 chain [OF s3 chain [OF s4 r_into_rtranclp [of refcount_step, OF s5]]]]])
qed

theorem refcount_safe_witness:
  "0 < held [\<lparr>refs = 0, at = Idle\<rparr>, \<lparr>refs = 1, at = Idle\<rparr>] \<and>
   frees \<lparr>counter = 1, owners = [\<lparr>refs = 0, at = Idle\<rparr>, \<lparr>refs = 1, at = Idle\<rparr>], frees = 0\<rparr> = 0"
  using refcount_safe [OF two_owners] by (simp add: held_def weight_def)

end
